(* ===== verification/Prelude.thy ===== *)
theory Prelude
  imports Main "HOL-Library.Word"
begin

text \<open>
  What the components share: the machine integers of the target (64-bit iOS, little-endian,
  \<open>sizeof(void*) = sizeof(size_t) = 8\<close>), byte-addressed memory with little-endian loads and
  stores, the frame facts of those stores, and generic lemmas on words and lists.
\<close>

unbundle bit_operations_syntax

section \<open>Machine integers\<close>

type_synonym u8 = "8 word"
type_synonym u16 = "16 word"
type_synonym u32 = "32 word"
type_synonym u64 = "64 word"

named_theorems word_nat_simps \<open>natural-number readings of word operations\<close>
named_theorems frame_simps \<open>memory outside a written range is unchanged\<close>

lemma unat_lt2p: "unat (x :: 'a::len word) < 2 ^ LENGTH('a)"
  by (rule unsigned_less)

lemma unat_of_nat_eq: "n < 2 ^ LENGTH('a) \<Longrightarrow> unat (of_nat n :: 'a::len word) = n"
  by (simp add: unat_of_nat)

lemma unat_lt_u8 [simp]: "unat (x :: u8) < 256"
  using unat_lt2p [of x] by simp

lemma unat_lt_u32 [simp]: "unat (x :: u32) < 4294967296"
  using unat_lt2p [of x] by simp

lemma unat_lt_u64 [simp]: "unat (x :: u64) < 18446744073709551616"
  using unat_lt2p [of x] by simp

lemma unat_of_nat_u64 [word_nat_simps]:
  "n < 2 ^ 64 \<Longrightarrow> unat (of_nat n :: u64) = n"
  by (simp add: unat_of_nat_eq)

lemma unat_add_u64 [word_nat_simps]:
  "unat (a :: u64) + unat b < 2 ^ 64 \<Longrightarrow> unat (a + b) = unat a + unat b"
  by (simp add: unat_word_ariths)

lemma unat_sub_u64 [word_nat_simps]:
  "unat (b :: u64) \<le> unat a \<Longrightarrow> unat (a - b) = unat a - unat b"
  by (simp add: unat_sub word_le_nat_alt)

text \<open>The overflow test \<open>a + b < a\<close> of the C code detects exactly a carry out of 64 bits.\<close>

lemma add_overflow_u64: "((a :: u64) + b < a) \<longleftrightarrow> 2 ^ 64 \<le> unat a + unat b"
proof -
  have b: "unat b < 18446744073709551616" by simp
  show ?thesis
  proof (cases "unat a + unat b < 18446744073709551616")
    case True
    then show ?thesis by (simp add: word_less_nat_alt unat_plus_if')
  next
    case False
    then have "unat (a + b) = unat a + unat b - 18446744073709551616"
      by (simp add: unat_plus_if')
    with False b have "unat (a + b) < unat a" by linarith
    with False show ?thesis by (simp add: word_less_nat_alt)
  qed
qed

lemma unat_take_bit: "unat (take_bit n (w :: 'a::len word)) = unat w mod 2 ^ n"
  by (simp add: unsigned_take_bit_eq take_bit_eq_mod [where 'a = nat])

lemma unat_ucast_mod: "unat (ucast (w :: 'a::len word) :: 'b::len word) = unat w mod 2 ^ LENGTH('b)"
  by (simp add: unsigned_ucast_eq take_bit_eq_mod [where 'a = nat])

lemma take_bit_self: "unat (b :: 'a::len word) < 2 ^ n \<Longrightarrow> take_bit n b = b"
  by (rule unsigned_word_eqI [where 'a = nat]) (simp add: unat_take_bit)

lemma unat_drop_bit: "unat (drop_bit n (w :: 'a::len word)) = unat w div 2 ^ n"
  by (simp add: unat_drop_bit_eq drop_bit_eq_div [where 'a = nat])

lemma and_7F: "(v :: 'a::len word) AND 0x7F = take_bit 7 v"
  by (simp add: take_bit_eq_mask mask_eq_exp_minus_1)

lemma unat_and_7F: "unat ((v :: 'a::len word) AND 0x7F) = unat v mod 128"
  by (simp only: and_7F unat_take_bit) simp

lemma byte_or_80: "(b :: u8) < 0x80 \<Longrightarrow> unat (b OR 0x80) = unat b + 128"
proof -
  assume a: "b < 0x80"
  have h: "(0x80 :: u8) = 2 ^ 7" by simp
  from a have e: "take_bit 7 b = b"
    by (intro take_bit_self) (simp add: word_less_nat_alt)
  have "b AND 2 ^ 7 = 0"
    by (subst e [symmetric], rule bit_word_eqI)
       (simp only: bit_and_iff bit_take_bit_iff bit_exp_iff, auto)
  then have "b + 0x80 = b OR 0x80" unfolding h by (rule disjunctive_add_eq_or)
  moreover have "unat (b + 0x80) = unat b + 128"
    using a by (simp add: unat_plus_if' word_less_nat_alt)
  ultimately show ?thesis by simp
qed

text \<open>Shifts and disjoint ORs as multiplication and addition.\<close>

lemma unat_push_bit: "unat x * 2 ^ j < 2 ^ LENGTH('a) \<Longrightarrow> unat (push_bit j (x :: 'a::len word)) = unat x * 2 ^ j"
  by (simp add: unsigned_push_bit_eq push_bit_eq_mult [where 'a = nat] take_bit_eq_mod [where 'a = nat] del: push_bit_eq_mult)

lemma nat_or_shift: "(a :: nat) < 2 ^ j \<Longrightarrow> a OR push_bit j b = a + b * 2 ^ j"
proof -
  assume "a < 2 ^ j"
  then have t: "take_bit j a = a" by (simp add: take_bit_nat_eq_self)
  have "a AND push_bit j b = 0"
    by (subst t [symmetric], rule bit_eqI) (auto simp: bit_and_iff bit_take_bit_iff bit_push_bit_iff)
  then have "a + push_bit j b = a OR push_bit j b" by (rule disjunctive_add_eq_or)
  then show ?thesis by (simp add: push_bit_eq_mult [where 'a = nat])
qed

lemma unat_or_shift:
  assumes "unat r < 2 ^ j" and "unat x * 2 ^ j < 2 ^ LENGTH('a)"
  shows "unat ((r :: 'a::len word) OR push_bit j x) = unat r + unat x * 2 ^ j"
proof -
  have "unat (r OR push_bit j x) = unat r OR unat (push_bit j x)" by (rule unsigned_or_eq)
  also have "\<dots> = unat r OR push_bit j (unat x)"
    by (simp only: unat_push_bit [OF assms(2)] push_bit_eq_mult [where 'a = nat])
  finally show ?thesis using nat_or_shift [OF assms(1)] by simp
qed

lemma byte_and_80: "((b :: u8) AND 0x80 = 0) \<longleftrightarrow> unat b < 128"
proof -
  have h: "(0x80 :: u8) = 2 ^ 7" by simp
  have "(b AND 2 ^ 7 = 0) \<longleftrightarrow> \<not> bit b 7" by (rule and_exp_eq_0_iff_not_bit)
  also have "\<dots> \<longleftrightarrow> even (unat b div 128)"
    by (simp add: bit_iff_odd [of "unat b"] flip: bit_unsigned_iff [where 'a = nat and 'b = 8, simplified])
  also have "\<dots> \<longleftrightarrow> unat b < 128"
  proof -
    have "unat b < 256" by simp
    then have "unat b div 128 < 2" by linarith
    then show ?thesis by (auto simp: less_2_cases_iff div_eq_0_iff)
  qed
  finally show ?thesis unfolding h .
qed

lemma unat_ucast_u32: "unat (ucast (v :: u32) :: u64) = unat v"
proof -
  have "unat v < 18446744073709551616" by (rule less_trans [of _ 4294967296]) simp_all
  then show ?thesis by (simp add: unat_ucast_mod)
qed

lemma unat_ucast_8_32: "unat (ucast (b :: u8) :: u32) = unat b"
proof -
  have "unat b < 4294967296" by (rule less_trans [of _ 256]) simp_all
  then show ?thesis by (simp add: unat_ucast_mod)
qed

lemma unat_ucast_8_64: "unat (ucast (b :: u8) :: u64) = unat b"
proof -
  have "unat b < 18446744073709551616" by (rule less_trans [of _ 256]) simp_all
  then show ?thesis by (simp add: unat_ucast_mod)
qed

lemma push_or: "push_bit n ((a :: 'a::len word) OR b) = push_bit n a OR push_bit n b"
  by (rule push_bit_or)

section \<open>Little-endian byte strings\<close>

text \<open>\<open>le_bytes n w\<close> is the \<open>n\<close>-byte little-endian image of \<open>w\<close>; \<open>of_le\<close> reads one back.\<close>

primrec le_bytes :: "nat \<Rightarrow> nat \<Rightarrow> u8 list" where
  "le_bytes 0 w = []"
| "le_bytes (Suc n) w = of_nat (w mod 256) # le_bytes n (w div 256)"

primrec of_le :: "u8 list \<Rightarrow> nat" where
  "of_le [] = 0"
| "of_le (b # bs) = unat b + 256 * of_le bs"

lemma length_le_bytes [simp]: "length (le_bytes n w) = n"
  by (induction n arbitrary: w) simp_all

lemma of_le_le_bytes: "of_le (le_bytes n w) = w mod 256 ^ n"
proof (induction n arbitrary: w)
  case 0
  then show ?case by simp
next
  case (Suc n)
  have "of_le (le_bytes (Suc n) w) = w mod 256 + 256 * (w div 256 mod 256 ^ n)"
    by (simp add: Suc.IH unat_of_nat)
  also have "\<dots> = w mod (256 * 256 ^ n)"
    using mod_mult2_eq [of w 256 "256 ^ n"] by simp
  finally show ?case by simp
qed

lemma of_le_bound: "of_le bs < 256 ^ length bs"
proof (induction bs)
  case Nil
  then show ?case by simp
next
  case (Cons b bs)
  have "unat b < 256" by simp
  moreover from Cons have "256 * of_le bs + 256 \<le> 256 * 256 ^ length bs" by simp
  ultimately have "unat b + 256 * of_le bs < 256 * 256 ^ length bs" by linarith
  then show ?case by simp
qed

lemma le_bytes_of_le: "le_bytes (length bs) (of_le bs) = bs"
proof (induction bs)
  case Nil
  then show ?case by simp
next
  case (Cons b bs)
  have "(unat b + 256 * of_le bs) mod 256 = unat b" by simp
  moreover have "(unat b + 256 * of_le bs) div 256 = of_le bs"
    by (simp add: div_add1_eq)
  ultimately show ?case using Cons by simp
qed

section \<open>Byte-addressed memory\<close>

text \<open>
  Memory is a total map from 64-bit addresses to bytes. A range is read and written through
  the wrapping distance from its start, so a range may wrap around the address space.
\<close>

type_synonym mem = "u64 \<Rightarrow> u8"

definition rd_bytes :: "mem \<Rightarrow> u64 \<Rightarrow> nat \<Rightarrow> u8 list" where
  "rd_bytes m a n = map (\<lambda>i. m (a + of_nat i)) [0..<n]"

definition wr_bytes :: "mem \<Rightarrow> u64 \<Rightarrow> u8 list \<Rightarrow> mem" where
  "wr_bytes m a bs = (\<lambda>x. if unat (x - a) < length bs then bs ! unat (x - a) else m x)"

definition rd8 :: "mem \<Rightarrow> u64 \<Rightarrow> u8" where "rd8 m a = m a"
definition rd16 :: "mem \<Rightarrow> u64 \<Rightarrow> u16" where "rd16 m a = of_nat (of_le (rd_bytes m a 2))"
definition rd32 :: "mem \<Rightarrow> u64 \<Rightarrow> u32" where "rd32 m a = of_nat (of_le (rd_bytes m a 4))"
definition rd64 :: "mem \<Rightarrow> u64 \<Rightarrow> u64" where "rd64 m a = of_nat (of_le (rd_bytes m a 8))"

definition wr8 :: "mem \<Rightarrow> u64 \<Rightarrow> u8 \<Rightarrow> mem" where "wr8 m a v = wr_bytes m a [v]"
definition wr16 :: "mem \<Rightarrow> u64 \<Rightarrow> u16 \<Rightarrow> mem" where "wr16 m a v = wr_bytes m a (le_bytes 2 (unat v))"
definition wr32 :: "mem \<Rightarrow> u64 \<Rightarrow> u32 \<Rightarrow> mem" where "wr32 m a v = wr_bytes m a (le_bytes 4 (unat v))"
definition wr64 :: "mem \<Rightarrow> u64 \<Rightarrow> u64 \<Rightarrow> mem" where "wr64 m a v = wr_bytes m a (le_bytes 8 (unat v))"

text \<open>\<open>memset\<close> of the C library.\<close>

definition memset :: "mem \<Rightarrow> u64 \<Rightarrow> u8 \<Rightarrow> nat \<Rightarrow> mem" where
  "memset m a c n = wr_bytes m a (replicate n c)"

text \<open>\<open>in_range a n x\<close>: the address \<open>x\<close> lies in the \<open>n\<close> bytes from \<open>a\<close>.\<close>

definition in_range :: "u64 \<Rightarrow> nat \<Rightarrow> u64 \<Rightarrow> bool" where
  "in_range a n x \<longleftrightarrow> unat (x - a) < n"

lemma length_rd_bytes [simp]: "length (rd_bytes m a n) = n"
  by (simp add: rd_bytes_def)

lemma rd_bytes_0 [simp]: "rd_bytes m a 0 = []"
  by (simp add: rd_bytes_def)

lemma wr_bytes_Nil [simp]: "wr_bytes m a [] = m"
  by (simp add: wr_bytes_def)

lemma wr_bytes_frame [frame_simps]:
  "\<not> in_range a (length bs) x \<Longrightarrow> wr_bytes m a bs x = m x"
  by (simp add: wr_bytes_def in_range_def)

lemma in_range_mono: "in_range a n x \<Longrightarrow> n \<le> k \<Longrightarrow> in_range a k x"
  by (simp add: in_range_def)

lemma rd_wr_bytes:
  assumes "length bs < 2 ^ 64"
  shows "rd_bytes (wr_bytes m a bs) a (length bs) = bs"
  using assms by (intro nth_equalityI) (simp_all add: rd_bytes_def wr_bytes_def unat_of_nat_eq)

lemma wr8_frame [frame_simps]: "\<not> in_range a 1 x \<Longrightarrow> wr8 m a v x = m x"
  by (simp add: wr8_def wr_bytes_frame)

lemma wr16_frame [frame_simps]: "\<not> in_range a 2 x \<Longrightarrow> wr16 m a v x = m x"
  by (simp add: wr16_def wr_bytes_frame)

lemma wr32_frame [frame_simps]: "\<not> in_range a 4 x \<Longrightarrow> wr32 m a v x = m x"
  by (simp add: wr32_def wr_bytes_frame)

lemma wr64_frame [frame_simps]: "\<not> in_range a 8 x \<Longrightarrow> wr64 m a v x = m x"
  by (simp add: wr64_def wr_bytes_frame)

lemma memset_frame [frame_simps]: "\<not> in_range a n x \<Longrightarrow> memset m a c n x = m x"
  by (simp add: memset_def wr_bytes_frame)

lemma rd_wr8 [simp]: "rd8 (wr8 m a v) a = v"
  by (simp add: rd8_def wr8_def wr_bytes_def)

lemma rd_wr16 [simp]: "rd16 (wr16 m a v) a = v"
  using rd_wr_bytes [of "le_bytes 2 (unat v)" m a] unat_lt2p [of v]
  by (simp add: rd16_def wr16_def of_le_le_bytes)

lemma rd_wr32 [simp]: "rd32 (wr32 m a v) a = v"
  using rd_wr_bytes [of "le_bytes 4 (unat v)" m a] unat_lt2p [of v]
  by (simp add: rd32_def wr32_def of_le_le_bytes)

lemma rd_wr64 [simp]: "rd64 (wr64 m a v) a = v"
  using rd_wr_bytes [of "le_bytes 8 (unat v)" m a] unat_lt2p [of v]
  by (simp add: rd64_def wr64_def of_le_le_bytes)

end
