(* ===== verification/Nanopb_Base.thy ===== *)
theory Nanopb_Base
  imports Prelude
begin

text \<open>
  The data of nanopb (\<open>Pods/nanopb/pb.h\<close>, \<open>pb_common.h\<close>): field descriptors and the type byte,
  output streams, and the field iterator of \<open>pb_common.c\<close>. The build sets
  \<open>PB_FIELD_32BIT\<close>, \<open>PB_NO_PACKED_STRUCTS\<close> and \<open>PB_ENABLE_MALLOC\<close>, so \<open>pb_size_t\<close> is 32 bits
  and pointer fields are supported. A pointer is its 64-bit address; the descriptor arrays are
  constant data, given by the address they start at.
\<close>

section \<open>The type byte of a field\<close>

abbreviation (input) PB_LTYPE_BOOL :: u8 where "PB_LTYPE_BOOL \<equiv> 0x00"
abbreviation (input) PB_LTYPE_VARINT :: u8 where "PB_LTYPE_VARINT \<equiv> 0x01"
abbreviation (input) PB_LTYPE_UVARINT :: u8 where "PB_LTYPE_UVARINT \<equiv> 0x02"
abbreviation (input) PB_LTYPE_SVARINT :: u8 where "PB_LTYPE_SVARINT \<equiv> 0x03"
abbreviation (input) PB_LTYPE_FIXED32 :: u8 where "PB_LTYPE_FIXED32 \<equiv> 0x04"
abbreviation (input) PB_LTYPE_FIXED64 :: u8 where "PB_LTYPE_FIXED64 \<equiv> 0x05"
abbreviation (input) PB_LTYPE_LAST_PACKABLE :: u8 where "PB_LTYPE_LAST_PACKABLE \<equiv> 0x05"
abbreviation (input) PB_LTYPE_BYTES :: u8 where "PB_LTYPE_BYTES \<equiv> 0x06"
abbreviation (input) PB_LTYPE_STRING :: u8 where "PB_LTYPE_STRING \<equiv> 0x07"
abbreviation (input) PB_LTYPE_SUBMESSAGE :: u8 where "PB_LTYPE_SUBMESSAGE \<equiv> 0x08"
abbreviation (input) PB_LTYPE_EXTENSION :: u8 where "PB_LTYPE_EXTENSION \<equiv> 0x09"
abbreviation (input) PB_LTYPE_FIXED_LENGTH_BYTES :: u8 where "PB_LTYPE_FIXED_LENGTH_BYTES \<equiv> 0x0A"

abbreviation (input) PB_HTYPE_REQUIRED :: u8 where "PB_HTYPE_REQUIRED \<equiv> 0x00"
abbreviation (input) PB_HTYPE_OPTIONAL :: u8 where "PB_HTYPE_OPTIONAL \<equiv> 0x10"
abbreviation (input) PB_HTYPE_REPEATED :: u8 where "PB_HTYPE_REPEATED \<equiv> 0x20"
abbreviation (input) PB_HTYPE_ONEOF :: u8 where "PB_HTYPE_ONEOF \<equiv> 0x30"

abbreviation (input) PB_ATYPE_STATIC :: u8 where "PB_ATYPE_STATIC \<equiv> 0x00"
abbreviation (input) PB_ATYPE_POINTER :: u8 where "PB_ATYPE_POINTER \<equiv> 0x80"
abbreviation (input) PB_ATYPE_CALLBACK :: u8 where "PB_ATYPE_CALLBACK \<equiv> 0x40"

definition PB_ATYPE :: "u8 \<Rightarrow> u8" where "PB_ATYPE x = x AND 0xC0"
definition PB_HTYPE :: "u8 \<Rightarrow> u8" where "PB_HTYPE x = x AND 0x30"
definition PB_LTYPE :: "u8 \<Rightarrow> u8" where "PB_LTYPE x = x AND 0x0F"

abbreviation (input) PB_SIZE_MAX :: u32 where "PB_SIZE_MAX \<equiv> 0xFFFFFFFF"

text \<open>Wire types, as the integers of the enumeration \<open>pb_wire_type_t\<close>.\<close>

abbreviation (input) PB_WT_VARINT :: u32 where "PB_WT_VARINT \<equiv> 0"
abbreviation (input) PB_WT_64BIT :: u32 where "PB_WT_64BIT \<equiv> 1"
abbreviation (input) PB_WT_STRING :: u32 where "PB_WT_STRING \<equiv> 2"
abbreviation (input) PB_WT_32BIT :: u32 where "PB_WT_32BIT \<equiv> 5"

section \<open>Descriptors\<close>

text \<open>
  \<open>size_offset\<close> is a signed 32-bit offset, kept as its bit pattern and sign-extended where the
  C code adds it to a pointer. \<open>ptr\<close> is the address of a submessage's descriptors or of a default
  value, 0 for none.
\<close>

record pb_field =
  tag :: u32
  ftype :: u8
  data_offset :: u32
  size_offset :: u32
  data_size :: u32
  array_size :: u32
  ptr :: u64

definition PB_LAST_FIELD :: pb_field where
  "PB_LAST_FIELD = \<lparr>tag = 0, ftype = 0, data_offset = 0, size_offset = 0, data_size = 0,
     array_size = 0, ptr = 0\<rparr>"

text \<open>
  A descriptor array is the list of its entries before the terminator; reading at the end gives
  the terminator.
\<close>

definition field_at :: "pb_field list \<Rightarrow> nat \<Rightarrow> pb_field" where
  "field_at fs i = (if i < length fs then fs ! i else PB_LAST_FIELD)"

section \<open>Structures in memory\<close>

text \<open>
  Offsets of \<open>pb_bytes_array_t\<close>, \<open>pb_callback_t\<close>, \<open>pb_extension_t\<close> and
  \<open>pb_extension_type_t\<close> on a target with 8-byte pointers.
\<close>

definition PB_BYTES_ARRAY_T_ALLOCSIZE :: "u32 \<Rightarrow> u64" where
  "PB_BYTES_ARRAY_T_ALLOCSIZE n = ucast n + 4"

definition bytes_array_size :: "mem \<Rightarrow> u64 \<Rightarrow> u32" where "bytes_array_size m p = rd32 m p"
definition bytes_array_bytes :: "u64 \<Rightarrow> u64" where "bytes_array_bytes p = p + 4"

definition callback_func :: "mem \<Rightarrow> u64 \<Rightarrow> u64" where "callback_func m p = rd64 m p"
definition callback_arg_addr :: "u64 \<Rightarrow> u64" where "callback_arg_addr p = p + 8"

definition extension_type :: "mem \<Rightarrow> u64 \<Rightarrow> u64" where "extension_type m p = rd64 m p"
definition extension_dest_addr :: "u64 \<Rightarrow> u64" where "extension_dest_addr p = p + 8"
definition extension_next :: "mem \<Rightarrow> u64 \<Rightarrow> u64" where "extension_next m p = rd64 m (p + 16)"
definition extension_found_addr :: "u64 \<Rightarrow> u64" where "extension_found_addr p = p + 24"
definition extension_type_decode :: "mem \<Rightarrow> u64 \<Rightarrow> u64" where "extension_type_decode m t = rd64 m t"
definition extension_type_encode :: "mem \<Rightarrow> u64 \<Rightarrow> u64" where "extension_type_encode m t = rd64 m (t + 8)"
definition extension_type_arg :: "mem \<Rightarrow> u64 \<Rightarrow> u64" where "extension_type_arg m t = rd64 m (t + 16)"

section \<open>The field iterator\<close>

record pb_field_iter =
  start :: "pb_field list"
  pos :: nat
  required_field_index :: u32
  dest_struct :: u64
  pData :: u64
  pSize :: u64

definition iter_field :: "pb_field_iter \<Rightarrow> pb_field" where
  "iter_field it = field_at (start it) (pos it)"

definition pb_field_iter_begin :: "pb_field list \<Rightarrow> u64 \<Rightarrow> bool \<times> pb_field_iter" where
  "pb_field_iter_begin fs dest =
     (let f = field_at fs 0;
          d = dest + ucast (data_offset f)
      in (tag f \<noteq> 0,
          \<lparr>start = fs, pos = 0, required_field_index = 0, dest_struct = dest,
           pData = d, pSize = d + scast (size_offset f)\<rparr>))"

text \<open>Bytes the previous field occupies in the structure (\<open>prev_size\<close> of the C code).\<close>

definition prev_field_size :: "pb_field \<Rightarrow> u64" where
  "prev_field_size f =
     (if PB_ATYPE (ftype f) = PB_ATYPE_STATIC \<and> PB_HTYPE (ftype f) = PB_HTYPE_REPEATED
      then ucast (data_size f) * ucast (array_size f)
      else if PB_ATYPE (ftype f) = PB_ATYPE_POINTER then 8
      else ucast (data_size f))"

definition pb_field_iter_next :: "pb_field_iter \<Rightarrow> bool \<times> pb_field_iter" where
  "pb_field_iter_next it =
     (let prev = iter_field it in
      if tag prev = 0 then (False, it)
      else
        let it1 = it\<lparr>pos := Suc (pos it)\<rparr>; f = iter_field it1 in
        if tag f = 0 then (False, snd (pb_field_iter_begin (start it1) (dest_struct it1)))
        else if PB_HTYPE (ftype prev) = PB_HTYPE_ONEOF \<and> PB_HTYPE (ftype f) = PB_HTYPE_ONEOF \<and>
                data_offset f = PB_SIZE_MAX
        then (True, it1)
        else
          let req = (if PB_HTYPE (ftype prev) = PB_HTYPE_REQUIRED
                     then required_field_index it1 + 1 else required_field_index it1);
              d = pData it1 + prev_field_size prev + ucast (data_offset f)
          in (True, it1\<lparr>required_field_index := req, pData := d,
                        pSize := d + scast (size_offset f)\<rparr>))"

text \<open>
  \<open>pb_field_iter_find\<close> walks the circular iterator until it is back where it began; the walk is
  given \<open>Suc (length fields)\<close> rounds, and \<open>None\<close> would mean it needs more.
\<close>

primrec iter_find_loop :: "nat \<Rightarrow> nat \<Rightarrow> u32 \<Rightarrow> pb_field_iter \<Rightarrow> (bool \<times> pb_field_iter) option" where
  "iter_find_loop 0 start_pos t it = None"
| "iter_find_loop (Suc n) start_pos t it =
     (if tag (iter_field it) = t \<and> PB_LTYPE (ftype (iter_field it)) \<noteq> PB_LTYPE_EXTENSION
      then Some (True, it)
      else let it' = snd (pb_field_iter_next it) in
        if pos it' \<noteq> start_pos then iter_find_loop n start_pos t it' else Some (False, it'))"

definition pb_field_iter_find :: "pb_field_iter \<Rightarrow> u32 \<Rightarrow> (bool \<times> pb_field_iter) option" where
  "pb_field_iter_find it t = iter_find_loop (Suc (length (start it))) (pos it) t it"

section \<open>Sequencing and the loop over the fields\<close>

text \<open>\<open>if (!f(...)) return false;\<close> followed by the rest of the function.\<close>

definition and_then :: "(bool \<times> 'x) option \<Rightarrow> ('x \<Rightarrow> (bool \<times> 'x) option) \<Rightarrow> (bool \<times> 'x) option" where
  "and_then r k = (case r of None \<Rightarrow> None | Some (ok, s) \<Rightarrow> if ok then k s else Some (False, s))"

lemma iter_next_True:
  assumes "pb_field_iter_next it = (True, it')"
  shows "start it' = start it \<and> dest_struct it' = dest_struct it \<and> pos it' = Suc (pos it) \<and>
         pos it' < length (start it)"
  using assms
  by (auto simp: pb_field_iter_next_def Let_def iter_field_def field_at_def PB_LAST_FIELD_def
           split: if_splits)

text \<open>\<open>do { if (!body) return false; } while (pb_field_iter_next(&iter));\<close>\<close>

function iter_loop ::
    "(pb_field_iter \<Rightarrow> 'x \<Rightarrow> (bool \<times> 'x) option) \<Rightarrow> pb_field_iter \<Rightarrow> 'x \<Rightarrow> (bool \<times> 'x) option" where
  "iter_loop body it x =
     (case body it x of
        None \<Rightarrow> None
      | Some (ok, x1) \<Rightarrow>
          if \<not> ok then Some (False, x1)
          else if fst (pb_field_iter_next it)
          then iter_loop body (snd (pb_field_iter_next it)) x1
          else Some (True, x1))"
  by pat_completeness auto
termination
proof (relation "measure (\<lambda>(body, it, x). length (start it) - pos it)")
  fix body :: "pb_field_iter \<Rightarrow> 'a \<Rightarrow> (bool \<times> 'a) option" and it :: pb_field_iter and x r ok x1
  assume "fst (pb_field_iter_next it)"
  then obtain it' where "pb_field_iter_next it = (True, it')"
    by (cases "pb_field_iter_next it") simp
  with iter_next_True [OF this]
  show "((body, snd (pb_field_iter_next it), x1), body, it, x)
          \<in> measure (\<lambda>(body, it, x). length (start it) - pos it)"
    by (auto intro: diff_less_mono2)
qed simp

declare iter_loop.simps [simp del]

end
