(* ===== verification/Nanopb_Encode.thy ===== *)
theory Nanopb_Encode
  imports Nanopb_Base
begin

text \<open>
  The encoder of nanopb (\<open>Pods/nanopb/pb_encode.c\<close>). A C function that returns \<open>bool\<close> and works
  on a stream becomes a function to \<open>(bool \<times> stream) option\<close>: the boolean is the return value,
  and \<open>None\<close> stands for undefined behaviour (a call through a null function pointer, a write
  outside the output buffer) or for recursion deeper than the fuel of \<open>pb_encode\<close>. The message
  structure is read from a memory the encoder does not change.
\<close>

section \<open>Output streams\<close>

text \<open>
  \<open>callback\<close> is null for a sizing stream, the module's own \<open>buf_write\<close>, or a user function on
  the user's stream state. A buffer stream's state is the buffer with the write cursor.
\<close>

datatype 's ocallback = ONull | OBufWrite | OUserWrite "'s \<Rightarrow> u8 list \<Rightarrow> bool \<times> 's"

datatype 's ostate = OBuf "u8 list" nat | OUser 's

record 's pb_ostream =
  os_callback :: "'s ocallback"
  os_state :: "'s ostate"
  max_size :: u64
  bytes_written :: u64
  os_errmsg :: "string option"

type_synonym 's oresult = "(bool \<times> 's pb_ostream) option"

text \<open>\<open>PB_RETURN_ERROR\<close>: the first error message stays.\<close>

definition os_error :: "'s pb_ostream \<Rightarrow> string \<Rightarrow> 's oresult" where
  "os_error s msg = Some (False, s\<lparr>os_errmsg :=
     (case os_errmsg s of None \<Rightarrow> Some msg | Some e \<Rightarrow> Some e)\<rparr>)"

definition buf_write :: "'s ostate \<Rightarrow> u8 list \<Rightarrow> (bool \<times> 's ostate) option" where
  "buf_write st bs =
     (case st of
        OBuf buf cur \<Rightarrow>
          if cur + length bs \<le> length buf
          then Some (True, OBuf (take cur buf @ bs @ drop (cur + length bs) buf) (cur + length bs))
          else None
      | OUser _ \<Rightarrow> None)"

definition pb_ostream_from_buffer :: "u8 list \<Rightarrow> u64 \<Rightarrow> 's pb_ostream" where
  "pb_ostream_from_buffer buf bufsize =
     \<lparr>os_callback = OBufWrite, os_state = OBuf buf 0, max_size = bufsize, bytes_written = 0,
      os_errmsg = None\<rparr>"

definition PB_OSTREAM_SIZING :: "'s pb_ostream" where
  "PB_OSTREAM_SIZING =
     \<lparr>os_callback = ONull, os_state = OBuf [] 0, max_size = 0, bytes_written = 0, os_errmsg = None\<rparr>"

definition is_sizing :: "'s pb_ostream \<Rightarrow> bool" where
  "is_sizing s = (case os_callback s of ONull \<Rightarrow> True | _ \<Rightarrow> False)"

definition call_ocallback :: "'s pb_ostream \<Rightarrow> u8 list \<Rightarrow> 's oresult" where
  "call_ocallback s bs =
     (case os_callback s of
        ONull \<Rightarrow> None
      | OBufWrite \<Rightarrow> map_option (\<lambda>(ok, st). (ok, s\<lparr>os_state := st\<rparr>)) (buf_write (os_state s) bs)
      | OUserWrite f \<Rightarrow>
          (case os_state s of
             OUser u \<Rightarrow> (case f u bs of (ok, u') \<Rightarrow> Some (ok, s\<lparr>os_state := OUser u'\<rparr>))
           | OBuf _ _ \<Rightarrow> None))"

text \<open>
  The bytes at \<open>buf\<close> are passed as a list of \<open>count\<close> bytes; \<open>None\<close> is a null \<open>buf\<close>, which only a
  sizing stream may be given.
\<close>

definition pb_write :: "'s pb_ostream \<Rightarrow> u8 list option \<Rightarrow> u64 \<Rightarrow> 's oresult" where
  "pb_write s buf count =
     (if 0 < count \<and> \<not> is_sizing s then
        if bytes_written s + count < bytes_written s \<or> max_size s < bytes_written s + count
        then os_error s ''stream full''
        else (case buf of
                None \<Rightarrow> None
              | Some bs \<Rightarrow>
                  (case call_ocallback s bs of
                     None \<Rightarrow> None
                   | Some (ok, s1) \<Rightarrow>
                       if ok then Some (True, s1\<lparr>bytes_written := bytes_written s1 + count\<rparr>)
                       else os_error s1 ''io error''))
      else Some (True, s\<lparr>bytes_written := bytes_written s + count\<rparr>))"

abbreviation pb_write_list :: "'s pb_ostream \<Rightarrow> u8 list \<Rightarrow> 's oresult" where
  "pb_write_list s bs \<equiv> pb_write s (Some bs) (of_nat (length bs))"

section \<open>Primitive encoders\<close>

text \<open>The bytes \<open>pb_encode_varint\<close> collects in its 10-byte stack buffer.\<close>

function varint_loop :: "u64 \<Rightarrow> u8 list" where
  "varint_loop value =
     (if value = 0 then []
      else (ucast (value AND 0x7F) OR 0x80) # varint_loop (drop_bit 7 value))"
  by pat_completeness auto
termination
proof (relation "measure unat")
  fix v :: u64
  assume "v \<noteq> 0"
  then have "unat v div 2 ^ 7 < unat v"
    by (intro div_less_dividend) (simp_all add: unat_gt_0)
  then show "(drop_bit 7 v, v) \<in> measure unat"
    by (simp add: unat_drop_bit_eq drop_bit_eq_div [of 7 "unat v"])
qed simp

declare varint_loop.simps [simp del]

definition varint_bytes :: "u64 \<Rightarrow> u8 list" where
  "varint_bytes value =
     (if value \<le> 0x7F then [ucast value]
      else let buffer = varint_loop value
           in buffer[length buffer - 1 := (buffer ! (length buffer - 1)) AND 0x7F])"

definition pb_encode_varint :: "'s pb_ostream \<Rightarrow> u64 \<Rightarrow> 's oresult" where
  "pb_encode_varint s value = pb_write_list s (varint_bytes value)"

text \<open>\<open>value\<close> is the bit pattern of an \<open>int64_t\<close>.\<close>

definition zigzag :: "u64 \<Rightarrow> u64" where
  "zigzag value = (if value <s 0 then NOT (push_bit 1 value) else push_bit 1 value)"

definition pb_encode_svarint :: "'s pb_ostream \<Rightarrow> u64 \<Rightarrow> 's oresult" where
  "pb_encode_svarint s value = pb_encode_varint s (zigzag value)"

definition fixed32_bytes :: "u32 \<Rightarrow> u8 list" where
  "fixed32_bytes val =
     [ucast (val AND 0xFF), ucast (drop_bit 8 val AND 0xFF),
      ucast (drop_bit 16 val AND 0xFF), ucast (drop_bit 24 val AND 0xFF)]"

definition pb_encode_fixed32 :: "mem \<Rightarrow> 's pb_ostream \<Rightarrow> u64 \<Rightarrow> 's oresult" where
  "pb_encode_fixed32 m s value = pb_write s (Some (fixed32_bytes (rd32 m value))) 4"

definition fixed64_bytes :: "u64 \<Rightarrow> u8 list" where
  "fixed64_bytes val =
     [ucast (val AND 0xFF), ucast (drop_bit 8 val AND 0xFF),
      ucast (drop_bit 16 val AND 0xFF), ucast (drop_bit 24 val AND 0xFF),
      ucast (drop_bit 32 val AND 0xFF), ucast (drop_bit 40 val AND 0xFF),
      ucast (drop_bit 48 val AND 0xFF), ucast (drop_bit 56 val AND 0xFF)]"

definition pb_encode_fixed64 :: "mem \<Rightarrow> 's pb_ostream \<Rightarrow> u64 \<Rightarrow> 's oresult" where
  "pb_encode_fixed64 m s value = pb_write s (Some (fixed64_bytes (rd64 m value))) 8"

definition pb_encode_tag :: "'s pb_ostream \<Rightarrow> u32 \<Rightarrow> u32 \<Rightarrow> 's oresult" where
  "pb_encode_tag s wiretype field_number =
     pb_encode_varint s (push_bit 3 (ucast field_number) OR ucast wiretype)"

definition wire_type_of :: "u8 \<Rightarrow> u32 option" where
  "wire_type_of lt =
     (if lt \<in> {PB_LTYPE_BOOL, PB_LTYPE_VARINT, PB_LTYPE_UVARINT, PB_LTYPE_SVARINT} then Some PB_WT_VARINT
      else if lt = PB_LTYPE_FIXED32 then Some PB_WT_32BIT
      else if lt = PB_LTYPE_FIXED64 then Some PB_WT_64BIT
      else if lt \<in> {PB_LTYPE_BYTES, PB_LTYPE_STRING, PB_LTYPE_SUBMESSAGE, PB_LTYPE_FIXED_LENGTH_BYTES}
        then Some PB_WT_STRING
      else None)"

definition pb_encode_tag_for_field :: "'s pb_ostream \<Rightarrow> pb_field \<Rightarrow> 's oresult" where
  "pb_encode_tag_for_field s field =
     (case wire_type_of (PB_LTYPE (ftype field)) of
        None \<Rightarrow> os_error s ''invalid field type''
      | Some wt \<Rightarrow> pb_encode_tag s wt (tag field))"

text \<open>A null \<open>buffer\<close> comes with \<open>size = 0\<close>, for which nothing is written.\<close>

definition pb_encode_string :: "mem \<Rightarrow> 's pb_ostream \<Rightarrow> u64 \<Rightarrow> u64 \<Rightarrow> 's oresult" where
  "pb_encode_string m s buffer sz =
     and_then (pb_encode_varint s sz)
       (\<lambda>s1. pb_write s1 (Some (rd_bytes m buffer (unat sz))) sz)"

section \<open>Field encoders\<close>

definition safe_read_bool :: "mem \<Rightarrow> u64 \<Rightarrow> bool" where
  "safe_read_bool m p = (rd8 m p \<noteq> 0)"

definition pb_enc_bool :: "mem \<Rightarrow> 's pb_ostream \<Rightarrow> pb_field \<Rightarrow> u64 \<Rightarrow> 's oresult" where
  "pb_enc_bool m s field src = pb_encode_varint s (if safe_read_bool m src then 1 else 0)"

text \<open>The value at \<open>src\<close>, read at the field's width and widened to 64 bits.\<close>

definition read_signed :: "mem \<Rightarrow> u32 \<Rightarrow> u64 \<Rightarrow> u64 option" where
  "read_signed m sz src =
     (if sz = 1 then Some (scast (rd8 m src))
      else if sz = 2 then Some (scast (rd16 m src))
      else if sz = 4 then Some (scast (rd32 m src))
      else if sz = 8 then Some (rd64 m src)
      else None)"

definition read_unsigned :: "mem \<Rightarrow> u32 \<Rightarrow> u64 \<Rightarrow> u64 option" where
  "read_unsigned m sz src =
     (if sz = 1 then Some (ucast (rd8 m src))
      else if sz = 2 then Some (ucast (rd16 m src))
      else if sz = 4 then Some (ucast (rd32 m src))
      else if sz = 8 then Some (rd64 m src)
      else None)"

definition pb_enc_varint :: "mem \<Rightarrow> 's pb_ostream \<Rightarrow> pb_field \<Rightarrow> u64 \<Rightarrow> 's oresult" where
  "pb_enc_varint m s field src =
     (case read_signed m (data_size field) src of
        None \<Rightarrow> os_error s ''invalid data_size''
      | Some value \<Rightarrow> pb_encode_varint s value)"

definition pb_enc_uvarint :: "mem \<Rightarrow> 's pb_ostream \<Rightarrow> pb_field \<Rightarrow> u64 \<Rightarrow> 's oresult" where
  "pb_enc_uvarint m s field src =
     (case read_unsigned m (data_size field) src of
        None \<Rightarrow> os_error s ''invalid data_size''
      | Some value \<Rightarrow> pb_encode_varint s value)"

definition pb_enc_svarint :: "mem \<Rightarrow> 's pb_ostream \<Rightarrow> pb_field \<Rightarrow> u64 \<Rightarrow> 's oresult" where
  "pb_enc_svarint m s field src =
     (case read_signed m (data_size field) src of
        None \<Rightarrow> os_error s ''invalid data_size''
      | Some value \<Rightarrow> pb_encode_svarint s value)"

definition pb_enc_fixed64 :: "mem \<Rightarrow> 's pb_ostream \<Rightarrow> pb_field \<Rightarrow> u64 \<Rightarrow> 's oresult" where
  "pb_enc_fixed64 m s field src = pb_encode_fixed64 m s src"

definition pb_enc_fixed32 :: "mem \<Rightarrow> 's pb_ostream \<Rightarrow> pb_field \<Rightarrow> u64 \<Rightarrow> 's oresult" where
  "pb_enc_fixed32 m s field src = pb_encode_fixed32 m s src"

definition pb_enc_bytes :: "mem \<Rightarrow> 's pb_ostream \<Rightarrow> pb_field \<Rightarrow> u64 \<Rightarrow> 's oresult" where
  "pb_enc_bytes m s field src =
     (if src = 0 then pb_encode_string m s 0 0
      else
        let n = bytes_array_size m src; allocsize = PB_BYTES_ARRAY_T_ALLOCSIZE n in
        if allocsize < ucast n \<or>
           (PB_ATYPE (ftype field) = PB_ATYPE_STATIC \<and> ucast (data_size field) < allocsize)
        then os_error s ''bytes size exceeded''
        else pb_encode_string m s (bytes_array_bytes src) (ucast n))"

text \<open>The \<open>strnlen\<close> loop: the length of the string at \<open>p\<close>, at most \<open>n\<close>.\<close>

primrec str_len :: "mem \<Rightarrow> u64 \<Rightarrow> nat \<Rightarrow> nat" where
  "str_len m p 0 = 0"
| "str_len m p (Suc n) = (if rd8 m p \<noteq> 0 then Suc (str_len m (p + 1) n) else 0)"

definition pb_enc_string :: "mem \<Rightarrow> 's pb_ostream \<Rightarrow> pb_field \<Rightarrow> u64 \<Rightarrow> 's oresult" where
  "pb_enc_string m s field src =
     (let mx = (if PB_ATYPE (ftype field) = PB_ATYPE_POINTER then - 1 else ucast (data_size field) :: u64);
          sz = (if src = 0 then 0 else of_nat (str_len m src (unat mx)))
      in pb_encode_string m s src sz)"

definition pb_enc_fixed_length_bytes :: "mem \<Rightarrow> 's pb_ostream \<Rightarrow> pb_field \<Rightarrow> u64 \<Rightarrow> 's oresult" where
  "pb_enc_fixed_length_bytes m s field src = pb_encode_string m s src (ucast (data_size field))"

section \<open>Messages\<close>

text \<open>
  The functions below call each other through \<open>pb_encode\<close>; each takes the recursive call as the
  argument \<open>rec\<close> and \<open>pb_encode\<close> ties the knot with a fuel that bounds the nesting of
  submessages (the depth of the C stack) and the length of an extension list.
  User functions reached through function pointers are the fields of \<open>enc_env\<close>.
\<close>

record 's enc_env =
  descriptors :: "u64 \<Rightarrow> pb_field list"
  enc_callback :: "u64 \<Rightarrow> mem \<Rightarrow> 's pb_ostream \<Rightarrow> pb_field \<Rightarrow> u64 \<Rightarrow> bool \<times> 's pb_ostream"
  ext_encode :: "u64 \<Rightarrow> mem \<Rightarrow> 's pb_ostream \<Rightarrow> u64 \<Rightarrow> bool \<times> 's pb_ostream"

type_synonym 's encoder = "'s pb_ostream \<Rightarrow> pb_field \<Rightarrow> u64 \<Rightarrow> 's oresult"
type_synonym 's msg_encoder = "'s pb_ostream \<Rightarrow> pb_field list \<Rightarrow> u64 \<Rightarrow> 's oresult"

text \<open>The loop \<open>for (i = 0; i < count; i++)\<close> over the items of an array.\<close>

primrec encode_items :: "nat \<Rightarrow> ('s pb_ostream \<Rightarrow> u64 \<Rightarrow> 's oresult) \<Rightarrow> u64 \<Rightarrow> 's pb_ostream \<Rightarrow> u64 \<Rightarrow> 's oresult" where
  "encode_items 0 f step s p = Some (True, s)"
| "encode_items (Suc n) f step s p = and_then (f s p) (\<lambda>s1. encode_items n f step s1 (p + step))"

definition packed_size :: "'s encoder \<Rightarrow> pb_field \<Rightarrow> u64 \<Rightarrow> u64 \<Rightarrow> (bool \<times> u64) option" where
  "packed_size func field p count =
     (if PB_LTYPE (ftype field) = PB_LTYPE_FIXED32 then Some (True, 4 * count)
      else if PB_LTYPE (ftype field) = PB_LTYPE_FIXED64 then Some (True, 8 * count)
      else map_option (\<lambda>(ok, ss). (ok, bytes_written ss))
             (encode_items (unat count) (\<lambda>s q. func s field q) (ucast (data_size field))
                PB_OSTREAM_SIZING p))"

definition encode_array :: "mem \<Rightarrow> 's pb_ostream \<Rightarrow> pb_field \<Rightarrow> u64 \<Rightarrow> u64 \<Rightarrow> 's encoder \<Rightarrow> 's oresult" where
  "encode_array m s field p count func =
     (if count = 0 then Some (True, s)
      else if PB_ATYPE (ftype field) \<noteq> PB_ATYPE_POINTER \<and> ucast (array_size field) < count
      then os_error s ''array max size exceeded''
      else if PB_LTYPE (ftype field) \<le> PB_LTYPE_LAST_PACKABLE
      then and_then (pb_encode_tag s PB_WT_STRING (tag field)) (\<lambda>s1.
             case packed_size func field p count of
               None \<Rightarrow> None
             | Some (ok, sz) \<Rightarrow>
                 if \<not> ok then Some (False, s1)
                 else and_then (pb_encode_varint s1 sz) (\<lambda>s2.
                   if is_sizing s2 then pb_write s2 None sz
                   else encode_items (unat count) (\<lambda>t q. func t field q) (ucast (data_size field)) s2 p))
      else encode_items (unat count)
             (\<lambda>t q. and_then (pb_encode_tag_for_field t field) (\<lambda>t1.
                func t1 field
                  (if PB_ATYPE (ftype field) = PB_ATYPE_POINTER \<and>
                      PB_LTYPE (ftype field) \<in> {PB_LTYPE_STRING, PB_LTYPE_BYTES}
                   then rd64 m q else q)))
             (ucast (data_size field)) s p)"

text \<open>
  \<open>pb_check_proto3_default_value\<close>; \<open>None\<close> when the nesting is deeper than the fuel.
\<close>

primrec pb_check_proto3_default_value ::
    "nat \<Rightarrow> (u64 \<Rightarrow> pb_field list) \<Rightarrow> mem \<Rightarrow> pb_field \<Rightarrow> u64 \<Rightarrow> bool option" where
  "pb_check_proto3_default_value 0 descs m field p = None"
| "pb_check_proto3_default_value (Suc n) descs m field p =
     (let ty = ftype field; psz = p + scast (size_offset field);
          static = (PB_ATYPE ty = PB_ATYPE_STATIC) in
      if PB_HTYPE ty = PB_HTYPE_REQUIRED then Some False
      else if PB_HTYPE ty = PB_HTYPE_REPEATED \<and> size_offset field \<noteq> 0 then Some (rd32 m psz = 0)
      else if PB_HTYPE ty = PB_HTYPE_REPEATED \<and> static then Some False
      else if PB_HTYPE ty = PB_HTYPE_ONEOF then Some (rd32 m psz = 0)
      else if PB_HTYPE ty = PB_HTYPE_OPTIONAL \<and> size_offset field \<noteq> 0
        then Some (\<not> safe_read_bool m psz)
      else if static \<and> PB_LTYPE ty = PB_LTYPE_BYTES then Some (bytes_array_size m p = 0)
      else if static \<and> PB_LTYPE ty = PB_LTYPE_STRING then Some (rd8 m p = 0)
      else if static \<and> PB_LTYPE ty = PB_LTYPE_FIXED_LENGTH_BYTES then Some (data_size field = 0)
      else if static \<and> PB_LTYPE ty = PB_LTYPE_SUBMESSAGE then
        (case pb_field_iter_begin (descs (ptr field)) p of (nonempty, it) \<Rightarrow>
           if nonempty
           then map_option fst (iter_loop
                  (\<lambda>it u. map_option (\<lambda>b. (b, u))
                     (pb_check_proto3_default_value n descs m (iter_field it) (pData it))) it ())
           else Some True)
      else if PB_ATYPE ty = PB_ATYPE_POINTER \<and> PB_LTYPE_LAST_PACKABLE < PB_LTYPE ty
        then Some (rd64 m p = 0)
      else Some (list_all (\<lambda>b. b = 0) (rd_bytes m p (unat (data_size field)))))"

definition pb_encode_submessage :: "'s msg_encoder \<Rightarrow> 's msg_encoder" where
  "pb_encode_submessage rec s fs src =
     (case rec PB_OSTREAM_SIZING fs src of
        None \<Rightarrow> None
      | Some (ok, sub) \<Rightarrow>
          if \<not> ok then Some (False, s\<lparr>os_errmsg := os_errmsg sub\<rparr>)
          else let sz = bytes_written sub in
            and_then (pb_encode_varint s sz) (\<lambda>s1.
              if is_sizing s1 then pb_write s1 None sz
              else if max_size s1 < bytes_written s1 + sz then os_error s1 ''stream full''
              else
                (case rec \<lparr>os_callback = os_callback s1, os_state = os_state s1, max_size = sz,
                           bytes_written = 0, os_errmsg = None\<rparr> fs src of
                   None \<Rightarrow> None
                 | Some (status, sub2) \<Rightarrow>
                     let s2 = s1\<lparr>bytes_written := bytes_written s1 + bytes_written sub2,
                                os_state := os_state sub2, os_errmsg := os_errmsg sub2\<rparr>
                     in if bytes_written sub2 \<noteq> sz then os_error s2 ''submsg size changed''
                        else Some (status, s2))))"

definition pb_enc_submessage :: "'s enc_env \<Rightarrow> 's msg_encoder \<Rightarrow> 's encoder" where
  "pb_enc_submessage env rec s field src =
     (if ptr field = 0 then os_error s ''invalid field descriptor''
      else pb_encode_submessage rec s (descriptors env (ptr field)) src)"

text \<open>The table \<open>PB_ENCODERS\<close>; entry 9 is null and a call through it undefined.\<close>

definition PB_ENCODERS :: "'s enc_env \<Rightarrow> mem \<Rightarrow> 's msg_encoder \<Rightarrow> 's encoder list" where
  "PB_ENCODERS env m rec =
     [pb_enc_bool m, pb_enc_varint m, pb_enc_uvarint m, pb_enc_svarint m,
      pb_enc_fixed32 m, pb_enc_fixed64 m, pb_enc_bytes m, pb_enc_string m,
      pb_enc_submessage env rec, (\<lambda>s field src. None), pb_enc_fixed_length_bytes m]"

definition encode_basic_field :: "nat \<Rightarrow> 's enc_env \<Rightarrow> mem \<Rightarrow> 's msg_encoder \<Rightarrow> 's encoder" where
  "encode_basic_field n env m rec s field p =
     (let ty = ftype field; lt = PB_LTYPE ty in
      if unat lt \<ge> length (PB_ENCODERS env m rec) then None
      else
      let func = PB_ENCODERS env m rec ! unat lt;
          explicit = (size_offset field \<noteq> 0);
          psz = p + scast (size_offset field);
          implicit_has = (if explicit \<or> PB_HTYPE ty \<noteq> PB_HTYPE_OPTIONAL then Some True
            else map_option Not (pb_check_proto3_default_value n (descriptors env) m field p)) in
      case implicit_has of
        None \<Rightarrow> None
      | Some has0 \<Rightarrow>
        let p1 = (if PB_ATYPE ty = PB_ATYPE_POINTER then rd64 m p else p);
            has = (if PB_ATYPE ty = PB_ATYPE_POINTER then p1 \<noteq> 0 else has0);
            emit = (\<lambda>t. and_then (pb_encode_tag_for_field t field) (\<lambda>t1. func t1 field p1)) in
        if PB_HTYPE ty = PB_HTYPE_REQUIRED then
          (if p1 = 0 then os_error s ''missing required field'' else emit s)
        else if PB_HTYPE ty = PB_HTYPE_OPTIONAL then
          (if (if explicit then safe_read_bool m psz else has) then emit s else Some (True, s))
        else if PB_HTYPE ty = PB_HTYPE_REPEATED then
          encode_array m s field p1 (ucast (if explicit then rd32 m psz else array_size field)) func
        else if \<not> explicit then None
        else if rd32 m psz = tag field then emit s else Some (True, s))"

definition encode_callback_field :: "'s enc_env \<Rightarrow> mem \<Rightarrow> 's encoder" where
  "encode_callback_field env m s field p =
     (if callback_func m p \<noteq> 0 then
        (case enc_callback env (callback_func m p) m s field (callback_arg_addr p) of (ok, s1) \<Rightarrow>
           if ok then Some (True, s1) else os_error s1 ''callback error'')
      else Some (True, s))"

definition encode_field :: "nat \<Rightarrow> 's enc_env \<Rightarrow> mem \<Rightarrow> 's msg_encoder \<Rightarrow> 's encoder" where
  "encode_field n env m rec s field p =
     (let at = PB_ATYPE (ftype field) in
      if at = PB_ATYPE_STATIC \<or> at = PB_ATYPE_POINTER then encode_basic_field n env m rec s field p
      else if at = PB_ATYPE_CALLBACK then encode_callback_field env m s field p
      else os_error s ''invalid field type'')"

definition default_extension_encoder ::
    "nat \<Rightarrow> 's enc_env \<Rightarrow> mem \<Rightarrow> 's msg_encoder \<Rightarrow> 's pb_ostream \<Rightarrow> u64 \<Rightarrow> 's oresult" where
  "default_extension_encoder n env m rec s ext =
     (let field = field_at (descriptors env (extension_type_arg m (extension_type m ext))) 0 in
      if PB_ATYPE (ftype field) = PB_ATYPE_POINTER
      then encode_field n env m rec s field (extension_dest_addr ext)
      else encode_field n env m rec s field (rd64 m (extension_dest_addr ext)))"

primrec extension_loop ::
    "nat \<Rightarrow> nat \<Rightarrow> 's enc_env \<Rightarrow> mem \<Rightarrow> 's msg_encoder \<Rightarrow> 's pb_ostream \<Rightarrow> u64 \<Rightarrow> 's oresult" where
  "extension_loop 0 n env m rec s ext = (if ext = 0 then Some (True, s) else None)"
| "extension_loop (Suc k) n env m rec s ext =
     (if ext = 0 then Some (True, s)
      else let enc = extension_type_encode m (extension_type m ext) in
        and_then (if enc \<noteq> 0 then Some (ext_encode env enc m s ext)
                  else default_extension_encoder n env m rec s ext)
          (\<lambda>s1. extension_loop k n env m rec s1 (extension_next m ext)))"

definition encode_extension_field :: "nat \<Rightarrow> 's enc_env \<Rightarrow> mem \<Rightarrow> 's msg_encoder \<Rightarrow> 's encoder" where
  "encode_extension_field n env m rec s field p = extension_loop n n env m rec s (rd64 m p)"

primrec pb_encode :: "nat \<Rightarrow> 's enc_env \<Rightarrow> mem \<Rightarrow> 's msg_encoder" where
  "pb_encode 0 env m s fs src = None"
| "pb_encode (Suc n) env m s fs src =
     (case pb_field_iter_begin fs src of (nonempty, it) \<Rightarrow>
        if \<not> nonempty then Some (True, s)
        else iter_loop
          (\<lambda>it t. if PB_LTYPE (ftype (iter_field it)) = PB_LTYPE_EXTENSION
                  then encode_extension_field n env m (pb_encode n env m) t (iter_field it) (pData it)
                  else encode_field n env m (pb_encode n env m) t (iter_field it) (pData it)) it s)"

definition pb_encode_delimited :: "nat \<Rightarrow> 's enc_env \<Rightarrow> mem \<Rightarrow> 's msg_encoder" where
  "pb_encode_delimited n env m s fs src = pb_encode_submessage (pb_encode n env m) s fs src"

definition pb_encode_nullterminated :: "nat \<Rightarrow> 's enc_env \<Rightarrow> mem \<Rightarrow> 's msg_encoder" where
  "pb_encode_nullterminated n env m s fs src =
     and_then (pb_encode n env m s fs src) (\<lambda>s1. pb_write s1 (Some [0]) 1)"

text \<open>\<open>Some None\<close> is the return value \<open>false\<close>.\<close>

definition pb_get_encoded_size ::
    "nat \<Rightarrow> 's enc_env \<Rightarrow> mem \<Rightarrow> pb_field list \<Rightarrow> u64 \<Rightarrow> u64 option option" where
  "pb_get_encoded_size n env m fs src =
     map_option (\<lambda>(ok, s). if ok then Some (bytes_written s) else None)
       (pb_encode n env m PB_OSTREAM_SIZING fs src)"

end
