(* ===== verification/Nanopb_Encode_Props.thy ===== *)
theory Nanopb_Encode_Props
  imports Nanopb_Encode
begin

text \<open>
  What the encoder guarantees: the shape, length and value of varints; the relation \<open>emits f B\<close>,
  which says that \<open>f\<close> only counts the bytes \<open>B\<close> on a sizing stream, appends exactly \<open>B\<close> to a
  buffer with room and fails without leaving the buffer when there is none; and the closure of that
  relation under every construct of the encoder, up to \<open>pb_encode\<close>.
\<close>

section \<open>Varints\<close>

text \<open>The number a base-128 byte string stands for, the continuation bits ignored.\<close>

primrec leb128 :: "u8 list \<Rightarrow> nat" where
  "leb128 [] = 0"
| "leb128 (b # bs) = unat b mod 128 + 128 * leb128 bs"

lemma unat_varint_cont: "unat (ucast ((v :: u64) AND 0x7F) OR 0x80 :: u8) = unat v mod 128 + 128"
proof -
  have "unat (ucast (v AND 0x7F) :: u8) = unat v mod 128"
    by (simp add: unat_ucast_mod unat_and_7F)
  moreover from this have "(ucast (v AND 0x7F) :: u8) < 0x80"
    by (simp add: word_less_nat_alt)
  ultimately show ?thesis by (simp add: byte_or_80)
qed

lemma varint_bytes_small: "v \<le> 0x7F \<Longrightarrow> varint_bytes v = [ucast v]"
  by (simp add: varint_bytes_def)

lemma varint_loop_step: "v \<noteq> 0 \<Longrightarrow> varint_loop v = (ucast (v AND 0x7F) OR 0x80) # varint_loop (drop_bit 7 v)"
  by (subst varint_loop.simps) simp
lemma varint_loop_0 [simp]: "varint_loop 0 = []"
  by (subst varint_loop.simps) simp

lemma drop7_nz: "\<not> v \<le> 0x7F \<Longrightarrow> drop_bit 7 (v :: u64) \<noteq> 0"
proof -
  assume "\<not> v \<le> 0x7F"
  then have "unat (drop_bit 7 v) \<noteq> 0"
    by (simp add: unat_drop_bit word_le_nat_alt div_eq_0_iff)
  then show ?thesis by auto
qed

lemma last_byte: "w \<le> 0x7F \<Longrightarrow> (ucast ((w :: u64) AND 0x7F) OR 0x80) AND 0x7F = (ucast w :: u8)"
  by (rule unsigned_word_eqI [where 'a = nat])
     (simp only: unat_and_7F unat_varint_cont, simp add: unat_ucast_mod word_le_nat_alt)

lemma varint_bytes_step:
  assumes "\<not> v \<le> 0x7F"
  shows "varint_bytes v = (ucast (v AND 0x7F) OR 0x80) # varint_bytes (drop_bit 7 v)"
proof -
  let ?w = "drop_bit 7 v"
  have v0: "v \<noteq> 0" using assms by auto
  have w0: "?w \<noteq> 0" using assms by (rule drop7_nz)
  have v: "varint_loop v = (ucast (v AND 0x7F) OR 0x80) # varint_loop ?w"
    using v0 by (rule varint_loop_step)
  have w: "varint_loop ?w = (ucast (?w AND 0x7F) OR 0x80) # varint_loop (drop_bit 7 ?w)"
    using w0 by (rule varint_loop_step)
  show ?thesis
  proof (cases "?w \<le> 0x7F")
    case True
    then have "drop_bit 7 ?w = 0"
      by (intro unsigned_word_eqI [where 'a = nat]) (simp add: unat_drop_bit word_le_nat_alt del: drop_bit_drop_bit)
    with v w assms True show ?thesis
      by (simp add: varint_bytes_def last_byte del: drop_bit_drop_bit)
  next
    case False
    with v w assms show ?thesis
      by (simp add: varint_bytes_def Let_def del: drop_bit_drop_bit)
  qed
qed

lemma varint_bytes_induct [case_names small step]:
  assumes "\<And>v. v \<le> 0x7F \<Longrightarrow> P v"
    and "\<And>v. \<not> v \<le> 0x7F \<Longrightarrow> P (drop_bit 7 v) \<Longrightarrow> P v"
  shows "P (v :: u64)"
proof (induction "unat v" arbitrary: v rule: less_induct)
  case less
  show ?case
  proof (cases "v \<le> 0x7F")
    case False
    then have "unat (drop_bit 7 v) < unat v"
      by (simp add: unat_drop_bit word_le_nat_alt)
    with False less assms(2) show ?thesis by blast
  qed (rule assms(1))
qed

lemma leb128_varint_bytes: "leb128 (varint_bytes v) = unat v"
proof (induction v rule: varint_bytes_induct)
  case (small v)
  then show ?case by (simp add: varint_bytes_small unat_ucast_mod word_le_nat_alt)
next
  case (step v)
  then show ?case by (simp add: varint_bytes_step unat_varint_cont unat_drop_bit)
qed

lemma length_varint_bytes:
  "unat v < 128 ^ k \<Longrightarrow> 0 < k \<Longrightarrow> 1 \<le> length (varint_bytes v) \<and> length (varint_bytes v) \<le> k"
proof (induction v arbitrary: k rule: varint_bytes_induct)
  case (small v)
  then show ?case by (simp add: varint_bytes_small)
next
  case (step v)
  then obtain j where k: "k = Suc j" by (cases k) auto
  have "j \<noteq> 0" using step.hyps step.prems k by (auto simp: word_le_nat_alt intro: ccontr)
  moreover have "unat (drop_bit 7 v) < 128 ^ j"
    using step.prems k by (simp add: unat_drop_bit less_mult_imp_div_less mult.commute)
  ultimately show ?case using step.IH [of j] step.hyps k by (simp add: varint_bytes_step)
qed

text \<open>Every byte but the last has the continuation bit, the last has not.\<close>

lemma varint_bytes_shape:
  "varint_bytes v \<noteq> [] \<and> unat (last (varint_bytes v)) < 128 \<and>
   list_all (\<lambda>b. 128 \<le> unat b) (butlast (varint_bytes v))"
proof (induction v rule: varint_bytes_induct)
  case (small v)
  then show ?case by (simp add: varint_bytes_small unat_ucast_mod word_le_nat_alt)
next
  case (step v)
  then show ?case by (simp add: varint_bytes_step unat_varint_cont)
qed

section \<open>Encoders that emit a fixed byte string\<close>

text \<open>A buffer stream without an error, whose remaining size fits in the buffer.\<close>

definition obuf_ok :: "'s pb_ostream \<Rightarrow> u8 list \<Rightarrow> nat \<Rightarrow> bool" where
  "obuf_ok s buf cur \<longleftrightarrow>
     os_callback s = OBufWrite \<and> os_state s = OBuf buf cur \<and> os_errmsg s = None \<and>
     unat (bytes_written s) \<le> unat (max_size s) \<and>
     cur + (unat (max_size s) - unat (bytes_written s)) \<le> length buf"

definition room :: "'s pb_ostream \<Rightarrow> nat" where
  "room s = unat (max_size s) - unat (bytes_written s)"

definition splice :: "u8 list \<Rightarrow> nat \<Rightarrow> u8 list \<Rightarrow> u8 list" where
  "splice buf cur B = take cur buf @ B @ drop (cur + length B) buf"

definition counted :: "'s pb_ostream \<Rightarrow> u8 list \<Rightarrow> 's pb_ostream" where
  "counted s B = s\<lparr>bytes_written := bytes_written s + of_nat (length B)\<rparr>"

definition emitted :: "'s pb_ostream \<Rightarrow> u8 list \<Rightarrow> nat \<Rightarrow> u8 list \<Rightarrow> 's pb_ostream" where
  "emitted s buf cur B = (counted s B)\<lparr>os_state := OBuf (splice buf cur B) (cur + length B)\<rparr>"

text \<open>The buffer of \<open>s'\<close> differs from \<open>buf\<close> only in the room the stream \<open>s\<close> had at \<open>cur\<close>.\<close>

definition within_room :: "'s pb_ostream \<Rightarrow> u8 list \<Rightarrow> nat \<Rightarrow> 's pb_ostream \<Rightarrow> bool" where
  "within_room s buf cur s' \<longleftrightarrow>
     (\<exists>buf' cur'. os_state s' = OBuf buf' cur' \<and> length buf' = length buf \<and>
        take cur buf' = take cur buf \<and> cur' \<le> cur + room s \<and>
        drop (cur + room s) buf' = drop (cur + room s) buf)"

definition emits :: "('s pb_ostream \<Rightarrow> 's oresult) \<Rightarrow> u8 list \<Rightarrow> bool" where
  "emits f B \<longleftrightarrow>
     (\<forall>s. is_sizing s \<longrightarrow> f s = Some (True, counted s B)) \<and>
     (\<forall>s buf cur. obuf_ok s buf cur \<longrightarrow> length B \<le> room s \<longrightarrow> f s = Some (True, emitted s buf cur B)) \<and>
     (\<forall>s buf cur. obuf_ok s buf cur \<longrightarrow> length B < 2 ^ 63 \<longrightarrow> unat (max_size s) < 2 ^ 63 \<longrightarrow>
        room s < length B \<longrightarrow> (\<exists>s'. f s = Some (False, s') \<and> within_room s buf cur s'))"

lemma emits_sizing: "emits f B \<Longrightarrow> is_sizing s \<Longrightarrow> f s = Some (True, counted s B)"
  unfolding emits_def by blast

lemma emits_room:
  "emits f B \<Longrightarrow> obuf_ok s buf cur \<Longrightarrow> length B \<le> room s \<Longrightarrow> f s = Some (True, emitted s buf cur B)"
  unfolding emits_def by blast

lemma emits_fail:
  "emits f B \<Longrightarrow> obuf_ok s buf cur \<Longrightarrow> length B < 2 ^ 63 \<Longrightarrow> unat (max_size s) < 2 ^ 63 \<Longrightarrow>
   room s < length B \<Longrightarrow> \<exists>s'. f s = Some (False, s') \<and> within_room s buf cur s'"
  unfolding emits_def by blast

lemma length_splice: "cur + length B \<le> length buf \<Longrightarrow> length (splice buf cur B) = length buf"
  by (simp add: splice_def)

lemma splice_Nil [simp]: "splice buf cur [] = buf"
  by (simp add: splice_def)

lemma splice_splice:
  "cur + length A \<le> length buf \<Longrightarrow>
   splice (splice buf cur A) (cur + length A) B = splice buf cur (A @ B)"
  by (auto simp: splice_def ac_simps)

lemma take_splice: "cur \<le> length buf \<Longrightarrow> take cur (splice buf cur B) = take cur buf"
  by (simp add: splice_def)

lemma drop_splice: "cur + length B \<le> n \<Longrightarrow> n \<le> length buf \<Longrightarrow> drop n (splice buf cur B) = drop n buf"
  by (auto simp: splice_def)

lemma room_bound: "room s < 2 ^ 64"
proof -
  have "room s \<le> unat (max_size s)" by (simp add: room_def)
  also have "\<dots> < 2 ^ 64" by simp
  finally show ?thesis .
qed

lemma obuf_ok_room: "obuf_ok s buf cur \<Longrightarrow> cur + room s \<le> length buf"
  unfolding obuf_ok_def room_def by blast

lemma unat_bytes_counted:
  assumes "obuf_ok s buf cur" and "length B \<le> room s"
  shows "unat (bytes_written s + of_nat (length B)) = unat (bytes_written s) + length B"
proof -
  have l: "unat (bytes_written s) + length B \<le> unat (max_size s)"
    using assms by (auto simp: obuf_ok_def room_def)
  have m: "unat (max_size s) < 18446744073709551616" by simp
  from l m have lt: "length B < 18446744073709551616"
      "unat (bytes_written s) + length B < 18446744073709551616" by linarith+
  then have "unat (of_nat (length B) :: u64) = length B"
    by (intro unat_of_nat_u64) simp
  with lt show ?thesis by (subst unat_add_u64) simp_all
qed

lemma emitted_room:
  assumes "obuf_ok s buf cur" and "length B \<le> room s"
  shows "room (emitted s buf cur B) = room s - length B"
  using unat_bytes_counted [OF assms] by (simp add: room_def emitted_def counted_def)

lemma emitted_ok:
  assumes ok: "obuf_ok s buf cur" and le: "length B \<le> room s"
  shows "obuf_ok (emitted s buf cur B) (splice buf cur B) (cur + length B)"
proof -
  have "length (splice buf cur B) = length buf"
    using obuf_ok_room [OF ok] le by (intro length_splice) simp
  with unat_bytes_counted [OF ok le] ok le show ?thesis
    by (auto simp: obuf_ok_def emitted_def counted_def room_def)
qed

lemma is_sizing_counted [simp]: "is_sizing (counted s B) = is_sizing s"
  by (simp add: is_sizing_def counted_def)

lemma counted_append: "counted (counted s A) B = counted s (A @ B)"
  by (simp add: counted_def add.assoc)

lemma emitted_append:
  assumes "obuf_ok s buf cur" and "length A \<le> room s"
  shows "emitted (emitted s buf cur A) (splice buf cur A) (cur + length A) B = emitted s buf cur (A @ B)"
  using obuf_ok_room [OF assms(1)] assms(2)
  by (simp add: emitted_def counted_def splice_splice add.assoc)

lemma within_room_self: "obuf_ok s buf cur \<Longrightarrow> os_state s' = os_state s \<Longrightarrow> within_room s buf cur s'"
  by (simp add: within_room_def obuf_ok_def)

lemma within_room_after:
  assumes ok: "obuf_ok s buf cur" and le: "length A \<le> room s"
    and w: "within_room (emitted s buf cur A) (splice buf cur A) (cur + length A) s'"
  shows "within_room s buf cur s'"
proof -
  have r: "cur + room s \<le> length buf" using ok by (rule obuf_ok_room)
  have e: "cur + length A + (room s - length A) = cur + room s" using le by simp
  obtain buf' cur' where b: "os_state s' = OBuf buf' cur'" "length buf' = length (splice buf cur A)"
      "take (cur + length A) buf' = take (cur + length A) (splice buf cur A)"
      "cur' \<le> cur + room s" "drop (cur + room s) buf' = drop (cur + room s) (splice buf cur A)"
    using w unfolding within_room_def emitted_room [OF ok le] e by blast
  have "take cur buf' = take cur (take (cur + length A) buf')" by simp
  also have "\<dots> = take cur (splice buf cur A)" unfolding b(3) by simp
  also have "\<dots> = take cur buf" using r by (intro take_splice) simp
  finally have "take cur buf' = take cur buf" .
  moreover have "length buf' = length buf"
    using b(2) r le by (simp add: length_splice)
  moreover have "drop (cur + room s) buf' = drop (cur + room s) buf"
    unfolding b(5) using r le by (intro drop_splice) simp_all
  ultimately show ?thesis using b(1,4) by (auto simp: within_room_def)
qed

lemma emits_ok: "emits (\<lambda>s. Some (True, s)) []"
  by (auto simp: emits_def counted_def emitted_def obuf_ok_def)

lemma emits_seq:
  assumes f: "emits f A" and g: "emits g B"
  shows "emits (\<lambda>s. and_then (f s) g) (A @ B)"
  unfolding emits_def
proof (intro conjI allI impI)
  fix s :: "'a pb_ostream"
  assume "is_sizing s"
  with f g show "and_then (f s) g = Some (True, counted s (A @ B))"
    by (simp add: emits_sizing and_then_def counted_append)
next
  fix s :: "'a pb_ostream" and buf cur
  assume ok: "obuf_ok s buf cur" and le: "length (A @ B) \<le> room s"
  then have a: "length A \<le> room s" and b: "length B \<le> room (emitted s buf cur A)"
    by (simp_all add: emitted_room)
  from f ok a have "f s = Some (True, emitted s buf cur A)" by (rule emits_room)
  moreover from emits_room [OF g emitted_ok [OF ok a] b]
  have "g (emitted s buf cur A) = Some (True, emitted s buf cur (A @ B))"
    by (simp add: emitted_append [OF ok a])
  ultimately show "and_then (f s) g = Some (True, emitted s buf cur (A @ B))"
    by (simp add: and_then_def)
next
  fix s :: "'a pb_ostream" and buf cur
  assume ok: "obuf_ok s buf cur" and l: "length (A @ B) < 2 ^ 63"
    and m: "unat (max_size s) < 2 ^ 63" and r: "room s < length (A @ B)"
  show "\<exists>s'. and_then (f s) g = Some (False, s') \<and> within_room s buf cur s'"
  proof (cases "length A \<le> room s")
    case False
    moreover have "length A < 2 ^ 63" using l by simp
    ultimately obtain s' where "f s = Some (False, s')" "within_room s buf cur s'"
      using emits_fail [OF f ok] m by auto
    then show ?thesis by (simp add: and_then_def)
  next
    case True
    let ?e = "emitted s buf cur A"
    have "max_size ?e = max_size s" by (simp add: emitted_def counted_def)
    have "length B < 2 ^ 63" using l by simp
    moreover have "room ?e < length B" using r True emitted_room [OF ok True] by simp
    ultimately obtain s' where
      "g ?e = Some (False, s')" "within_room ?e (splice buf cur A) (cur + length A) s'"
      using emits_fail [OF g emitted_ok [OF ok True]] m \<open>max_size ?e = max_size s\<close> by auto
    moreover from f ok True have "f s = Some (True, ?e)" by (rule emits_room)
    ultimately show ?thesis
      by (auto simp: and_then_def intro: within_room_after [OF ok True])
  qed
qed

lemma os_error_state: "\<exists>s'. os_error s msg = Some (False, s') \<and> os_state s' = os_state s"
  by (simp add: os_error_def)

lemma error_within_room:
  "obuf_ok s buf cur \<Longrightarrow> r = os_error s msg \<Longrightarrow> \<exists>s'. r = Some (False, s') \<and> within_room s buf cur s'"
  using os_error_state [of s msg] by (auto intro: within_room_self)

lemma emits_write: "emits (\<lambda>s. pb_write s (Some bs) (of_nat (length bs))) bs"
  unfolding emits_def
proof (intro conjI allI impI)
  fix s :: "'a pb_ostream"
  assume "is_sizing s"
  then show "pb_write s (Some bs) (of_nat (length bs)) = Some (True, counted s bs)"
    by (simp add: pb_write_def counted_def)
next
  fix s :: "'a pb_ostream" and buf cur
  assume ok: "obuf_ok s buf cur" and le: "length bs \<le> room s"
  have lt: "length bs < 2 ^ 64" using le room_bound [of s] by simp
  have ns: "\<not> is_sizing s" using ok by (simp add: obuf_ok_def is_sizing_def)
  have u: "unat (bytes_written s + of_nat (length bs)) = unat (bytes_written s) + length bs"
    by (rule unat_bytes_counted [OF ok le])
  have nf: "\<not> bytes_written s + of_nat (length bs) < bytes_written s"
      "\<not> max_size s < bytes_written s + of_nat (length bs)"
    using ok le u by (auto simp: word_less_nat_alt obuf_ok_def room_def)
  show "pb_write s (Some bs) (of_nat (length bs)) = Some (True, emitted s buf cur bs)"
  proof (cases "bs = []")
    case True
    then show ?thesis using ok by (simp add: pb_write_def emitted_def counted_def obuf_ok_def)
  next
    case False
    then have "(0 :: u64) < of_nat (length bs)"
      using lt by (simp add: word_less_nat_alt unat_of_nat_u64)
    moreover have "call_ocallback s bs =
        Some (True, s\<lparr>os_state := OBuf (splice buf cur bs) (cur + length bs)\<rparr>)"
      using ok le by (simp add: call_ocallback_def buf_write_def obuf_ok_def room_def splice_def)
    ultimately show ?thesis using ns nf
      by (simp add: pb_write_def emitted_def counted_def)
  qed
next
  fix s :: "'a pb_ostream" and buf cur
  assume ok: "obuf_ok s buf cur" and l: "length bs < 2 ^ 63"
    and m: "unat (max_size s) < 2 ^ 63" and r: "room s < length bs"
  have ns: "\<not> is_sizing s" using ok by (simp add: obuf_ok_def is_sizing_def)
  have c: "unat (of_nat (length bs) :: u64) = length bs" using l by (intro unat_of_nat_u64) simp
  have b: "unat (bytes_written s) \<le> unat (max_size s)" using ok by (simp add: obuf_ok_def)
  have "unat (bytes_written s + of_nat (length bs)) = unat (bytes_written s) + length bs"
    using l m b c by (subst unat_add_u64) simp_all
  then have "max_size s < bytes_written s + of_nat (length bs)"
    using r b by (simp add: word_less_nat_alt room_def)
  moreover have "(0 :: u64) < of_nat (length bs)"
    using r c by (auto simp: word_less_nat_alt)
  ultimately have "pb_write s (Some bs) (of_nat (length bs)) = os_error s ''stream full''"
    using ns by (simp add: pb_write_def)
  then show "\<exists>s'. pb_write s (Some bs) (of_nat (length bs)) = Some (False, s') \<and> within_room s buf cur s'"
    by (rule error_within_room [OF ok])
qed

lemma emits_write_count: "unat c = length bs \<Longrightarrow> emits (\<lambda>s. pb_write s (Some bs) c) bs"
proof -
  assume "unat c = length bs"
  then have "of_nat (length bs) = of_nat (unat c)" by simp
  also have "\<dots> = c" by simp
  finally show ?thesis using emits_write [of bs] by simp
qed

text \<open>A construct that hands a sizing stream only the byte count.\<close>

lemma emits_if_sizing:
  "emits f B \<Longrightarrow> emits (\<lambda>s. if is_sizing s then pb_write s None (of_nat (length B)) else f s) B"
  unfolding emits_def
  by (auto simp: pb_write_def counted_def is_sizing_def obuf_ok_def)

lemma emits_varint: "emits (\<lambda>s. pb_encode_varint s v) (varint_bytes v)"
  unfolding pb_encode_varint_def by (rule emits_write)

lemma emits_svarint: "emits (\<lambda>s. pb_encode_svarint s v) (varint_bytes (zigzag v))"
  unfolding pb_encode_svarint_def by (rule emits_varint)

lemma emits_tag: "emits (\<lambda>s. pb_encode_tag s wt t) (varint_bytes (push_bit 3 (ucast t) OR ucast wt))"
  unfolding pb_encode_tag_def by (rule emits_varint)

lemma emits_string:
  "emits (\<lambda>s. pb_encode_string m s p n) (varint_bytes n @ rd_bytes m p (unat n))"
  unfolding pb_encode_string_def
  by (intro emits_seq emits_varint emits_write_count) simp

lemma emits_fixed32: "emits (\<lambda>s. pb_encode_fixed32 m s p) (fixed32_bytes (rd32 m p))"
  unfolding pb_encode_fixed32_def by (rule emits_write_count) (simp add: fixed32_bytes_def)

lemma emits_fixed64: "emits (\<lambda>s. pb_encode_fixed64 m s p) (fixed64_bytes (rd64 m p))"
  unfolding pb_encode_fixed64_def by (rule emits_write_count) (simp add: fixed64_bytes_def)

section \<open>Encoders whose sizing pass decides\<close>

text \<open>
  \<open>lawful f\<close>: if \<open>f\<close> succeeds on a sizing stream, it emits one fixed byte string.
\<close>

definition lawful :: "('s pb_ostream \<Rightarrow> 's oresult) \<Rightarrow> bool" where
  "lawful f \<longleftrightarrow> (\<forall>s s1. is_sizing s \<longrightarrow> f s = Some (True, s1) \<longrightarrow> (\<exists>B. emits f B))"

named_theorems lawful_intros \<open>closure of lawful under the constructs of the encoder\<close>

lemma lawful_emits: "emits f B \<Longrightarrow> lawful f"
  by (auto simp: lawful_def)

lemma lawful_error [lawful_intros]: "lawful (\<lambda>s. os_error s msg)"
  by (simp add: lawful_def os_error_def)

lemma lawful_None [lawful_intros]: "lawful (\<lambda>s. None)"
  by (simp add: lawful_def)

lemma lawful_ok [lawful_intros]: "lawful (\<lambda>s. Some (True, s))"
  by (rule lawful_emits) (rule emits_ok)

lemma lawful_fail [lawful_intros]: "lawful (\<lambda>s. Some (False, g s))"
  by (simp add: lawful_def)

lemma lawful_if [lawful_intros]:
  "(b \<Longrightarrow> lawful f) \<Longrightarrow> (\<not> b \<Longrightarrow> lawful g) \<Longrightarrow> lawful (\<lambda>s. if b then f s else g s)"
  by (cases b) simp_all

lemma lawful_case_option [lawful_intros]:
  "(x = None \<Longrightarrow> lawful f) \<Longrightarrow> (\<And>y. x = Some y \<Longrightarrow> lawful (g y)) \<Longrightarrow>
   lawful (\<lambda>s. case x of None \<Rightarrow> f s | Some y \<Rightarrow> g y s)"
  by (cases x) simp_all

lemma lawful_seq [lawful_intros]:
  assumes f: "lawful f" and g: "lawful g"
  shows "lawful (\<lambda>s. and_then (f s) g)"
  unfolding lawful_def
proof (intro allI impI)
  fix s s1
  assume sz: "is_sizing s" and r: "and_then (f s) g = Some (True, s1)"
  from r obtain s2 where f1: "f s = Some (True, s2)" and g1: "g s2 = Some (True, s1)"
    by (auto simp: and_then_def split: option.splits if_splits)
  from f sz f1 obtain A where A: "emits f A" unfolding lawful_def by blast
  with sz f1 have "is_sizing s2" using emits_sizing by fastforce
  with g g1 obtain B where "emits g B" unfolding lawful_def by blast
  with A show "\<exists>B. emits (\<lambda>s. and_then (f s) g) B" by (blast intro: emits_seq)
qed

lemmas lawful_primitives [lawful_intros] =
  emits_varint [THEN lawful_emits] emits_svarint [THEN lawful_emits] emits_tag [THEN lawful_emits]
  emits_string [THEN lawful_emits] emits_fixed32 [THEN lawful_emits] emits_fixed64 [THEN lawful_emits]

lemma lawful_tag_for_field [lawful_intros]: "lawful (\<lambda>s. pb_encode_tag_for_field s field)"
  unfolding pb_encode_tag_for_field_def by (intro lawful_intros)

lemma lawful_scalars [lawful_intros]:
  "lawful (\<lambda>s. pb_enc_bool m s field p)" "lawful (\<lambda>s. pb_enc_varint m s field p)"
  "lawful (\<lambda>s. pb_enc_uvarint m s field p)" "lawful (\<lambda>s. pb_enc_svarint m s field p)"
  "lawful (\<lambda>s. pb_enc_fixed32 m s field p)" "lawful (\<lambda>s. pb_enc_fixed64 m s field p)"
  "lawful (\<lambda>s. pb_enc_bytes m s field p)" "lawful (\<lambda>s. pb_enc_string m s field p)"
  "lawful (\<lambda>s. pb_enc_fixed_length_bytes m s field p)"
  unfolding pb_enc_bool_def pb_enc_varint_def pb_enc_uvarint_def pb_enc_svarint_def
    pb_enc_fixed32_def pb_enc_fixed64_def pb_enc_bytes_def pb_enc_string_def
    pb_enc_fixed_length_bytes_def Let_def
  by (intro lawful_intros)+

lemma lawful_items [lawful_intros]:
  "(\<And>q. lawful (\<lambda>s. f s q)) \<Longrightarrow> lawful (\<lambda>s. encode_items n f step s p)"
proof (induction n arbitrary: p)
  case 0
  show ?case by (simp add: lawful_ok)
next
  case (Suc n)
  then show ?case by (simp add: lawful_seq)
qed

lemma lawful_iter_loop [lawful_intros]:
  "(\<And>it. lawful (body it)) \<Longrightarrow> lawful (\<lambda>s. iter_loop body it s)"
proof (induction "length (start it) - pos it" arbitrary: it rule: less_induct)
  case less
  have eq: "(\<lambda>s. iter_loop body it s) =
    (\<lambda>s. and_then (body it s) (\<lambda>s1. if fst (pb_field_iter_next it)
        then iter_loop body (snd (pb_field_iter_next it)) s1 else Some (True, s1)))"
    by (rule ext, subst iter_loop.simps) (auto simp: and_then_def split: option.splits)
  show ?case unfolding eq
  proof (intro lawful_seq lawful_if lawful_ok less.prems)
    assume "fst (pb_field_iter_next it)"
    then have "pb_field_iter_next it = (True, snd (pb_field_iter_next it))"
      by (cases "pb_field_iter_next it") simp
    from iter_next_True [OF this] show "lawful (\<lambda>s. iter_loop body (snd (pb_field_iter_next it)) s)"
      by (intro less.hyps less.prems) (auto intro: diff_less_mono2)
  qed
qed


section \<open>Submessages and arrays\<close>

text \<open>The second pass of \<open>pb_encode_submessage\<close> runs in a window of exactly the counted size.\<close>

lemma emits_submessage:
  fixes rec :: "'s msg_encoder"
  assumes "emits (\<lambda>s. rec s fs src) B"
  shows "emits (\<lambda>s. pb_encode_submessage rec s fs src) (varint_bytes (of_nat (length B)) @ B)"
proof -
  let ?V = "varint_bytes (of_nat (length B))"
  let ?k = "\<lambda>s1. if is_sizing s1 then pb_write s1 None (of_nat (length B))
     else if max_size s1 < bytes_written s1 + of_nat (length B) then os_error s1 ''stream full''
     else (case rec \<lparr>os_callback = os_callback s1, os_state = os_state s1,
                max_size = of_nat (length B), bytes_written = 0, os_errmsg = None\<rparr> fs src of
             None \<Rightarrow> None
           | Some (status, sub2) \<Rightarrow>
               let s2 = s1\<lparr>bytes_written := bytes_written s1 + bytes_written sub2,
                          os_state := os_state sub2, os_errmsg := os_errmsg sub2\<rparr>
               in if bytes_written sub2 \<noteq> of_nat (length B) then os_error s2 ''submsg size changed''
                  else Some (status, s2))"
  have size: "rec PB_OSTREAM_SIZING fs src = Some (True, counted PB_OSTREAM_SIZING B)"
    using assms by (rule emits_sizing) (simp add: PB_OSTREAM_SIZING_def is_sizing_def)
  have counted_sizing: "bytes_written (counted (PB_OSTREAM_SIZING :: 's pb_ostream) B) = of_nat (length B)"
    by (simp add: counted_def PB_OSTREAM_SIZING_def)
  have eq: "(\<lambda>s. pb_encode_submessage rec s fs src) =
      (\<lambda>s. and_then (pb_encode_varint s (of_nat (length B))) ?k)"
    by (rule ext, unfold pb_encode_submessage_def size option.case prod.case Let_def counted_sizing, simp)
  have "emits ?k B"
    unfolding emits_def
  proof (intro conjI allI impI)
    fix s :: "'s pb_ostream"
    assume "is_sizing s"
    then show "?k s = Some (True, counted s B)"
      by (simp add: pb_write_def counted_def)
  next
    fix s :: "'s pb_ostream" and buf cur
    assume ok: "obuf_ok s buf cur" and le: "length B \<le> room s"
    let ?sub = "\<lparr>os_callback = os_callback s, os_state = os_state s,
                max_size = of_nat (length B), bytes_written = 0, os_errmsg = None\<rparr>"
    have u: "unat (bytes_written s + of_nat (length B)) = unat (bytes_written s) + length B"
      by (rule unat_bytes_counted [OF ok le])
    have lt: "length B < 2 ^ 64" using le room_bound [of s] by (rule le_less_trans)
    have sub: "obuf_ok ?sub buf cur" "room ?sub = length B"
      using ok le obuf_ok_room [OF ok] lt by (auto simp: obuf_ok_def room_def unat_of_nat_u64)
    from emits_room [OF assms sub(1)] sub(2)
    have "rec ?sub fs src = Some (True, emitted ?sub buf cur B)" by simp
    moreover have "\<not> max_size s < bytes_written s + of_nat (length B)" "\<not> is_sizing s"
      using ok le u by (auto simp: word_less_nat_alt obuf_ok_def room_def is_sizing_def)
    ultimately show "?k s = Some (True, emitted s buf cur B)"
      using ok by (simp add: emitted_def counted_def Let_def obuf_ok_def)
  next
    fix s :: "'s pb_ostream" and buf cur
    assume ok: "obuf_ok s buf cur" and l: "length B < 2 ^ 63"
      and m: "unat (max_size s) < 2 ^ 63" and r: "room s < length B"
    have c: "unat (of_nat (length B) :: u64) = length B" using l by (intro unat_of_nat_u64) simp
    have b: "unat (bytes_written s) \<le> unat (max_size s)" using ok by (simp add: obuf_ok_def)
    have "unat (bytes_written s + of_nat (length B)) = unat (bytes_written s) + length B"
      using l m b c by (subst unat_add_u64) simp_all
    then have "max_size s < bytes_written s + of_nat (length B)" "\<not> is_sizing s"
      using r b ok by (auto simp: word_less_nat_alt room_def obuf_ok_def is_sizing_def)
    then have "?k s = os_error s ''stream full''" by simp
    then show "\<exists>s'. ?k s = Some (False, s') \<and> within_room s buf cur s'"
      by (rule error_within_room [OF ok])
  qed
  with emits_varint show ?thesis unfolding eq by (rule emits_seq)
qed

lemma lawful_submessage [lawful_intros]:
  assumes "lawful (\<lambda>s. rec s fs src)"
  shows "lawful (\<lambda>s. pb_encode_submessage rec s fs src)"
  unfolding lawful_def
proof (intro allI impI)
  fix s s1
  assume sz: "is_sizing s" and r: "pb_encode_submessage rec s fs src = Some (True, s1)"
  then obtain sub where sub: "rec PB_OSTREAM_SIZING fs src = Some (True, sub)"
    by (auto simp: pb_encode_submessage_def split: option.splits if_splits)
  have "is_sizing PB_OSTREAM_SIZING" by (simp add: PB_OSTREAM_SIZING_def is_sizing_def)
  with assms sub obtain B where "emits (\<lambda>s. rec s fs src) B" unfolding lawful_def by blast
  then show "\<exists>B. emits (\<lambda>s. pb_encode_submessage rec s fs src) B"
    by (blast intro: emits_submessage)
qed

lemma emits_items:
  assumes "\<And>q. \<exists>B. emits (\<lambda>s. f s q) B \<and> length B = k"
  shows "\<exists>B. emits (\<lambda>s. encode_items n f step s p) B \<and> length B = n * k"
proof (induction n arbitrary: p)
  case 0
  show ?case using emits_ok by auto
next
  case (Suc n)
  from Suc.IH [of "p + step"] obtain B where
    B: "emits (\<lambda>s. encode_items n f step s (p + step)) B" "length B = n * k" by blast
  from assms [of p] obtain A where A: "emits (\<lambda>s. f s p) A" "length A = k" by blast
  from emits_seq [OF A(1) B(1)] A(2) B(2) show ?case
    by (intro exI [of _ "A @ B"]) simp
qed

text \<open>What an array's item encoder must satisfy: the fixed-size types have their size.\<close>

definition item_lawful :: "'s encoder \<Rightarrow> pb_field \<Rightarrow> bool" where
  "item_lawful func field \<longleftrightarrow>
     (\<forall>p. lawful (\<lambda>s. func s field p)) \<and>
     (PB_LTYPE (ftype field) = PB_LTYPE_FIXED32 \<longrightarrow>
        (\<forall>p. \<exists>B. emits (\<lambda>s. func s field p) B \<and> length B = 4)) \<and>
     (PB_LTYPE (ftype field) = PB_LTYPE_FIXED64 \<longrightarrow>
        (\<forall>p. \<exists>B. emits (\<lambda>s. func s field p) B \<and> length B = 8))"

lemma packed_size_items:
  assumes item: "item_lawful func field" and r: "packed_size func field p count = Some (True, sz)"
  shows "\<exists>B. emits (\<lambda>s. encode_items (unat count) (\<lambda>t q. func t field q) (ucast (data_size field)) s p) B \<and>
             sz = of_nat (length B)"
proof -
  let ?it = "\<lambda>s. encode_items (unat count) (\<lambda>t q. func t field q) (ucast (data_size field)) s p"
  consider (f32) "PB_LTYPE (ftype field) = PB_LTYPE_FIXED32"
    | (f64) "PB_LTYPE (ftype field) = PB_LTYPE_FIXED64"
    | (var) "PB_LTYPE (ftype field) \<noteq> PB_LTYPE_FIXED32" "PB_LTYPE (ftype field) \<noteq> PB_LTYPE_FIXED64"
    by blast
  then show ?thesis
  proof cases
    case f32
    with item have "\<And>q. \<exists>B. emits (\<lambda>s. func s field q) B \<and> length B = 4" by (simp add: item_lawful_def)
    from emits_items [OF this] f32 r show ?thesis
      by (fastforce simp: packed_size_def mult.commute)
  next
    case f64
    with item have "\<And>q. \<exists>B. emits (\<lambda>s. func s field q) B \<and> length B = 8" by (simp add: item_lawful_def)
    from emits_items [OF this] f64 r show ?thesis
      by (fastforce simp: packed_size_def mult.commute)
  next
    case var
    have sz: "is_sizing PB_OSTREAM_SIZING" by (simp add: PB_OSTREAM_SIZING_def is_sizing_def)
    from var r obtain ss where ss: "?it PB_OSTREAM_SIZING = Some (True, ss)" "sz = bytes_written ss"
      by (auto simp: packed_size_def)
    have "lawful ?it" using item by (intro lawful_items) (simp add: item_lawful_def)
    with sz ss(1) obtain B where B: "emits ?it B" unfolding lawful_def by blast
    with emits_sizing [OF B sz] ss show ?thesis
      by (auto simp: counted_def PB_OSTREAM_SIZING_def)
  qed
qed

lemma lawful_array:
  assumes item: "item_lawful func field"
  shows "lawful (\<lambda>s. encode_array m s field p count func)"
proof -
  have l: "\<And>p. lawful (\<lambda>s. func s field p)" using item by (simp add: item_lawful_def)
  let ?packed = "\<lambda>s1. case packed_size func field p count of
               None \<Rightarrow> None
             | Some (ok, sz) \<Rightarrow>
                 if \<not> ok then Some (False, s1)
                 else and_then (pb_encode_varint s1 sz) (\<lambda>s2.
                   if is_sizing s2 then pb_write s2 None sz
                   else encode_items (unat count) (\<lambda>t q. func t field q) (ucast (data_size field)) s2 p)"
  have "lawful ?packed"
  proof (cases "packed_size func field p count")
    case None
    then show ?thesis by (simp add: lawful_None)
  next
    case (Some x)
    then obtain ok sz where x: "packed_size func field p count = Some (ok, sz)" by (cases x) simp
    show ?thesis
    proof (cases ok)
      case False
      with x show ?thesis by (simp add: lawful_fail)
    next
      case True
      with x have "packed_size func field p count = Some (True, sz)" by simp
      from packed_size_items [OF item this] obtain B where
        B: "emits (\<lambda>s. encode_items (unat count) (\<lambda>t q. func t field q) (ucast (data_size field)) s p) B"
          "sz = of_nat (length B)" by blast
      from emits_seq [OF emits_varint emits_if_sizing [OF B(1)]] x True B(2) show ?thesis
        by (auto intro: lawful_emits)
    qed
  qed
  then have packed: "lawful (\<lambda>s. and_then (pb_encode_tag s PB_WT_STRING (tag field)) ?packed)"
    by (rule lawful_seq [OF lawful_emits [OF emits_tag]])
  show ?thesis
    unfolding encode_array_def
    by (rule lawful_if, rule lawful_ok, rule lawful_if, rule lawful_error, rule lawful_if, rule packed)
       (intro lawful_items lawful_seq lawful_tag_for_field l)
qed

section \<open>Messages\<close>

text \<open>
  User callbacks are documented to be called twice for a submessage and to write the same bytes
  each time.
\<close>

definition env_lawful :: "'s enc_env \<Rightarrow> mem \<Rightarrow> bool" where
  "env_lawful env m \<longleftrightarrow>
     (\<forall>f field a. lawful (\<lambda>s. Some (enc_callback env f m s field a))) \<and>
     (\<forall>f ext. lawful (\<lambda>s. Some (ext_encode env f m s ext)))"

lemma lawful_enc_submessage [lawful_intros]:
  "(\<And>fs src. lawful (\<lambda>s. rec s fs src)) \<Longrightarrow> lawful (\<lambda>s. pb_enc_submessage env rec s field src)"
  unfolding pb_enc_submessage_def by (intro lawful_intros)

lemma length_PB_ENCODERS [simp]: "length (PB_ENCODERS env m rec) = 11"
  by (simp add: PB_ENCODERS_def)

lemma item_lawful_encoders:
  assumes "\<And>fs src. lawful (\<lambda>s. rec s fs src)" and "unat (PB_LTYPE (ftype field)) < 11"
  shows "item_lawful (PB_ENCODERS env m rec ! unat (PB_LTYPE (ftype field))) field"
proof -
  define k where "k = unat (PB_LTYPE (ftype field))"
  have "k < 11" using assms(2) unfolding k_def .
  then have "k = 0 \<or> k = 1 \<or> k = 2 \<or> k = 3 \<or> k = 4 \<or> k = 5 \<or> k = 6 \<or> k = 7 \<or> k = 8 \<or> k = 9 \<or> k = 10"
    by presburger
  then have "\<forall>p. lawful (\<lambda>s. (PB_ENCODERS env m rec ! k) s field p)"
    unfolding PB_ENCODERS_def by (auto intro: lawful_intros lawful_enc_submessage [OF assms(1)])
  moreover have "\<exists>B. emits (\<lambda>s. (PB_ENCODERS env m rec ! k) s field p) B \<and> length B = 4"
    if "PB_LTYPE (ftype field) = PB_LTYPE_FIXED32" for p
    using that emits_fixed32 [of m p]
    by (intro exI [of _ "fixed32_bytes (rd32 m p)"])
       (simp add: k_def PB_ENCODERS_def pb_enc_fixed32_def fixed32_bytes_def)
  moreover have "\<exists>B. emits (\<lambda>s. (PB_ENCODERS env m rec ! k) s field p) B \<and> length B = 8"
    if "PB_LTYPE (ftype field) = PB_LTYPE_FIXED64" for p
    using that emits_fixed64 [of m p]
    by (intro exI [of _ "fixed64_bytes (rd64 m p)"])
       (simp add: k_def PB_ENCODERS_def pb_enc_fixed64_def fixed64_bytes_def)
  ultimately show ?thesis unfolding item_lawful_def k_def [symmetric] by blast
qed

lemma lawful_basic_field:
  assumes rec: "\<And>fs src. lawful (\<lambda>s. rec s fs src)"
  shows "lawful (\<lambda>s. encode_basic_field n env m rec s field p)"
proof (cases "unat (PB_LTYPE (ftype field)) < 11")
  case False
  then show ?thesis by (simp add: encode_basic_field_def Let_def lawful_None)
next
  case True
  let ?f = "PB_ENCODERS env m rec ! unat (PB_LTYPE (ftype field))"
  have item: "item_lawful ?f field" by (rule item_lawful_encoders [OF rec True])
  then have "\<And>p. lawful (\<lambda>s. ?f s field p)" by (simp add: item_lawful_def)
  with item show ?thesis
    unfolding encode_basic_field_def Let_def by (intro lawful_intros lawful_array)
qed

lemma lawful_field [lawful_intros]:
  assumes rec: "\<And>fs src. lawful (\<lambda>s. rec s fs src)" and env: "env_lawful env m"
  shows "lawful (\<lambda>s. encode_field n env m rec s field p)"
proof -
  have "lawful (\<lambda>s. encode_callback_field env m s field p)"
    unfolding lawful_def
  proof (intro allI impI)
    fix s s1
    assume sz: "is_sizing s" and r: "encode_callback_field env m s field p = Some (True, s1)"
    show "\<exists>B. emits (\<lambda>s. encode_callback_field env m s field p) B"
    proof (cases "callback_func m p = 0")
      case True
      then have "(\<lambda>s. encode_callback_field env m s field p) = (\<lambda>s. Some (True, s))"
        by (simp add: encode_callback_field_def fun_eq_iff)
      then show ?thesis using emits_ok by auto
    next
      case False
      let ?c = "\<lambda>s. enc_callback env (callback_func m p) m s field (callback_arg_addr p)"
      from r False have "Some (?c s) = Some (True, s1)"
        by (auto simp: encode_callback_field_def os_error_def split: prod.splits if_splits)
      moreover have "lawful (\<lambda>s. Some (?c s))" using env by (simp add: env_lawful_def)
      ultimately obtain B where B: "emits (\<lambda>s. Some (?c s)) B" using sz unfolding lawful_def by blast
      have "emits (\<lambda>s. encode_callback_field env m s field p) B"
        unfolding emits_def
      proof (intro conjI allI impI)
        fix s :: "'a pb_ostream"
        assume "is_sizing s"
        with emits_sizing [OF B] False
        show "encode_callback_field env m s field p = Some (True, counted s B)"
          by (simp add: encode_callback_field_def)
      next
        fix s :: "'a pb_ostream" and buf cur
        assume "obuf_ok s buf cur" "length B \<le> room s"
        with emits_room [OF B] False
        show "encode_callback_field env m s field p = Some (True, emitted s buf cur B)"
          by (simp add: encode_callback_field_def)
      next
        fix s :: "'a pb_ostream" and buf cur
        assume a: "obuf_ok s buf cur" "length B < 2 ^ 63" "unat (max_size s) < 2 ^ 63" "room s < length B"
        from emits_fail [OF B a] obtain s' where "?c s = (False, s')" "within_room s buf cur s'" by auto
        with False show "\<exists>s'. encode_callback_field env m s field p = Some (False, s') \<and>
            within_room s buf cur s'"
          by (simp add: encode_callback_field_def os_error_def within_room_def)
      qed
      then show ?thesis by blast
    qed
  qed
  with lawful_basic_field [OF rec] show ?thesis
    unfolding encode_field_def Let_def by (intro lawful_intros)
qed

lemma lawful_extension_field [lawful_intros]:
  assumes rec: "\<And>fs src. lawful (\<lambda>s. rec s fs src)" and env: "env_lawful env m"
  shows "lawful (\<lambda>s. encode_extension_field n env m rec s field p)"
proof -
  have e: "\<And>f ext. lawful (\<lambda>s. Some (ext_encode env f m s ext))"
    using env by (simp add: env_lawful_def)
  have d: "lawful (\<lambda>s. default_extension_encoder n env m rec s ext)" for ext
    unfolding default_extension_encoder_def Let_def by (intro lawful_intros rec env)
  have "lawful (\<lambda>s. extension_loop k n env m rec s ext)" for k ext
  proof (induction k arbitrary: ext)
    case 0
    show ?case unfolding extension_loop.simps by (intro lawful_intros)
  next
    case (Suc k)
    show ?case unfolding extension_loop.simps Let_def by (intro lawful_intros e d Suc.IH)
  qed
  then show ?thesis unfolding encode_extension_field_def .
qed

lemma lawful_pb_encode: "env_lawful env m \<Longrightarrow> lawful (\<lambda>s. pb_encode n env m s fs src)"
proof (induction n arbitrary: fs src)
  case 0
  show ?case by (simp add: lawful_None)
next
  case (Suc n)
  obtain ne it where it: "pb_field_iter_begin fs src = (ne, it)" by force
  show ?case unfolding pb_encode.simps it prod.case
    by (intro lawful_intros Suc.IH Suc.prems)
qed


section \<open>Properties\<close>

text \<open>C1: the 10-byte stack buffer of \<open>pb_encode_varint\<close> is never overrun, and what it holds is
  the base-128 form of the value: at least one byte, continuation bits on all bytes but the last,
  and the value read back is the value encoded.\<close>

theorem varint_bytes_correct:
  "1 \<le> length (varint_bytes v) \<and> length (varint_bytes v) \<le> 10 \<and>
   unat (last (varint_bytes v)) < 128 \<and>
   list_all (\<lambda>b. 128 \<le> unat b) (butlast (varint_bytes v)) \<and>
   leb128 (varint_bytes v) = unat v"
proof -
  have "unat v < 18446744073709551616" by simp
  then have "unat v < 128 ^ 10" by (rule less_trans) simp
  from length_varint_bytes [OF this] varint_bytes_shape [of v] leb128_varint_bytes [of v]
  show ?thesis by simp
qed

lemma buffer_stream_ok:
  "unat bufsize \<le> length buf \<Longrightarrow> obuf_ok (pb_ostream_from_buffer buf bufsize) buf 0"
  by (simp add: obuf_ok_def pb_ostream_from_buffer_def)

lemma buffer_stream_room [simp]: "room (pb_ostream_from_buffer buf bufsize) = unat bufsize"
  by (simp add: room_def pb_ostream_from_buffer_def)

lemma encoded_size_emits:
  assumes env: "env_lawful env m"
    and sz: "pb_get_encoded_size n env m fs src = Some (Some sz)"
  obtains B where "emits (\<lambda>s. pb_encode n env m s fs src) B" and "of_nat (length B) = sz"
proof -
  from sz obtain s1 where r: "pb_encode n env m PB_OSTREAM_SIZING fs src = Some (True, s1)"
      and b: "bytes_written s1 = sz"
    by (auto simp: pb_get_encoded_size_def split: if_splits)
  have s: "is_sizing PB_OSTREAM_SIZING" by (simp add: PB_OSTREAM_SIZING_def is_sizing_def)
  from lawful_pb_encode [OF env] s r obtain B where B: "emits (\<lambda>s. pb_encode n env m s fs src) B"
    unfolding lawful_def by blast
  with emits_sizing [OF B s] r b have "of_nat (length B) = sz"
    by (auto simp: counted_def PB_OSTREAM_SIZING_def)
  with B show thesis by (rule that)
qed

text \<open>C2: the size \<open>pb_get_encoded_size\<close> reports is the size \<open>pb_encode\<close> writes. Whenever the sizing
  pass succeeds, there is one byte string of that size such that encoding into any buffer with room
  for it succeeds, fills the buffer's start with exactly that string, leaves the rest of the buffer
  alone and counts its bytes; with user callbacks that write the same bytes on each call.\<close>

theorem pb_encode_fills_exactly:
  assumes "env_lawful env m"
    and "pb_get_encoded_size n env m fs src = Some (Some sz)"
  shows "\<exists>B. of_nat (length B) = sz \<and>
    (\<forall>buf bufsize. length B \<le> unat bufsize \<and> unat bufsize \<le> length buf \<longrightarrow>
       pb_encode n env m (pb_ostream_from_buffer buf bufsize) fs src =
         Some (True, \<lparr>os_callback = OBufWrite, os_state = OBuf (B @ drop (length B) buf) (length B),
                      max_size = bufsize, bytes_written = sz, os_errmsg = None\<rparr>))"
proof -
  from assms obtain B where B: "emits (\<lambda>s. pb_encode n env m s fs src) B" "of_nat (length B) = sz"
    by (rule encoded_size_emits)
  have "pb_encode n env m (pb_ostream_from_buffer buf bufsize) fs src =
      Some (True, emitted (pb_ostream_from_buffer buf bufsize) buf 0 B)"
    if "length B \<le> unat bufsize" "unat bufsize \<le> length buf" for buf bufsize
    using emits_room [OF B(1) buffer_stream_ok] that by simp
  then show ?thesis using B(2)
    by (intro exI [of _ B])
       (simp add: emitted_def counted_def splice_def pb_ostream_from_buffer_def)
qed

text \<open>C3: a message that does not fit is refused without an overrun. When the encoding, \<open>k\<close> bytes, is
  longer than the buffer (sizes below 2^63), \<open>pb_encode\<close> returns false, its cursor stays within the given size
  and no byte of the memory after it has changed.\<close>

theorem pb_encode_no_overrun:
  fixes env :: "'s enc_env"
  assumes "env_lawful env m"
    and "pb_get_encoded_size n env m fs src = Some (Some sz)"
  shows "\<exists>k. of_nat k = sz \<and>
    (\<forall>buf bufsize. k < 2 ^ 63 \<and> unat bufsize < k \<and> unat bufsize \<le> length buf \<longrightarrow>
       (\<exists>s' buf' cur'.
          pb_encode n env m (pb_ostream_from_buffer buf bufsize) fs src = Some (False, s') \<and>
          os_state s' = OBuf buf' cur' \<and> length buf' = length buf \<and> cur' \<le> unat bufsize \<and>
          drop (unat bufsize) buf' = drop (unat bufsize) buf))"
proof -
  from assms obtain B where B: "emits (\<lambda>s. pb_encode n env m s fs src) B" "of_nat (length B) = sz"
    by (rule encoded_size_emits)
  show ?thesis
  proof (intro exI [of _ "length B"] conjI allI impI, rule B(2))
    fix buf :: "u8 list" and bufsize :: u64
    assume "length B < 2 ^ 63 \<and> unat bufsize < length B \<and> unat bufsize \<le> length buf"
    then have l: "length B < 2 ^ 63" and small: "unat bufsize < length B"
      and le: "unat bufsize \<le> length buf" by blast+
    let ?s = "pb_ostream_from_buffer buf bufsize :: 's pb_ostream"
    have "unat bufsize < 2 ^ 63" using l small by (rule less_trans [rotated])
    then have "unat (max_size ?s) < 2 ^ 63" by (simp add: pb_ostream_from_buffer_def)
    from emits_fail [OF B(1) buffer_stream_ok [OF le] l this] small
    obtain s' where "pb_encode n env m ?s fs src = Some (False, s')" "within_room ?s buf 0 s'"
      by auto
    then show "\<exists>s' buf' cur'. pb_encode n env m ?s fs src = Some (False, s') \<and>
        os_state s' = OBuf buf' cur' \<and> length buf' = length buf \<and> cur' \<le> unat bufsize \<and>
        drop (unat bufsize) buf' = drop (unat bufsize) buf"
      by (simp add: within_room_def)
  qed
qed

text \<open>\<open>pb_encode_delimited\<close> is the varint of the message's size followed by the message: whenever
  the sizing pass succeeds, it writes the length prefix and then the bytes \<open>pb_encode\<close> would write.\<close>

theorem pb_encode_delimited_frames:
  assumes "env_lawful env m"
    and "pb_get_encoded_size n env m fs src = Some (Some sz)"
  shows "\<exists>B. of_nat (length B) = sz \<and>
    (\<forall>buf bufsize. length (varint_bytes sz) + length B \<le> unat bufsize \<and> unat bufsize \<le> length buf \<longrightarrow>
       (\<exists>s1 s2.
          pb_encode n env m (pb_ostream_from_buffer buf bufsize) fs src = Some (True, s1) \<and>
          os_state s1 = OBuf (B @ drop (length B) buf) (length B) \<and>
          pb_encode_delimited n env m (pb_ostream_from_buffer buf bufsize) fs src = Some (True, s2) \<and>
          os_state s2 = OBuf (varint_bytes sz @ B @ drop (length (varint_bytes sz) + length B) buf)
                             (length (varint_bytes sz) + length B)))"
proof -
  from assms obtain B where B: "emits (\<lambda>s. pb_encode n env m s fs src) B" "of_nat (length B) = sz"
    by (rule encoded_size_emits)
  from emits_submessage [where rec = "pb_encode n env m" and fs = fs and src = src, OF B(1)] B(2)
  have D: "emits (\<lambda>s. pb_encode_delimited n env m s fs src) (varint_bytes sz @ B)"
    by (simp add: pb_encode_delimited_def)
  show ?thesis
    by (intro exI [of _ B] conjI B(2))
       (auto simp: emits_room [OF B(1) buffer_stream_ok] emits_room [OF D buffer_stream_ok]
          emitted_def splice_def)
qed

section \<open>Witnesses\<close>

text \<open>A message with a varint field and a submessage that holds a packed array.\<close>

definition demo_sub :: "pb_field list" where
  "demo_sub = [\<lparr>tag = 3, ftype = 0x24, data_offset = 4, size_offset = 0xFFFFFFFC, data_size = 4,
                array_size = 2, ptr = 0\<rparr>]"

definition demo_fields :: "pb_field list" where
  "demo_fields =
     [\<lparr>tag = 1, ftype = 0x02, data_offset = 0, size_offset = 0, data_size = 4, array_size = 0, ptr = 0\<rparr>,
      \<lparr>tag = 2, ftype = 0x18, data_offset = 4, size_offset = 0xFFFFFFFF, data_size = 12,
       array_size = 0, ptr = 0x40\<rparr>]"

definition demo_env :: "nat enc_env" where
  "demo_env = \<lparr>descriptors = (\<lambda>p. if p = 0x40 then demo_sub else []),
     enc_callback = (\<lambda>f m s field a. (True, s)), ext_encode = (\<lambda>f m s e. (True, s))\<rparr>"

definition demo_mem :: mem where
  "demo_mem = (\<lambda>a. if a = 0x1000 then 0x96 else if a = 0x1001 then 1 else if a = 0x1007 then 1
      else if a = 0x1008 then 1 else if a = 0x100c then 7 else 0)"

lemma demo_lawful: "env_lawful demo_env m"
  by (simp add: env_lawful_def demo_env_def lawful_ok)

lemma demo_size: "pb_get_encoded_size 3 demo_env demo_mem demo_fields 0x1000 = Some (Some 11)"
  by code_simp

theorem pb_encode_fills_exactly_witness:
  "\<exists>B. of_nat (length B) = (11 :: u64) \<and>
    (\<forall>buf bufsize. length B \<le> unat bufsize \<and> unat bufsize \<le> length buf \<longrightarrow>
       pb_encode 3 demo_env demo_mem (pb_ostream_from_buffer buf bufsize) demo_fields 0x1000 =
         Some (True, \<lparr>os_callback = OBufWrite, os_state = OBuf (B @ drop (length B) buf) (length B),
                      max_size = bufsize, bytes_written = 11, os_errmsg = None\<rparr>))"
  by (rule pb_encode_fills_exactly [OF demo_lawful demo_size])

theorem pb_encode_no_overrun_witness:
  "\<exists>k. of_nat k = (11 :: u64) \<and>
    (\<forall>buf bufsize. k < 2 ^ 63 \<and> unat bufsize < k \<and> unat bufsize \<le> length buf \<longrightarrow>
       (\<exists>s' buf' cur'.
          pb_encode 3 demo_env demo_mem (pb_ostream_from_buffer buf bufsize) demo_fields 0x1000 =
            Some (False, s') \<and>
          os_state s' = OBuf buf' cur' \<and> length buf' = length buf \<and> cur' \<le> unat bufsize \<and>
          drop (unat bufsize) buf' = drop (unat bufsize) buf))"
  by (rule pb_encode_no_overrun [OF demo_lawful demo_size])

theorem pb_encode_delimited_frames_witness:
  "\<exists>B. of_nat (length B) = (11 :: u64) \<and>
    (\<forall>buf bufsize. length (varint_bytes 11) + length B \<le> unat bufsize \<and> unat bufsize \<le> length buf \<longrightarrow>
       (\<exists>s1 s2.
          pb_encode 3 demo_env demo_mem (pb_ostream_from_buffer buf bufsize) demo_fields 0x1000 = Some (True, s1) \<and>
          os_state s1 = OBuf (B @ drop (length B) buf) (length B) \<and>
          pb_encode_delimited 3 demo_env demo_mem (pb_ostream_from_buffer buf bufsize) demo_fields 0x1000 =
            Some (True, s2) \<and>
          os_state s2 = OBuf (varint_bytes 11 @ B @ drop (length (varint_bytes 11) + length B) buf)
                             (length (varint_bytes 11) + length B)))"
  by (rule pb_encode_delimited_frames [OF demo_lawful demo_size])

end
