(* ===== verification/Nanopb_Istream.thy ===== *)
theory Nanopb_Istream
  imports Nanopb_Base
begin

text \<open>
  Input streams and the primitive decoders of nanopb (\<open>Pods/nanopb/pb_decode.c\<close>): reading,
  varints, tags, skipping and string substreams. A function that returns \<open>false\<close> or a value
  becomes a function to \<open>('a option \<times> stream) option\<close>: \<open>Some (None, s)\<close> is the return value
  \<open>false\<close>, \<open>None\<close> undefined behaviour (reading past the source buffer).
\<close>

section \<open>Streams\<close>

text \<open>
  The state of a buffer stream is the bytes from its read pointer to the end of the buffer. A user
  read function gets the stream state and the count, and returns its status and the bytes it
  stored.
\<close>

datatype 's icallback = IBufRead | IUserRead "'s \<Rightarrow> nat \<Rightarrow> bool \<times> u8 list \<times> 's"

datatype 's istate = IBuf "u8 list" | IUser 's

record 's pb_istream =
  is_callback :: "'s icallback"
  is_state :: "'s istate"
  bytes_left :: u64
  is_errmsg :: "string option"

type_synonym ('a, 's) vres = "('a option \<times> 's pb_istream) option"

definition is_set_error :: "'s pb_istream \<Rightarrow> string \<Rightarrow> 's pb_istream" where
  "is_set_error s msg = s\<lparr>is_errmsg := (case is_errmsg s of None \<Rightarrow> Some msg | Some e \<Rightarrow> Some e)\<rparr>"

definition val_then :: "('a, 's) vres \<Rightarrow> ('a \<Rightarrow> 's pb_istream \<Rightarrow> ('b, 's) vres) \<Rightarrow> ('b, 's) vres" where
  "val_then r k = (case r of None \<Rightarrow> None | Some (None, s) \<Rightarrow> Some (None, s) | Some (Some v, s) \<Rightarrow> k v s)"

definition is_buf_read :: "'s pb_istream \<Rightarrow> bool" where
  "is_buf_read s = (case is_callback s of IBufRead \<Rightarrow> True | IUserRead _ \<Rightarrow> False)"

definition pb_istream_from_buffer :: "u8 list \<Rightarrow> u64 \<Rightarrow> 's pb_istream" where
  "pb_istream_from_buffer buf bufsize =
     \<lparr>is_callback = IBufRead, is_state = IBuf buf, bytes_left = bufsize, is_errmsg = None\<rparr>"

definition buf_read :: "u8 list \<Rightarrow> nat \<Rightarrow> (u8 list \<times> u8 list) option" where
  "buf_read src count = (if count \<le> length src then Some (take count src, drop count src) else None)"

definition call_icallback :: "'s pb_istream \<Rightarrow> nat \<Rightarrow> (bool \<times> u8 list \<times> 's pb_istream) option" where
  "call_icallback s count =
     (case (is_callback s, is_state s) of
        (IBufRead, IBuf src) \<Rightarrow>
          map_option (\<lambda>(bs, rest). (True, bs, s\<lparr>is_state := IBuf rest\<rparr>)) (buf_read src count)
      | (IUserRead f, IUser u) \<Rightarrow>
          (case f u count of (ok, bs, u') \<Rightarrow> Some (ok, bs, s\<lparr>is_state := IUser u'\<rparr>))
      | _ \<Rightarrow> None)"

text \<open>\<open>pb_read\<close> into a buffer: the status, the bytes stored in the buffer and the stream.\<close>

definition pb_read :: "'s pb_istream \<Rightarrow> u64 \<Rightarrow> (bool \<times> u8 list \<times> 's pb_istream) option" where
  "pb_read s count =
     (if count = 0 then Some (True, [], s)
      else if bytes_left s < count then Some (False, [], is_set_error s ''end-of-stream'')
      else (case call_icallback s (unat count) of
              None \<Rightarrow> None
            | Some (ok, bs, s1) \<Rightarrow>
                if \<not> ok then Some (False, bs, is_set_error s1 ''io error'')
                else Some (True, bs, s1\<lparr>bytes_left := bytes_left s1 - count\<rparr>)))"

text \<open>\<open>pb_read\<close> with a null buffer: a stream that is not a buffer is read 16 bytes at a time.\<close>

function pb_skip_chunks :: "'s pb_istream \<Rightarrow> u64 \<Rightarrow> (unit, 's) vres" where
  "pb_skip_chunks s count =
     (if 16 < count
      then (case pb_read s 16 of
              None \<Rightarrow> None
            | Some (ok, _, s1) \<Rightarrow> if \<not> ok then Some (None, s1) else pb_skip_chunks s1 (count - 16))
      else map_option (\<lambda>(ok, _, s1). (if ok then Some () else None, s1)) (pb_read s count))"
  by pat_completeness auto
termination
proof (relation "measure (\<lambda>(s, count). unat count)")
  fix s :: "'a pb_istream" and count :: u64 and x ok y bs s1
  assume "16 < count"
  then have "unat (count - 16) < unat count"
    by (subst unat_sub_u64) (simp_all add: word_less_nat_alt)
  then show "((s1, count - 16), s, count) \<in> measure (\<lambda>(s, count). unat count)" by simp
qed simp

declare pb_skip_chunks.simps [simp del]

definition pb_read_null :: "'s pb_istream \<Rightarrow> u64 \<Rightarrow> (unit, 's) vres" where
  "pb_read_null s count =
     (if count = 0 then Some (Some (), s)
      else if \<not> is_buf_read s then pb_skip_chunks s count
      else map_option (\<lambda>(ok, _, s1). (if ok then Some () else None, s1)) (pb_read s count))"

definition pb_readbyte :: "'s pb_istream \<Rightarrow> (u8, 's) vres" where
  "pb_readbyte s =
     (if bytes_left s = 0 then Some (None, is_set_error s ''end-of-stream'')
      else (case call_icallback s 1 of
              None \<Rightarrow> None
            | Some (ok, bs, s1) \<Rightarrow>
                if \<not> ok then Some (None, is_set_error s1 ''io error'')
                else (case bs of [] \<Rightarrow> None
                      | b # _ \<Rightarrow> Some (Some b, s1\<lparr>bytes_left := bytes_left s1 - 1\<rparr>))))"

lemma call_icallback_left:
  "call_icallback s n = Some (ok, bs, s1) \<Longrightarrow>
   bytes_left s1 = bytes_left s \<and> is_callback s1 = is_callback s"
  by (auto simp: call_icallback_def split: icallback.splits istate.splits prod.splits)

lemma unat_dec: "x \<noteq> 0 \<Longrightarrow> unat ((x :: u64) - 1) = unat x - 1 \<and> 0 < unat x"
proof -
  assume "x \<noteq> 0"
  then have "0 < unat x" by (simp add: unat_gt_0)
  then show ?thesis by (subst unat_sub_u64) simp_all
qed

lemma pb_readbyte_less:
  "pb_readbyte s = Some (Some b, s1) \<Longrightarrow> unat (bytes_left s1) < unat (bytes_left s)"
  using unat_dec [of "bytes_left s"]
  by (auto simp: pb_readbyte_def dest!: call_icallback_left split: if_splits option.splits list.splits)

lemma pb_read_1_less:
  "pb_read s 1 = Some (True, bs, s1) \<Longrightarrow> unat (bytes_left s1) < unat (bytes_left s)"
  using unat_dec [of "bytes_left s"]
  by (auto simp: pb_read_def dest!: call_icallback_left split: if_splits option.splits)

section \<open>Varints, tags and skipping\<close>

text \<open>
  The multi-byte loop of \<open>pb_decode_varint32_eof\<close>. \<open>bitpos\<close> is a \<open>uint_fast8_t\<close>, 8 bits on the
  target, and wraps around as it does there.
\<close>

function varint32_loop :: "'s pb_istream \<Rightarrow> u8 \<Rightarrow> u32 \<Rightarrow> (u32, 's) vres" where
  "varint32_loop s bitpos result =
     (case pb_readbyte s of
        None \<Rightarrow> None
      | Some (None, s1) \<Rightarrow> Some (None, s1)
      | Some (Some byte, s1) \<Rightarrow>
          let sign_extension = (if bitpos < 63 then 0xFF else 0x01);
              overflow = (32 \<le> bitpos \<and> byte AND 0x7F \<noteq> 0 \<and>
                          (drop_bit 31 result = 0 \<or> byte \<noteq> sign_extension));
              result1 = (if 32 \<le> bitpos then result
                         else result OR push_bit (unat bitpos) (ucast (byte AND 0x7F)));
              bitpos1 = bitpos + 7
          in if overflow then Some (None, is_set_error s1 ''varint overflow'')
             else if byte AND 0x80 \<noteq> 0 then varint32_loop s1 bitpos1 result1
             else if bitpos1 = 35 \<and> byte AND 0x70 \<noteq> 0
             then Some (None, is_set_error s1 ''varint overflow'')
             else Some (Some result1, s1))"
  by pat_completeness auto
termination
  by (relation "measure (\<lambda>(s, bitpos, result). unat (bytes_left s))") (auto dest: pb_readbyte_less)

declare varint32_loop.simps [simp del]

text \<open>The boolean is what is stored in \<open>*eof\<close>.\<close>

definition pb_decode_varint32_eof :: "'s pb_istream \<Rightarrow> (bool \<times> u32 option \<times> 's pb_istream) option" where
  "pb_decode_varint32_eof s =
     (case pb_readbyte s of
        None \<Rightarrow> None
      | Some (None, s1) \<Rightarrow> Some (bytes_left s1 = 0, None, s1)
      | Some (Some byte, s1) \<Rightarrow>
          if byte AND 0x80 = 0 then Some (False, Some (ucast byte), s1)
          else map_option (\<lambda>(v, s2). (False, v, s2)) (varint32_loop s1 7 (ucast (byte AND 0x7F))))"

definition pb_decode_varint32 :: "'s pb_istream \<Rightarrow> (u32, 's) vres" where
  "pb_decode_varint32 s = map_option (\<lambda>(eof, v, s1). (v, s1)) (pb_decode_varint32_eof s)"

function varint_decode_loop :: "'s pb_istream \<Rightarrow> u8 \<Rightarrow> u64 \<Rightarrow> (u64, 's) vres" where
  "varint_decode_loop s bitpos result =
     (if 64 \<le> bitpos then Some (None, is_set_error s ''varint overflow'')
      else (case pb_readbyte s of
              None \<Rightarrow> None
            | Some (None, s1) \<Rightarrow> Some (None, s1)
            | Some (Some byte, s1) \<Rightarrow>
                let result1 = result OR push_bit (unat bitpos) (ucast (byte AND 0x7F)) in
                if byte AND 0x80 \<noteq> 0 then varint_decode_loop s1 (bitpos + 7) result1
                else Some (Some result1, s1)))"
  by pat_completeness auto
termination
  by (relation "measure (\<lambda>(s, bitpos, result). unat (bytes_left s))") (auto dest: pb_readbyte_less)

declare varint_decode_loop.simps [simp del]

definition pb_decode_varint :: "'s pb_istream \<Rightarrow> (u64, 's) vres" where
  "pb_decode_varint s = varint_decode_loop s 0 0"

text \<open>A successful read of one byte leaves it in the buffer: an empty list would be a stale byte.\<close>

function pb_skip_varint :: "'s pb_istream \<Rightarrow> (unit, 's) vres" where
  "pb_skip_varint s =
     (case pb_read s 1 of
        None \<Rightarrow> None
      | Some (ok, bs, s1) \<Rightarrow>
          if \<not> ok then Some (None, s1)
          else if bs = [] then None
          else if hd bs AND 0x80 \<noteq> 0 then pb_skip_varint s1
          else Some (Some (), s1))"
  by pat_completeness auto
termination
  by (relation "measure (\<lambda>s. unat (bytes_left s))") (auto dest: pb_read_1_less)

declare pb_skip_varint.simps [simp del]

definition pb_skip_string :: "'s pb_istream \<Rightarrow> (unit, 's) vres" where
  "pb_skip_string s = val_then (pb_decode_varint32 s) (\<lambda>n s1. pb_read_null s1 (ucast n))"

text \<open>The result of \<open>pb_decode_tag\<close> with its output parameters \<open>wire_type\<close>, \<open>tag\<close> and \<open>eof\<close>.\<close>

record tag_result =
  tag_ok :: bool
  wire_type :: u32
  tag_number :: u32
  tag_eof :: bool

definition pb_decode_tag :: "'s pb_istream \<Rightarrow> (tag_result \<times> 's pb_istream) option" where
  "pb_decode_tag s =
     (case pb_decode_varint32_eof s of
        None \<Rightarrow> None
      | Some (eof, None, s1) \<Rightarrow>
          Some (\<lparr>tag_ok = False, wire_type = 0, tag_number = 0, tag_eof = eof\<rparr>, s1)
      | Some (_, Some temp, s1) \<Rightarrow>
          if temp = 0
          then Some (\<lparr>tag_ok = False, wire_type = 0, tag_number = 0, tag_eof = True\<rparr>, s1)
          else Some (\<lparr>tag_ok = True, wire_type = temp AND 7, tag_number = drop_bit 3 temp,
                      tag_eof = False\<rparr>, s1))"

definition pb_skip_field :: "'s pb_istream \<Rightarrow> u32 \<Rightarrow> (unit, 's) vres" where
  "pb_skip_field s wt =
     (if wt = PB_WT_VARINT then pb_skip_varint s
      else if wt = PB_WT_64BIT then pb_read_null s 8
      else if wt = PB_WT_STRING then pb_skip_string s
      else if wt = PB_WT_32BIT then pb_read_null s 4
      else Some (None, is_set_error s ''invalid wire_type''))"

text \<open>The varint loop of \<open>read_raw_value\<close>, with the bytes stored so far.\<close>

function raw_varint :: "'s pb_istream \<Rightarrow> nat \<Rightarrow> u8 list \<Rightarrow> (u8 list, 's) vres" where
  "raw_varint s max_size got =
     (if max_size < length got + 1 then Some (None, s)
      else (case pb_read s 1 of
              None \<Rightarrow> None
            | Some (ok, bs, s1) \<Rightarrow>
                if \<not> ok then Some (None, s1)
                else if bs = [] then None
                else if hd bs AND 0x80 \<noteq> 0 then raw_varint s1 max_size (got @ [hd bs])
                else Some (Some (got @ [hd bs]), s1)))"
  by pat_completeness auto
termination
  by (relation "measure (\<lambda>(s, max_size, got). unat (bytes_left s))") (auto dest: pb_read_1_less)

declare raw_varint.simps [simp del]

definition read_raw_fixed :: "'s pb_istream \<Rightarrow> u64 \<Rightarrow> (u8 list, 's) vres" where
  "read_raw_fixed s n = map_option (\<lambda>(ok, bs, s1). (if ok then Some bs else None, s1)) (pb_read s n)"

definition read_raw_value :: "'s pb_istream \<Rightarrow> u32 \<Rightarrow> nat \<Rightarrow> (u8 list, 's) vres" where
  "read_raw_value s wt max_size =
     (if wt = PB_WT_VARINT then raw_varint s max_size []
      else if wt = PB_WT_64BIT then read_raw_fixed s 8
      else if wt = PB_WT_32BIT then read_raw_fixed s 4
      else Some (None, is_set_error s ''invalid wire_type''))"

section \<open>String substreams\<close>

text \<open>The value is the substream, the stream the parent with the string taken off its length.\<close>

definition pb_make_string_substream :: "'s pb_istream \<Rightarrow> ('s pb_istream, 's) vres" where
  "pb_make_string_substream s =
     val_then (pb_decode_varint32 s) (\<lambda>n s1.
       if bytes_left s1 < ucast n then Some (None, is_set_error s1 ''parent stream too short'')
       else Some (Some (s1\<lparr>bytes_left := ucast n\<rparr>), s1\<lparr>bytes_left := bytes_left s1 - ucast n\<rparr>))"

definition pb_close_string_substream :: "'s pb_istream \<Rightarrow> 's pb_istream \<Rightarrow> (unit, 's) vres" where
  "pb_close_string_substream s sub =
     (case (if bytes_left sub \<noteq> 0 then pb_read_null sub (bytes_left sub) else Some (Some (), sub)) of
        None \<Rightarrow> None
      | Some (None, sub1) \<Rightarrow> Some (None, s)
      | Some (Some _, sub1) \<Rightarrow>
          Some (Some (), s\<lparr>is_state := is_state sub1, is_errmsg := is_errmsg sub1\<rparr>))"

section \<open>Scalar values\<close>

definition unzigzag :: "u64 \<Rightarrow> u64" where
  "unzigzag v = (if v AND 1 \<noteq> 0 then NOT (drop_bit 1 v) else drop_bit 1 v)"

definition pb_decode_svarint :: "'s pb_istream \<Rightarrow> (u64, 's) vres" where
  "pb_decode_svarint s = val_then (pb_decode_varint s) (\<lambda>v s1. Some (Some (unzigzag v), s1))"

text \<open>A successful read of a user stream that stored fewer bytes leaves the rest uninitialised.\<close>

definition fixed32_of :: "u8 list \<Rightarrow> u32" where
  "fixed32_of b = ucast (b ! 0) OR push_bit 8 (ucast (b ! 1)) OR push_bit 16 (ucast (b ! 2)) OR
     push_bit 24 (ucast (b ! 3))"

definition pb_decode_fixed32 :: "'s pb_istream \<Rightarrow> (u32, 's) vres" where
  "pb_decode_fixed32 s =
     (case pb_read s 4 of
        None \<Rightarrow> None
      | Some (ok, bs, s1) \<Rightarrow>
          if \<not> ok then Some (None, s1)
          else if length bs < 4 then None else Some (Some (fixed32_of bs), s1))"

definition fixed64_of :: "u8 list \<Rightarrow> u64" where
  "fixed64_of b = ucast (b ! 0) OR push_bit 8 (ucast (b ! 1)) OR push_bit 16 (ucast (b ! 2)) OR
     push_bit 24 (ucast (b ! 3)) OR push_bit 32 (ucast (b ! 4)) OR push_bit 40 (ucast (b ! 5)) OR
     push_bit 48 (ucast (b ! 6)) OR push_bit 56 (ucast (b ! 7))"

definition pb_decode_fixed64 :: "'s pb_istream \<Rightarrow> (u64, 's) vres" where
  "pb_decode_fixed64 s =
     (case pb_read s 8 of
        None \<Rightarrow> None
      | Some (ok, bs, s1) \<Rightarrow>
          if \<not> ok then Some (None, s1)
          else if length bs < 8 then None else Some (Some (fixed64_of bs), s1))"

end
