(* ===== verification/Nanopb_Decode.thy ===== *)
theory Nanopb_Decode
  imports Nanopb_Istream
begin

text \<open>
  Decoding messages (\<open>Pods/nanopb/pb_decode.c\<close>): field decoders, default values, static, pointer,
  callback and extension fields, the message loop and the release of allocated fields. A decoder
  works on the stream and the memory; its result is the C return value with the new state, or
  \<open>None\<close> for undefined behaviour and for running out of fuel (the depth of the C stack, the length
  of an extension list, a loop whose user callback makes no progress).
\<close>

type_synonym 's dstate = "'s pb_istream \<times> mem"
type_synonym 's dresult = "(bool \<times> 's dstate) option"
type_synonym 's decoder = "'s dstate \<Rightarrow> pb_field \<Rightarrow> u64 \<Rightarrow> 's dresult"
type_synonym 's msg_decoder = "'s dstate \<Rightarrow> pb_field list \<Rightarrow> u64 \<Rightarrow> 's dresult"

text \<open>
  What the decoder reaches through pointers: descriptor arrays, user callbacks and extension
  decoders, and \<open>realloc\<close> and \<open>free\<close> of the C library. \<open>frame_addr n\<close> is the address of the local
  variable \<open>fixed_count_size\<close> in the stack frame of \<open>pb_decode_noinit\<close> entered with fuel \<open>Suc n\<close>.
\<close>

record 's dec_env =
  descs :: "u64 \<Rightarrow> pb_field list"
  dec_callback :: "u64 \<Rightarrow> 's dstate \<Rightarrow> pb_field \<Rightarrow> u64 \<Rightarrow> bool \<times> 's dstate"
  ext_decode :: "u64 \<Rightarrow> 's dstate \<Rightarrow> u64 \<Rightarrow> u32 \<Rightarrow> u32 \<Rightarrow> bool \<times> 's dstate"
  realloc :: "mem \<Rightarrow> u64 \<Rightarrow> u64 \<Rightarrow> u64 \<times> mem"
  free_mem :: "mem \<Rightarrow> u64 \<Rightarrow> mem"
  frame_addr :: "nat \<Rightarrow> u64"

definition dec_error :: "'s dstate \<Rightarrow> string \<Rightarrow> 's dresult" where
  "dec_error st msg = Some (False, (is_set_error (fst st) msg, snd st))"

text \<open>\<open>if (!read(stream, &v)) return false;\<close> followed by the rest.\<close>

definition read_then :: "('a, 's) vres \<Rightarrow> mem \<Rightarrow> ('a \<Rightarrow> 's dstate \<Rightarrow> 's dresult) \<Rightarrow> 's dresult" where
  "read_then r m k =
     (case r of None \<Rightarrow> None | Some (None, s) \<Rightarrow> Some (False, (s, m)) | Some (Some v, s) \<Rightarrow> k v (s, m))"

text \<open>\<open>return read(stream, ...);\<close>\<close>

definition read_only :: "(unit, 's) vres \<Rightarrow> mem \<Rightarrow> 's dresult" where
  "read_only r m = read_then r m (\<lambda>_ st. Some (True, st))"

text \<open>\<open>pb_read\<close> into the memory at \<open>dest\<close>: what was stored stays even when the read fails.\<close>

definition read_to_mem :: "'s dstate \<Rightarrow> u64 \<Rightarrow> u64 \<Rightarrow> 's dresult" where
  "read_to_mem st dest count =
     (case pb_read (fst st) count of
        None \<Rightarrow> None
      | Some (ok, bs, s1) \<Rightarrow> Some (ok, (s1, wr_bytes (snd st) dest bs)))"

section \<open>Scalar field decoders\<close>

definition pb_dec_bool :: "'s decoder" where
  "pb_dec_bool st field dest =
     read_then (pb_decode_varint32 (fst st)) (snd st)
       (\<lambda>v (s, m). Some (True, (s, wr8 m dest (if v \<noteq> 0 then 1 else 0))))"

text \<open>
  Store \<open>sv\<close> at the width of the field; the value stored, widened back as a signed or unsigned
  number, with the memory. \<open>None\<close> for an invalid \<open>data_size\<close>.
\<close>

definition store_signed :: "mem \<Rightarrow> u32 \<Rightarrow> u64 \<Rightarrow> u64 \<Rightarrow> (u64 \<times> mem) option" where
  "store_signed m n dest sv =
     (if n = 8 then Some (sv, wr64 m dest sv)
      else if n = 4 then Some (scast (ucast sv :: u32), wr32 m dest (ucast sv))
      else if n = 2 then Some (scast (ucast sv :: u16), wr16 m dest (ucast sv))
      else if n = 1 then Some (scast (ucast sv :: u8), wr8 m dest (ucast sv))
      else None)"

definition store_unsigned :: "mem \<Rightarrow> u32 \<Rightarrow> u64 \<Rightarrow> u64 \<Rightarrow> (u64 \<times> mem) option" where
  "store_unsigned m n dest v =
     (if n = 8 then Some (v, wr64 m dest v)
      else if n = 4 then Some (ucast (ucast v :: u32), wr32 m dest (ucast v))
      else if n = 2 then Some (ucast (ucast v :: u16), wr16 m dest (ucast v))
      else if n = 1 then Some (ucast (ucast v :: u8), wr8 m dest (ucast v))
      else None)"

definition clamp_result :: "'s dstate \<Rightarrow> u64 \<Rightarrow> (u64 \<times> mem) option \<Rightarrow> 's dresult" where
  "clamp_result st v r =
     (case r of
        None \<Rightarrow> dec_error st ''invalid data_size''
      | Some (clamped, m) \<Rightarrow>
          if clamped \<noteq> v then dec_error (fst st, m) ''integer too large'' else Some (True, (fst st, m)))"

definition pb_dec_varint :: "'s decoder" where
  "pb_dec_varint st field dest =
     read_then (pb_decode_varint (fst st)) (snd st)
       (\<lambda>v st1. let svalue = (if data_size field = 8 then v else scast (ucast v :: u32))
                in clamp_result st1 svalue (store_signed (snd st1) (data_size field) dest svalue))"

definition pb_dec_uvarint :: "'s decoder" where
  "pb_dec_uvarint st field dest =
     read_then (pb_decode_varint (fst st)) (snd st)
       (\<lambda>v st1. clamp_result st1 v (store_unsigned (snd st1) (data_size field) dest v))"

definition pb_dec_svarint :: "'s decoder" where
  "pb_dec_svarint st field dest =
     read_then (pb_decode_svarint (fst st)) (snd st)
       (\<lambda>v st1. clamp_result st1 v (store_signed (snd st1) (data_size field) dest v))"

definition pb_dec_fixed32 :: "'s decoder" where
  "pb_dec_fixed32 st field dest =
     read_then (pb_decode_fixed32 (fst st)) (snd st) (\<lambda>v (s, m). Some (True, (s, wr32 m dest v)))"

definition pb_dec_fixed64 :: "'s decoder" where
  "pb_dec_fixed64 st field dest =
     read_then (pb_decode_fixed64 (fst st)) (snd st) (\<lambda>v (s, m). Some (True, (s, wr64 m dest v)))"

section \<open>Allocation\<close>

definition allocate_field :: "'s dec_env \<Rightarrow> 's dstate \<Rightarrow> u64 \<Rightarrow> u64 \<Rightarrow> u64 \<Rightarrow> 's dresult" where
  "allocate_field env st p dsize asize =
     (if dsize = 0 \<or> asize = 0 then dec_error st ''invalid size''
      else if (2 ^ 32 \<le> dsize \<or> 2 ^ 32 \<le> asize) \<and> (- 1) div asize < dsize
      then dec_error st ''size too large''
      else (case realloc env (snd st) (rd64 (snd st) p) (asize * dsize) of
              (q, m1) \<Rightarrow>
                if q = 0 then dec_error (fst st, m1) ''realloc failed''
                else Some (True, (fst st, wr64 m1 p q))))"

section \<open>Bytes and strings\<close>

definition pb_dec_bytes :: "'s dec_env \<Rightarrow> 's decoder" where
  "pb_dec_bytes env st field dest =
     read_then (pb_decode_varint32 (fst st)) (snd st) (\<lambda>n st1.
       let alloc_size = PB_BYTES_ARRAY_T_ALLOCSIZE n;
           fill = (\<lambda>bdest st2. read_to_mem (fst st2, wr32 (snd st2) bdest n) (bytes_array_bytes bdest) (ucast n))
       in if PB_SIZE_MAX < n then dec_error st1 ''bytes overflow''
          else if alloc_size < ucast n then dec_error st1 ''size too large''
          else if PB_ATYPE (ftype field) = PB_ATYPE_POINTER
          then and_then (allocate_field env st1 dest alloc_size 1) (\<lambda>st2. fill (rd64 (snd st2) dest) st2)
          else if ucast (data_size field) < alloc_size then dec_error st1 ''bytes overflow''
          else fill dest st1)"

text \<open>\<open>alloc_size = size + 1\<close> is computed in 32 bits and then widened.\<close>

definition pb_dec_string :: "'s dec_env \<Rightarrow> 's decoder" where
  "pb_dec_string env st field dest =
     read_then (pb_decode_varint32 (fst st)) (snd st) (\<lambda>n st1.
       let alloc_size = ucast (n + 1) :: u64;
           fill = (\<lambda>d st2. map_option (\<lambda>(ok, (s, m)). (ok, (s, wr8 m (d + ucast n) 0)))
                             (read_to_mem st2 d (ucast n)))
       in if alloc_size < ucast n then dec_error st1 ''size too large''
          else if PB_ATYPE (ftype field) = PB_ATYPE_POINTER
          then and_then (allocate_field env st1 dest alloc_size 1) (\<lambda>st2. fill (rd64 (snd st2) dest) st2)
          else if ucast (data_size field) < alloc_size then dec_error st1 ''string overflow''
          else fill dest st1)"

definition pb_dec_fixed_length_bytes :: "'s decoder" where
  "pb_dec_fixed_length_bytes st field dest =
     read_then (pb_decode_varint32 (fst st)) (snd st) (\<lambda>n st1.
       if PB_SIZE_MAX < n then dec_error st1 ''bytes overflow''
       else if n = 0 then Some (True, (fst st1, memset (snd st1) dest 0 (unat (data_size field))))
       else if n \<noteq> data_size field then dec_error st1 ''incorrect fixed length bytes size''
       else read_to_mem st1 dest (ucast (data_size field)))"

section \<open>Default values\<close>

definition iter_from_extension :: "'s dec_env \<Rightarrow> mem \<Rightarrow> u64 \<Rightarrow> pb_field_iter" where
  "iter_from_extension env m ext =
     (let fs = descs env (extension_type_arg m (extension_type m ext));
          dest = rd64 m (extension_dest_addr ext);
          it = snd (pb_field_iter_begin fs dest)
      in it\<lparr>pData := (if PB_ATYPE (ftype (field_at fs 0)) = PB_ATYPE_POINTER
                      then extension_dest_addr ext else dest),
            pSize := extension_found_addr ext\<rparr>)"

text \<open>The loop over the fields of a message, given what is done for one field.\<close>

definition each_field :: "(pb_field_iter \<Rightarrow> mem \<Rightarrow> mem option) \<Rightarrow> pb_field list \<Rightarrow> u64 \<Rightarrow> mem \<Rightarrow> mem option" where
  "each_field f fs dest m =
     (case pb_field_iter_begin fs dest of (nonempty, it) \<Rightarrow>
        if \<not> nonempty then Some m
        else map_option snd (iter_loop (\<lambda>it m. map_option (\<lambda>m1. (True, m1)) (f it m)) it m))"

text \<open>The loop over an extension list, given what is done for one extension.\<close>

primrec each_extension :: "nat \<Rightarrow> (u64 \<Rightarrow> mem \<Rightarrow> mem option) \<Rightarrow> u64 \<Rightarrow> mem \<Rightarrow> mem option" where
  "each_extension 0 f ext m = (if ext = 0 then Some m else None)"
| "each_extension (Suc k) f ext m =
     (if ext = 0 then Some m
      else (case f ext m of None \<Rightarrow> None | Some m1 \<Rightarrow> each_extension k f (extension_next m1 ext) m1))"

primrec pb_field_set_to_default :: "nat \<Rightarrow> 's dec_env \<Rightarrow> pb_field_iter \<Rightarrow> mem \<Rightarrow> mem option" where
  "pb_field_set_to_default 0 env it m = None"
| "pb_field_set_to_default (Suc n) env it m =
     (let f = iter_field it; ty = ftype f in
      if PB_LTYPE ty = PB_LTYPE_EXTENSION then
        each_extension n
          (\<lambda>ext m. let m1 = wr8 m (extension_found_addr ext) 0
                   in pb_field_set_to_default n env (iter_from_extension env m1 ext) m1)
          (rd64 m (pData it)) m
      else if PB_ATYPE ty = PB_ATYPE_STATIC then
        (if PB_HTYPE ty = PB_HTYPE_REPEATED \<or> PB_HTYPE ty = PB_HTYPE_ONEOF
         then Some (wr32 m (pSize it) 0)
         else
           let m1 = (if PB_HTYPE ty = PB_HTYPE_OPTIONAL \<and> pSize it \<noteq> pData it
                     then wr8 m (pSize it) 0 else m) in
           if PB_LTYPE ty = PB_LTYPE_SUBMESSAGE
           then each_field (pb_field_set_to_default n env) (descs env (ptr f)) (pData it) m1
           else if ptr f \<noteq> 0
           then Some (wr_bytes m1 (pData it) (rd_bytes m1 (ptr f) (unat (data_size f))))
           else Some (memset m1 (pData it) 0 (unat (data_size f))))
      else if PB_ATYPE ty = PB_ATYPE_POINTER then
        (let m1 = wr64 m (pData it) 0 in
         if PB_HTYPE ty = PB_HTYPE_REPEATED \<or> PB_HTYPE ty = PB_HTYPE_ONEOF
         then Some (wr32 m1 (pSize it) 0) else Some m1)
      else Some m)"

definition pb_message_set_to_defaults :: "nat \<Rightarrow> 's dec_env \<Rightarrow> pb_field list \<Rightarrow> u64 \<Rightarrow> mem \<Rightarrow> mem option" where
  "pb_message_set_to_defaults n env fs dest m = each_field (pb_field_set_to_default n env) fs dest m"

section \<open>Releasing allocated fields\<close>

text \<open>\<open>while (count--) { pb_free(*pItem); *pItem++ = NULL; }\<close>\<close>

primrec release_strings :: "nat \<Rightarrow> 's dec_env \<Rightarrow> u64 \<Rightarrow> mem \<Rightarrow> mem" where
  "release_strings 0 env p m = m"
| "release_strings (Suc k) env p m =
     release_strings k env (p + 8) (wr64 (free_mem env m (rd64 m p)) p 0)"

text \<open>\<open>while (count--) { pb_release(...); pItem = pItem + data_size; }\<close>\<close>

primrec release_items :: "nat \<Rightarrow> (u64 \<Rightarrow> mem \<Rightarrow> mem option) \<Rightarrow> u64 \<Rightarrow> u64 \<Rightarrow> mem \<Rightarrow> mem option" where
  "release_items 0 rel step p m = Some m"
| "release_items (Suc k) rel step p m =
     (case rel p m of None \<Rightarrow> None | Some m1 \<Rightarrow> release_items k rel step (p + step) m1)"

text \<open>The end of \<open>pb_release_single_field\<close>: the allocation of a pointer field itself.\<close>

definition release_pointer :: "'s dec_env \<Rightarrow> pb_field_iter \<Rightarrow> mem \<Rightarrow> mem" where
  "release_pointer env it m =
     (let ty = ftype (iter_field it) in
      if PB_ATYPE ty \<noteq> PB_ATYPE_POINTER then m
      else
        let m1 = (if PB_HTYPE ty = PB_HTYPE_REPEATED \<and> PB_LTYPE ty \<in> {PB_LTYPE_STRING, PB_LTYPE_BYTES}
                  then release_strings (unat (rd32 m (pSize it))) env (rd64 m (pData it)) m else m);
            m2 = (if PB_HTYPE ty = PB_HTYPE_REPEATED then wr32 m1 (pSize it) 0 else m1)
        in wr64 (free_mem env m2 (rd64 m2 (pData it))) (pData it) 0)"

text \<open>\<open>pb_release\<close> ignores a null structure; \<open>release_msg\<close> is its loop.\<close>

primrec pb_release_single_field :: "nat \<Rightarrow> 's dec_env \<Rightarrow> pb_field_iter \<Rightarrow> mem \<Rightarrow> mem option" where
  "pb_release_single_field 0 env it m = None"
| "pb_release_single_field (Suc n) env it m =
     (let f = iter_field it; ty = ftype f;
          static = (PB_ATYPE ty = PB_ATYPE_STATIC);
          release_msg = (\<lambda>p m. if p = 0 then Some m
             else each_field (pb_release_single_field n env) (descs env (ptr f)) p m) in
      if PB_HTYPE ty = PB_HTYPE_ONEOF \<and> rd32 m (pSize it) \<noteq> tag f then Some m
      else if PB_LTYPE ty = PB_LTYPE_EXTENSION then
        map_option (release_pointer env it)
          (each_extension n
             (\<lambda>ext m. pb_release_single_field n env (iter_from_extension env m ext) m)
             (rd64 m (pData it)) m)
      else if PB_LTYPE ty = PB_LTYPE_SUBMESSAGE \<and> PB_ATYPE ty \<noteq> PB_ATYPE_CALLBACK then
        (let item = (if PB_ATYPE ty = PB_ATYPE_POINTER then rd64 m (pData it) else pData it);
             count0 = (if PB_HTYPE ty \<noteq> PB_HTYPE_REPEATED then 1
                       else if static \<and> pSize it = pData it then array_size f
                       else rd32 m (pSize it));
             count = (if PB_HTYPE ty = PB_HTYPE_REPEATED \<and> static \<and> array_size f < count0
                      then array_size f else count0)
         in map_option (release_pointer env it)
              (if item = 0 then Some m
               else release_items (unat count) release_msg (ucast (data_size f)) item m))
      else Some (release_pointer env it m))"

definition pb_release :: "nat \<Rightarrow> 's dec_env \<Rightarrow> pb_field list \<Rightarrow> u64 \<Rightarrow> mem \<Rightarrow> mem option" where
  "pb_release n env fs dest m =
     (if dest = 0 then Some m else each_field (pb_release_single_field n env) fs dest m)"

definition pb_release_union_field :: "nat \<Rightarrow> 's dec_env \<Rightarrow> 's dstate \<Rightarrow> pb_field_iter \<Rightarrow>
    (bool \<times> pb_field_iter \<times> 's dstate) option" where
  "pb_release_union_field n env st it =
     (let old_tag = rd32 (snd st) (pSize it); new_tag = tag (iter_field it);
          fail = (\<lambda>msg it st. Some (False, it, (is_set_error (fst st) msg, snd st))) in
      if old_tag = 0 \<or> old_tag = new_tag then Some (True, it, st)
      else (case pb_field_iter_find it old_tag of
              None \<Rightarrow> None
            | Some (found, it1) \<Rightarrow>
                if \<not> found then fail ''invalid union tag'' it1 st
                else (case pb_release_single_field n env it1 (snd st) of
                        None \<Rightarrow> None
                      | Some m1 \<Rightarrow>
                          (case pb_field_iter_find it1 new_tag of
                             None \<Rightarrow> None
                           | Some (found2, it2) \<Rightarrow>
                               if \<not> found2 then fail ''iterator error'' it2 (fst st, m1)
                               else Some (True, it2, (fst st, m1))))))"

section \<open>Fields\<close>

text \<open>
  \<open>func\<close> is the entry of \<open>PB_DECODERS\<close> for the field's type, \<open>defaults\<close> is
  \<open>pb_message_set_to_defaults\<close> at the current fuel.
\<close>

text \<open>
  The loop over a packed array in a substream. Each round decodes an item, so at most
  \<open>bytes_left\<close> rounds are needed; the boolean is \<open>status\<close>.
\<close>

primrec packed_loop :: "nat \<Rightarrow> 's decoder \<Rightarrow> pb_field_iter \<Rightarrow> 's dstate \<Rightarrow> 's dresult" where
  "packed_loop 0 func it st = None"
| "packed_loop (Suc k) func it st =
     (let f = iter_field it; n = rd32 (snd st) (pSize it) in
      if 0 < bytes_left (fst st) \<and> n < array_size f then
        and_then (func st f (pData it + ucast (data_size f * n)))
          (\<lambda>(sub, m). packed_loop k func it (sub, wr32 m (pSize it) (rd32 m (pSize it) + 1)))
      else Some (True, st))"

definition close_and_return :: "'s dstate \<Rightarrow> 's pb_istream \<Rightarrow> bool \<Rightarrow> 's dresult" where
  "close_and_return st sub status =
     read_then (pb_close_string_substream (fst st) sub) (snd st) (\<lambda>_ st1. Some (status, st1))"

definition decode_static_field ::
    "'s dec_env \<Rightarrow> 's decoder \<Rightarrow> (pb_field list \<Rightarrow> u64 \<Rightarrow> mem \<Rightarrow> mem option) \<Rightarrow>
     's dstate \<Rightarrow> u32 \<Rightarrow> pb_field_iter \<Rightarrow> 's dresult" where
  "decode_static_field env func defaults st wt it =
     (let f = iter_field it; ty = ftype f; m = snd st in
      if PB_HTYPE ty = PB_HTYPE_REQUIRED then func st f (pData it)
      else if PB_HTYPE ty = PB_HTYPE_OPTIONAL then
        func (fst st, if pSize it \<noteq> pData it then wr8 m (pSize it) 1 else m) f (pData it)
      else if PB_HTYPE ty = PB_HTYPE_REPEATED then
        (if wt = PB_WT_STRING \<and> PB_LTYPE ty \<le> PB_LTYPE_LAST_PACKABLE then
           (case pb_make_string_substream (fst st) of
              None \<Rightarrow> None
            | Some (None, s1) \<Rightarrow> Some (False, (s1, m))
            | Some (Some sub, s1) \<Rightarrow>
                (case packed_loop (Suc (unat (bytes_left sub))) func it (sub, m) of
                   None \<Rightarrow> None
                 | Some (status, (sub1, m1)) \<Rightarrow>
                     if bytes_left sub1 \<noteq> 0 then dec_error (s1, m1) ''array overflow''
                     else close_and_return (s1, m1) sub1 status))
         else
           let n = rd32 m (pSize it); m1 = wr32 m (pSize it) (n + 1) in
           if array_size f \<le> n then dec_error (fst st, m1) ''array overflow''
           else func (fst st, m1) f (pData it + ucast (data_size f * n)))
      else
        let m1 = wr32 m (pSize it) (tag f) in
        if PB_LTYPE ty = PB_LTYPE_SUBMESSAGE then
          (case defaults (descs env (ptr f)) (pData it) (memset m1 (pData it) 0 (unat (data_size f))) of
             None \<Rightarrow> None
           | Some m2 \<Rightarrow> func (fst st, m2) f (pData it))
        else func (fst st, m1) f (pData it))"

definition initialize_pointer_field ::
    "'s dec_env \<Rightarrow> (pb_field list \<Rightarrow> u64 \<Rightarrow> mem \<Rightarrow> mem option) \<Rightarrow> u64 \<Rightarrow> pb_field_iter \<Rightarrow> mem \<Rightarrow> mem option" where
  "initialize_pointer_field env defaults item it m =
     (let f = iter_field it; lt = PB_LTYPE (ftype f) in
      if lt = PB_LTYPE_STRING \<or> lt = PB_LTYPE_BYTES then Some (wr64 m item 0)
      else if lt = PB_LTYPE_SUBMESSAGE
      then defaults (descs env (ptr f)) item (memset m item 0 (unat (data_size f)))
      else Some m)"

definition init_then_decode ::
    "'s dec_env \<Rightarrow> 's decoder \<Rightarrow> (pb_field list \<Rightarrow> u64 \<Rightarrow> mem \<Rightarrow> mem option) \<Rightarrow>
     's dstate \<Rightarrow> pb_field_iter \<Rightarrow> u64 \<Rightarrow> 's dresult" where
  "init_then_decode env func defaults st it item =
     (case initialize_pointer_field env defaults item it (snd st) of
        None \<Rightarrow> None
      | Some m1 \<Rightarrow> func (fst st, m1) (iter_field it) item)"

text \<open>
  The loop over a packed array of a pointer field; \<open>alloc\<close> is \<open>allocated_size\<close>. The result is
  \<open>status\<close>, whether the array was full (\<open>too many array entries\<close>), and the substream.
  A division by a zero \<open>data_size\<close> is undefined.
\<close>

definition not_full :: "'s dresult \<Rightarrow> (bool \<times> bool \<times> 's dstate) option" where
  "not_full r = map_option (\<lambda>(ok, st). (ok, False, st)) r"

primrec pointer_packed_loop ::
    "nat \<Rightarrow> 's dec_env \<Rightarrow> 's decoder \<Rightarrow> (pb_field list \<Rightarrow> u64 \<Rightarrow> mem \<Rightarrow> mem option) \<Rightarrow>
     pb_field_iter \<Rightarrow> u64 \<Rightarrow> 's dstate \<Rightarrow> (bool \<times> bool \<times> 's dstate) option" where
  "pointer_packed_loop 0 env func defaults it alloc st = None"
| "pointer_packed_loop (Suc k) env func defaults it alloc st =
     (let f = iter_field it; n = rd32 (snd st) (pSize it); sub = fst st in
      if bytes_left sub = 0 then Some (True, False, st)
      else if n = PB_SIZE_MAX then Some (False, True, st)
      else
        let grow = (alloc < ucast n + 1);
            remain = (bytes_left sub - 1) div ucast (data_size f) + 1;
            alloc1 = (if \<not> grow then alloc
                      else if remain < ucast PB_SIZE_MAX - alloc then alloc + remain else alloc + 1)
        in if grow \<and> data_size f = 0 then None
           else and_then
             (not_full (if grow then allocate_field env st (pData it) (ucast (data_size f)) alloc1
                        else Some (True, st)))
             (\<lambda>(_, st1). let item = rd64 (snd st1) (pData it) + ucast (data_size f * rd32 (snd st1) (pSize it)) in
                and_then (not_full (init_then_decode env func defaults st1 it item))
                  (\<lambda>(_, (sub2, m2)). pointer_packed_loop k env func defaults it alloc1
                     (sub2, wr32 m2 (pSize it) (rd32 m2 (pSize it) + 1)))))"

definition decode_pointer_field ::
    "nat \<Rightarrow> 's dec_env \<Rightarrow> 's decoder \<Rightarrow> (pb_field list \<Rightarrow> u64 \<Rightarrow> mem \<Rightarrow> mem option) \<Rightarrow>
     's dstate \<Rightarrow> u32 \<Rightarrow> pb_field_iter \<Rightarrow> 's dresult" where
  "decode_pointer_field n env func defaults st wt it =
     (let f = iter_field it; ty = ftype f; lt = PB_LTYPE ty; m = snd st in
      if PB_HTYPE ty \<noteq> PB_HTYPE_REPEATED then
        (case (if lt = PB_LTYPE_SUBMESSAGE \<and> rd64 m (pData it) \<noteq> 0
               then pb_release_single_field n env it m else Some m) of
           None \<Rightarrow> None
         | Some m0 \<Rightarrow>
             let m1 = (if PB_HTYPE ty = PB_HTYPE_ONEOF then wr32 m0 (pSize it) (tag f) else m0) in
             if lt = PB_LTYPE_STRING \<or> lt = PB_LTYPE_BYTES then func (fst st, m1) f (pData it)
             else and_then (allocate_field env (fst st, m1) (pData it) (ucast (data_size f)) 1)
                    (\<lambda>st2. init_then_decode env func defaults st2 it (rd64 (snd st2) (pData it))))
      else if wt = PB_WT_STRING \<and> lt \<le> PB_LTYPE_LAST_PACKABLE then
        (case pb_make_string_substream (fst st) of
           None \<Rightarrow> None
         | Some (None, s1) \<Rightarrow> Some (False, (s1, m))
         | Some (Some sub, s1) \<Rightarrow>
             (case pointer_packed_loop (Suc (unat (bytes_left sub))) env func defaults it
                     (ucast (rd32 m (pSize it))) (sub, m) of
                None \<Rightarrow> None
              | Some (status, full, (sub1, m1)) \<Rightarrow>
                  let s2 = (if full then s1\<lparr>is_errmsg := Some ''too many array entries''\<rparr> else s1)
                  in close_and_return (s2, m1) sub1 status))
      else if rd32 m (pSize it) = PB_SIZE_MAX then dec_error st ''too many array entries''
      else and_then
             (allocate_field env st (pData it) (ucast (data_size f)) (ucast (rd32 m (pSize it) + 1)))
             (\<lambda>(s1, m1). let cnt = rd32 m1 (pSize it) in
                init_then_decode env func defaults (s1, wr32 m1 (pSize it) (cnt + 1)) it
                  (rd64 m1 (pData it) + ucast (data_size f * cnt))))"

text \<open>The \<open>do\<close> loop that calls a field callback until its substream is used up.\<close>

primrec callback_loop :: "nat \<Rightarrow> ('s dstate \<Rightarrow> bool \<times> 's dstate) \<Rightarrow> 's dstate \<Rightarrow> 's dresult" where
  "callback_loop 0 cb st = None"
| "callback_loop (Suc k) cb st =
     (case cb st of (ok, st1) \<Rightarrow>
        if \<not> ok then Some (False, st1)
        else if bytes_left (fst st1) \<noteq> 0 then callback_loop k cb st1 else Some (True, st1))"

definition decode_callback_field ::
    "nat \<Rightarrow> 's dec_env \<Rightarrow> 's dstate \<Rightarrow> u32 \<Rightarrow> pb_field_iter \<Rightarrow> 's dresult" where
  "decode_callback_field n env st wt it =
     (let m = snd st; p = pData it in
      if p = 0 \<or> callback_func m p = 0 then read_only (pb_skip_field (fst st) wt) m
      else
        let cb = (\<lambda>st. dec_callback env (callback_func (snd st) p) st (iter_field it) (callback_arg_addr p)) in
        if wt = PB_WT_STRING then
          (case pb_make_string_substream (fst st) of
             None \<Rightarrow> None
           | Some (None, s1) \<Rightarrow> Some (False, (s1, m))
           | Some (Some sub, s1) \<Rightarrow>
               (case callback_loop n cb (sub, m) of
                  None \<Rightarrow> None
                | Some (ok, (sub1, m1)) \<Rightarrow>
                    if \<not> ok then dec_error (s1, m1) ''callback failed''
                    else close_and_return (s1, m1) sub1 True))
        else read_then (read_raw_value (fst st) wt 10) m
               (\<lambda>bs (s1, m1).
                  case cb (pb_istream_from_buffer bs (of_nat (length bs)), m1) of
                    (ok, (sub, m2)) \<Rightarrow> Some (ok, (s1, m2))))"

text \<open>
  \<open>pb_dec_submessage\<close>. \<open>noinit\<close> is \<open>pb_decode_noinit\<close> and \<open>full\<close> is \<open>pb_decode\<close> at the lower fuel.
\<close>

definition pb_dec_submessage :: "'s dec_env \<Rightarrow> 's msg_decoder \<Rightarrow> 's msg_decoder \<Rightarrow> 's decoder" where
  "pb_dec_submessage env noinit full st field dest =
     (case pb_make_string_substream (fst st) of
        None \<Rightarrow> None
      | Some (None, s1) \<Rightarrow> Some (False, (s1, snd st))
      | Some (Some sub, s1) \<Rightarrow>
          if ptr field = 0 then dec_error (s1, snd st) ''invalid field descriptor''
          else (case (if PB_HTYPE (ftype field) = PB_HTYPE_REPEATED
                      then full (sub, snd st) (descs env (ptr field)) dest
                      else noinit (sub, snd st) (descs env (ptr field)) dest) of
                  None \<Rightarrow> None
                | Some (status, (sub1, m1)) \<Rightarrow> close_and_return (s1, m1) sub1 status))"

definition PB_DECODERS :: "'s dec_env \<Rightarrow> 's msg_decoder \<Rightarrow> 's msg_decoder \<Rightarrow> 's decoder list" where
  "PB_DECODERS env noinit full =
     [pb_dec_bool, pb_dec_varint, pb_dec_uvarint, pb_dec_svarint, pb_dec_fixed32, pb_dec_fixed64,
      pb_dec_bytes env, pb_dec_string env, pb_dec_submessage env noinit full,
      (\<lambda>st field dest. None), pb_dec_fixed_length_bytes]"

text \<open>The iterator is returned too: releasing an old union member may have moved it.\<close>

definition decode_field ::
    "nat \<Rightarrow> 's dec_env \<Rightarrow> 's msg_decoder \<Rightarrow> 's msg_decoder \<Rightarrow> 's dstate \<Rightarrow> u32 \<Rightarrow> pb_field_iter \<Rightarrow>
     (bool \<times> pb_field_iter \<times> 's dstate) option" where
  "decode_field n env noinit full st0 wt it0 =
     (case (if PB_HTYPE (ftype (iter_field it0)) = PB_HTYPE_ONEOF
            then pb_release_union_field n env st0 it0 else Some (True, it0, st0)) of
        None \<Rightarrow> None
      | Some (ok, it, st) \<Rightarrow>
          if \<not> ok then Some (False, it, st)
          else
            let ty = ftype (iter_field it); lt = PB_LTYPE ty; at = PB_ATYPE ty;
                decoders = PB_DECODERS env noinit full;
                func = decoders ! unat lt;
                defaults = pb_message_set_to_defaults n env
            in map_option (\<lambda>(r, st1). (r, it, st1))
              (if at = PB_ATYPE_CALLBACK then decode_callback_field n env st wt it
               else if at \<noteq> PB_ATYPE_STATIC \<and> at \<noteq> PB_ATYPE_POINTER then dec_error st ''invalid field type''
               else if length decoders \<le> unat lt then None
               else if at = PB_ATYPE_STATIC then decode_static_field env func defaults st wt it
               else decode_pointer_field n env func defaults st wt it))"

section \<open>Extensions\<close>

definition default_extension_decoder ::
    "nat \<Rightarrow> 's dec_env \<Rightarrow> 's msg_decoder \<Rightarrow> 's msg_decoder \<Rightarrow> 's dstate \<Rightarrow> u64 \<Rightarrow> u32 \<Rightarrow> u32 \<Rightarrow> 's dresult" where
  "default_extension_decoder n env noinit full st ext t wt =
     (let m = snd st; fs = descs env (extension_type_arg m (extension_type m ext)) in
      if tag (field_at fs 0) \<noteq> t then Some (True, st)
      else
        let it = iter_from_extension env m ext;
            m1 = wr8 m (extension_found_addr ext) 1
        in map_option (\<lambda>(ok, it1, st1). (ok, st1)) (decode_field n env noinit full (fst st, m1) wt it))"

primrec decode_extension_loop ::
    "nat \<Rightarrow> nat \<Rightarrow> 's dec_env \<Rightarrow> 's msg_decoder \<Rightarrow> 's msg_decoder \<Rightarrow> u64 \<Rightarrow> 's dstate \<Rightarrow> u64 \<Rightarrow> u32 \<Rightarrow> u32 \<Rightarrow> 's dresult" where
  "decode_extension_loop 0 n env noinit full start_left st ext t wt =
     (if ext = 0 \<or> bytes_left (fst st) \<noteq> start_left then Some (True, st) else None)"
| "decode_extension_loop (Suc k) n env noinit full start_left st ext t wt =
     (if ext = 0 \<or> bytes_left (fst st) \<noteq> start_left then Some (True, st)
      else
        let dec = extension_type_decode (snd st) (extension_type (snd st) ext) in
        and_then (if dec \<noteq> 0 then Some (ext_decode env dec st ext t wt)
                  else default_extension_decoder n env noinit full st ext t wt)
          (\<lambda>st1. decode_extension_loop k n env noinit full start_left st1
                   (extension_next (snd st1) ext) t wt))"

definition decode_extension ::
    "nat \<Rightarrow> 's dec_env \<Rightarrow> 's msg_decoder \<Rightarrow> 's msg_decoder \<Rightarrow> 's dstate \<Rightarrow> u32 \<Rightarrow> u32 \<Rightarrow> pb_field_iter \<Rightarrow> 's dresult" where
  "decode_extension n env noinit full st t wt it =
     decode_extension_loop n n env noinit full (bytes_left (fst st)) st (rd64 (snd st) (pData it)) t wt"

primrec find_extension_loop :: "nat \<Rightarrow> nat \<Rightarrow> pb_field_iter \<Rightarrow> (bool \<times> pb_field_iter) option" where
  "find_extension_loop 0 start_pos it = None"
| "find_extension_loop (Suc n) start_pos it =
     (if PB_LTYPE (ftype (iter_field it)) = PB_LTYPE_EXTENSION then Some (True, it)
      else let it' = snd (pb_field_iter_next it) in
        if pos it' \<noteq> start_pos then find_extension_loop n start_pos it' else Some (False, it'))"

definition find_extension_field :: "pb_field_iter \<Rightarrow> (bool \<times> pb_field_iter) option" where
  "find_extension_field it = find_extension_loop (Suc (length (start it))) (pos it) it"

section \<open>Messages\<close>

text \<open>
  The local variables of \<open>pb_decode_noinit\<close> beside the stream. \<open>seen0\<close> and \<open>seen1\<close> are the two words
  of \<open>fields_seen\<close>; \<open>fixed_count_size\<close> itself is in memory, because \<open>iter.pSize\<close> may point to it.
\<close>

record noinit_vars =
  seen0 :: u32
  seen1 :: u32
  extension_range_start :: u32
  iter :: pb_field_iter
  fixed_count_field :: "nat option"

definition mark_seen :: "noinit_vars \<Rightarrow> noinit_vars" where
  "mark_seen v =
     (let idx = required_field_index (iter v); bit_word = push_bit (unat (idx AND 31)) 1 in
      if PB_HTYPE (ftype (iter_field (iter v))) = PB_HTYPE_REQUIRED \<and> idx < 64
      then (if drop_bit 5 idx = 0 then v\<lparr>seen0 := seen0 v OR bit_word\<rparr>
            else v\<lparr>seen1 := seen1 v OR bit_word\<rparr>)
      else v)"

text \<open>Whether the last fixed-count array received all its entries.\<close>

definition fixed_count_done :: "noinit_vars \<Rightarrow> u64 \<Rightarrow> mem \<Rightarrow> bool" where
  "fixed_count_done v cnt_addr m =
     (case fixed_count_field v of
        None \<Rightarrow> True
      | Some p \<Rightarrow> rd32 m cnt_addr = array_size (field_at (start (iter v)) p))"

text \<open>The part of the loop body after \<open>pb_field_iter_find\<close> found the field.\<close>

definition decode_found ::
    "nat \<Rightarrow> 's dec_env \<Rightarrow> 's msg_decoder \<Rightarrow> 's msg_decoder \<Rightarrow> u64 \<Rightarrow> u32 \<Rightarrow> noinit_vars \<Rightarrow> 's dstate \<Rightarrow>
     (bool \<times> noinit_vars \<times> 's dstate) option" where
  "decode_found n env noinit full cnt_addr wt v st =
     (let it = iter v; m = snd st;
          fixed = (PB_HTYPE (ftype (iter_field it)) = PB_HTYPE_REPEATED \<and> pSize it = pData it);
          switch = (fixed \<and> fixed_count_field v \<noteq> Some (pos it)) in
      if switch \<and> \<not> fixed_count_done v cnt_addr m
      then Some (False, v, (is_set_error (fst st) ''wrong size for fixed count field'', m))
      else
        let m1 = (if switch then wr32 m cnt_addr 0 else m);
            v1 = (if switch then v\<lparr>fixed_count_field := Some (pos it)\<rparr> else v);
            v2 = (if fixed then v1\<lparr>iter := it\<lparr>pSize := cnt_addr\<rparr>\<rparr> else v1);
            v3 = mark_seen v2
        in map_option (\<lambda>(ok, it1, st1). (ok, v3\<lparr>iter := it1\<rparr>, st1))
             (decode_field n env noinit full (fst st, m1) wt (iter v3)))"

text \<open>The part for a tag that no field has: an extension field, or data to skip.\<close>

definition decode_unknown ::
    "nat \<Rightarrow> 's dec_env \<Rightarrow> 's msg_decoder \<Rightarrow> 's msg_decoder \<Rightarrow> u32 \<Rightarrow> u32 \<Rightarrow> noinit_vars \<Rightarrow> 's dstate \<Rightarrow>
     (bool \<times> noinit_vars \<times> 's dstate) option" where
  "decode_unknown n env noinit full t wt v st =
     (let skip = (\<lambda>v st. map_option (\<lambda>(ok, st1). (ok, v, st1))
                           (read_only (pb_skip_field (fst st) wt) (snd st))) in
      if t < extension_range_start v then skip v st
      else (case find_extension_field (iter v) of
              None \<Rightarrow> None
            | Some (found, it1) \<Rightarrow>
                let range = (if found then tag (iter_field it1) else - 1);
                    v1 = v\<lparr>iter := it1, extension_range_start := range\<rparr> in
                if t < range then skip v1 st
                else (case decode_extension n env noinit full st t wt it1 of
                        None \<Rightarrow> None
                      | Some (ok, st1) \<Rightarrow>
                          if \<not> ok then Some (False, v1, st1)
                          else if bytes_left (fst st1) \<noteq> bytes_left (fst st) then Some (True, v1, st1)
                          else skip v1 st1)))"

text \<open>The loop over the message; each round reads a tag, so \<open>Suc bytes_left\<close> rounds are enough.\<close>

primrec noinit_loop ::
    "nat \<Rightarrow> nat \<Rightarrow> 's dec_env \<Rightarrow> 's msg_decoder \<Rightarrow> 's msg_decoder \<Rightarrow> u64 \<Rightarrow> noinit_vars \<Rightarrow> 's dstate \<Rightarrow>
     (bool \<times> noinit_vars \<times> 's dstate) option" where
  "noinit_loop 0 n env noinit full cnt_addr v st = None"
| "noinit_loop (Suc k) n env noinit full cnt_addr v st =
     (if bytes_left (fst st) = 0 then Some (True, v, st)
      else (case pb_decode_tag (fst st) of
              None \<Rightarrow> None
            | Some (t, s1) \<Rightarrow>
                if \<not> tag_ok t then Some (tag_eof t, v, (s1, snd st))
                else (case pb_field_iter_find (iter v) (tag_number t) of
                        None \<Rightarrow> None
                      | Some (found, it1) \<Rightarrow>
                          (case (if found
                                 then decode_found n env noinit full cnt_addr (wire_type t)
                                        (v\<lparr>iter := it1\<rparr>) (s1, snd st)
                                 else decode_unknown n env noinit full (tag_number t) (wire_type t)
                                        (v\<lparr>iter := it1\<rparr>) (s1, snd st)) of
                             None \<Rightarrow> None
                           | Some (ok, v1, st1) \<Rightarrow>
                               if \<not> ok then Some (False, v1, st1)
                               else noinit_loop k n env noinit full cnt_addr v1 st1))))"

text \<open>The number of required fields, by running the iterator to the end of the array.\<close>

function count_required :: "pb_field_iter \<Rightarrow> u32" where
  "count_required it =
     (if fst (pb_field_iter_next it) then count_required (snd (pb_field_iter_next it))
      else if PB_HTYPE (ftype (iter_field it)) = PB_HTYPE_REQUIRED \<and>
              tag (iter_field (snd (pb_field_iter_next it))) \<noteq> 0
      then required_field_index it + 1 else required_field_index it)"
  by pat_completeness auto
termination
proof (relation "measure (\<lambda>it. length (start it) - pos it)")
  fix it :: pb_field_iter
  assume "fst (pb_field_iter_next it)"
  then obtain it' where "pb_field_iter_next it = (True, it')"
    by (cases "pb_field_iter_next it") simp
  with iter_next_True [OF this]
  show "(snd (pb_field_iter_next it), it) \<in> measure (\<lambda>it. length (start it) - pos it)"
    by (auto intro: diff_less_mono2)
qed simp

declare count_required.simps [simp del]

definition required_seen :: "u32 \<Rightarrow> u32 \<Rightarrow> u32 \<Rightarrow> bool" where
  "required_seen cnt0 w0 w1 =
     (let cnt = (if 64 < cnt0 then 64 else cnt0); allbits = - 1 :: u32; words = drop_bit 5 cnt;
          rest = cnt AND 31 in
      (0 < words \<longrightarrow> w0 = allbits) \<and> (1 < words \<longrightarrow> w1 = allbits) \<and>
      (rest \<noteq> 0 \<longrightarrow> (if words = 0 then w0 else w1) = drop_bit (unat (32 - rest)) allbits))"

primrec pb_decode_noinit :: "nat \<Rightarrow> 's dec_env \<Rightarrow> 's msg_decoder" where
  "pb_decode_noinit 0 env st fs dest = None"
| "pb_decode_noinit (Suc n) env st fs dest =
     (let noinit = pb_decode_noinit n env;
          full = (\<lambda>st fs dest.
            case pb_message_set_to_defaults n env fs dest (snd st) of
              None \<Rightarrow> None
            | Some m1 \<Rightarrow>
                (case noinit (fst st, m1) fs dest of
                   None \<Rightarrow> None
                 | Some (status, (s2, m2)) \<Rightarrow>
                     if status then Some (True, (s2, m2))
                     else map_option (\<lambda>m3. (False, (s2, m3))) (pb_release n env fs dest m2)));
          cnt_addr = frame_addr env n;
          v0 = \<lparr>seen0 = 0, seen1 = 0, extension_range_start = 0,
                iter = snd (pb_field_iter_begin fs dest), fixed_count_field = None\<rparr>
      in case noinit_loop (Suc (unat (bytes_left (fst st)))) n env noinit full cnt_addr v0
                (fst st, wr32 (snd st) cnt_addr 0) of
           None \<Rightarrow> None
         | Some (ok, v, st1) \<Rightarrow>
             if \<not> ok then Some (False, st1)
             else if \<not> fixed_count_done v cnt_addr (snd st1)
             then dec_error st1 ''wrong size for fixed count field''
             else if \<not> required_seen (count_required (iter v)) (seen0 v) (seen1 v)
             then dec_error st1 ''missing required field''
             else Some (True, st1))"

definition pb_decode :: "nat \<Rightarrow> 's dec_env \<Rightarrow> 's msg_decoder" where
  "pb_decode n env st fs dest =
     (case pb_message_set_to_defaults n env fs dest (snd st) of
        None \<Rightarrow> None
      | Some m1 \<Rightarrow>
          (case pb_decode_noinit n env (fst st, m1) fs dest of
             None \<Rightarrow> None
           | Some (status, (s2, m2)) \<Rightarrow>
               if status then Some (True, (s2, m2))
               else map_option (\<lambda>m3. (False, (s2, m3))) (pb_release n env fs dest m2)))"

lemma pb_decode_noinit_full:
  "pb_decode_noinit (Suc n) env st fs dest =
     (let cnt_addr = frame_addr env n;
          v0 = \<lparr>seen0 = 0, seen1 = 0, extension_range_start = 0,
                iter = snd (pb_field_iter_begin fs dest), fixed_count_field = None\<rparr>
      in case noinit_loop (Suc (unat (bytes_left (fst st)))) n env (pb_decode_noinit n env)
                (pb_decode n env) cnt_addr v0 (fst st, wr32 (snd st) cnt_addr 0) of
           None \<Rightarrow> None
         | Some (ok, v, st1) \<Rightarrow>
             if \<not> ok then Some (False, st1)
             else if \<not> fixed_count_done v cnt_addr (snd st1)
             then dec_error st1 ''wrong size for fixed count field''
             else if \<not> required_seen (count_required (iter v)) (seen0 v) (seen1 v)
             then dec_error st1 ''missing required field''
             else Some (True, st1))"
  unfolding pb_decode_noinit.simps pb_decode_def [abs_def] Let_def ..

definition pb_decode_delimited_noinit :: "nat \<Rightarrow> 's dec_env \<Rightarrow> 's msg_decoder" where
  "pb_decode_delimited_noinit n env st fs dest =
     (case pb_make_string_substream (fst st) of
        None \<Rightarrow> None
      | Some (None, s1) \<Rightarrow> Some (False, (s1, snd st))
      | Some (Some sub, s1) \<Rightarrow>
          (case pb_decode_noinit n env (sub, snd st) fs dest of
             None \<Rightarrow> None
           | Some (status, (sub1, m1)) \<Rightarrow> close_and_return (s1, m1) sub1 status))"

definition pb_decode_delimited :: "nat \<Rightarrow> 's dec_env \<Rightarrow> 's msg_decoder" where
  "pb_decode_delimited n env st fs dest =
     (case pb_make_string_substream (fst st) of
        None \<Rightarrow> None
      | Some (None, s1) \<Rightarrow> Some (False, (s1, snd st))
      | Some (Some sub, s1) \<Rightarrow>
          (case pb_decode n env (sub, snd st) fs dest of
             None \<Rightarrow> None
           | Some (status, (sub1, m1)) \<Rightarrow> close_and_return (s1, m1) sub1 status))"

definition pb_decode_nullterminated :: "nat \<Rightarrow> 's dec_env \<Rightarrow> 's msg_decoder" where
  "pb_decode_nullterminated n env st fs dest = pb_decode n env st fs dest"

end
