(* ===== verification/Nanopb_Istream_Props.thy ===== *)
theory Nanopb_Istream_Props
  imports Nanopb_Istream Nanopb_Encode_Props
begin

text \<open>
  What the primitive decoders guarantee on a buffer stream: they return what the encoder wrote and
  move the stream by exactly the bytes of it, and on any input they never read outside the buffer.
\<close>

section \<open>Buffer streams\<close>

text \<open>\<open>ibuf s src\<close>: \<open>s\<close> reads from the buffer \<open>src\<close>, which holds all the bytes still to be read.\<close>


definition ibuf :: "'s pb_istream \<Rightarrow> u8 list \<Rightarrow> bool" where
  "ibuf s src \<longleftrightarrow> is_callback s = IBufRead \<and> is_state s = IBuf src \<and> unat (bytes_left s) \<le> length src"

definition advance :: "'s pb_istream \<Rightarrow> u8 list \<Rightarrow> nat \<Rightarrow> 's pb_istream" where
  "advance s src n = s\<lparr>is_state := IBuf (drop n src), bytes_left := bytes_left s - of_nat n\<rparr>"

lemma unat_left_advance:
  "n \<le> unat (bytes_left s) \<Longrightarrow> unat (bytes_left s - of_nat n) = unat (bytes_left s) - n"
proof -
  assume a: "n \<le> unat (bytes_left s)"
  have "unat (bytes_left s) < 2 ^ 64" by simp
  with a have "unat (of_nat n :: u64) = n" by (intro unat_of_nat_u64) (rule le_less_trans)
  with a show ?thesis by (simp add: unat_sub_u64)
qed

lemma advance_ibuf: "ibuf s src \<Longrightarrow> n \<le> unat (bytes_left s) \<Longrightarrow> ibuf (advance s src n) (drop n src)"
  by (auto simp: ibuf_def advance_def unat_left_advance)

lemma advance_advance:
  "advance (advance s src a) (drop a src) b = advance s src (a + b)"
  by (simp add: advance_def add.commute)

lemma advance_left: "n \<le> unat (bytes_left s) \<Longrightarrow> unat (bytes_left (advance s src n)) = unat (bytes_left s) - n"
  by (simp add: advance_def unat_left_advance)

lemma pb_readbyte_buf:
  assumes "ibuf s src"
  shows "pb_readbyte s = (if bytes_left s = 0 then Some (None, is_set_error s ''end-of-stream'')
     else Some (Some (hd src), advance s src 1))"
proof (cases "bytes_left s = 0")
  case False
  then have "0 < unat (bytes_left s)" by (simp add: unat_gt_0)
  with assms obtain b rest where "src = b # rest" by (cases src) (auto simp: ibuf_def)
  with assms False show ?thesis
    by (simp add: pb_readbyte_def call_icallback_def buf_read_def ibuf_def advance_def)
qed (simp add: pb_readbyte_def)

lemma pb_read_buf:
  assumes "ibuf s src"
  shows "pb_read s n = (if bytes_left s < n then Some (False, [], is_set_error s ''end-of-stream'')
     else Some (True, take (unat n) src, advance s src (unat n)))"
proof (cases "n = 0")
  case True
  with assms show ?thesis by (simp add: pb_read_def advance_def ibuf_def)
next
  case False
  with assms show ?thesis
    by (auto simp: pb_read_def call_icallback_def buf_read_def ibuf_def advance_def word_less_nat_alt not_less)
qed

section \<open>Bits and bytes\<close>

section \<open>Varints on a buffer\<close>

lemma u64_7F_byte: "(ucast ((b :: u8) AND 0x7F) :: 'a::len word) = of_nat (unat b mod 128)"
proof -
  have "(ucast (b AND 0x7F) :: 'a word) = of_nat (unat (b AND 0x7F))" by simp
  then show ?thesis by (simp only: unat_and_7F)
qed

lemma of_nat_leb_step:
  "(of_nat (a mod 128 + 128 * x) :: 'a::len word) = of_nat (a mod 128) OR push_bit 7 (of_nat x)"
proof -
  have "a mod 128 + 128 * x = (a mod 128) OR push_bit 7 x"
    using nat_or_shift [of "a mod 128" 7 x] by (simp add: mult.commute)
  then have "(of_nat (a mod 128 + 128 * x) :: 'a word) = of_nat ((a mod 128) OR push_bit 7 x)" by simp
  also have "\<dots> = of_nat (a mod 128) OR push_bit 7 (of_nat x)"
    by (simp only: of_nat_or_eq of_nat_push_bit)
  finally show ?thesis .
qed

lemma ibuf_Cons: "ibuf s (b # rest) \<Longrightarrow> bytes_left s \<noteq> 0 \<Longrightarrow> ibuf (advance s (b # rest) 1) rest"
  using advance_ibuf [of s "b # rest" 1] by (simp add: unat_gt_0 Suc_le_eq)

lemma left_advance_1: "bytes_left s \<noteq> 0 \<Longrightarrow> unat (bytes_left (advance s src 1)) = unat (bytes_left s) - 1"
  using advance_left [of 1 s src] by (simp add: unat_gt_0 Suc_le_eq)

lemma bitpos_lt: "k \<le> 36 \<Longrightarrow> unat (of_nat (7 * k) :: u8) = 7 * k"
  by (rule unat_of_nat_eq) simp

lemma varint_decode_loop_bytes:
  assumes "list_all (\<lambda>b. 128 \<le> unat b) cs" and "unat b < 128"
    and "ibuf s (cs @ b # rest)" and "length cs < unat (bytes_left s)" and "k + length cs \<le> 9"
  shows "varint_decode_loop s (of_nat (7 * k)) r =
    Some (Some (r OR push_bit (7 * k) (of_nat (leb128 (cs @ [b])))),
      advance s (cs @ b # rest) (Suc (length cs)))"
  using assms
proof (induction cs arbitrary: s k r)
  case Nil
  have p: "unat (of_nat (7 * k) :: u8) = 7 * k" using Nil by (intro bitpos_lt) simp
  have "bytes_left s \<noteq> 0" using Nil by auto
  with Nil p show ?case
    by (subst varint_decode_loop.simps)
       (simp add: pb_readbyte_buf word_le_nat_alt byte_and_80 u64_7F_byte)
next
  case (Cons c cs)
  let ?s = "advance s (c # cs @ b # rest) 1"
  have p: "unat (of_nat (7 * k) :: u8) = 7 * k" using Cons.prems by (intro bitpos_lt) simp
  have n: "bytes_left s \<noteq> 0" using Cons.prems by auto
  have ok: "ibuf ?s (cs @ b # rest)" using Cons.prems n by (intro ibuf_Cons) simp_all
  have l: "length cs < unat (bytes_left ?s)"
    using Cons.prems left_advance_1 [OF n, of "c # cs @ b # rest"] by simp
  have "varint_decode_loop s (of_nat (7 * k)) r =
      varint_decode_loop ?s (of_nat (7 * k) + 7) (r OR push_bit (7 * k) (of_nat (unat c mod 128)))"
    using Cons.prems n p
    by (subst varint_decode_loop.simps)
       (simp add: pb_readbyte_buf word_le_nat_alt byte_and_80 u64_7F_byte not_less)
  also have "of_nat (7 * k) + 7 = (of_nat (7 * Suc k) :: u8)" by simp
  also have "varint_decode_loop ?s \<dots> (r OR push_bit (7 * k) (of_nat (unat c mod 128))) =
      Some (Some ((r OR push_bit (7 * k) (of_nat (unat c mod 128))) OR
          push_bit (7 * Suc k) (of_nat (leb128 (cs @ [b])))),
        advance ?s (cs @ b # rest) (Suc (length cs)))"
    by (rule Cons.IH) (use Cons.prems ok l in simp_all)
  also have "(r OR push_bit (7 * k) (of_nat (unat c mod 128))) OR
      push_bit (7 * Suc k) (of_nat (leb128 (cs @ [b]))) =
      r OR push_bit (7 * k) (of_nat (leb128 ((c # cs) @ [b])) :: u64)"
    by (simp only: append_Cons leb128.simps of_nat_leb_step push_or push_bit_push_bit or.assoc mult_Suc_right add.commute)
  also have "advance ?s (cs @ b # rest) (Suc (length cs)) =
      advance s ((c # cs) @ b # rest) (Suc (length (c # cs)))"
    using advance_advance [of s "c # cs @ b # rest" 1 "Suc (length cs)"] by simp
  finally show ?case .
qed


lemma varint32_loop_bytes:
  assumes "list_all (\<lambda>b. 128 \<le> unat b) cs" and "unat b < 128"
    and "ibuf s (cs @ b # rest)" and "length cs < unat (bytes_left s)"
    and "1 \<le> k" and "k + length cs \<le> 4" and "k + length cs = 4 \<longrightarrow> unat b < 16"
  shows "varint32_loop s (of_nat (7 * k)) r =
    Some (Some (r OR push_bit (7 * k) (of_nat (leb128 (cs @ [b])))),
      advance s (cs @ b # rest) (Suc (length cs)))"
  using assms
proof (induction cs arbitrary: s k r)
  case Nil
  have p: "unat (of_nat (7 * k) :: u8) = 7 * k" using Nil by (intro bitpos_lt) simp
  have p1: "(of_nat (7 * k) = (28 :: u8)) \<longleftrightarrow> k = 4"
    unfolding word_unat_eq_iff p by simp
  have b16: "unat b < 16 \<Longrightarrow> b AND 0x70 = 0"
  proof -
    assume "unat b < 16"
    then have "take_bit 4 b = b" by (intro take_bit_self) simp
    then have "b AND 0x70 = take_bit 4 b AND 0x70" by simp
    also have "\<dots> = b AND take_bit 4 0x70"
      by (simp add: take_bit_eq_mask and.assoc and.left_commute and.commute)
    finally show ?thesis by simp
  qed
  have "bytes_left s \<noteq> 0" using Nil by auto
  with Nil p b16 show ?case
    by (subst varint32_loop.simps)
       (simp add: pb_readbyte_buf word_le_nat_alt byte_and_80 u64_7F_byte Let_def p1 [simplified] not_le)
next
  case (Cons c cs)
  let ?s = "advance s (c # cs @ b # rest) 1"
  have p: "unat (of_nat (7 * k) :: u8) = 7 * k" using Cons.prems by (intro bitpos_lt) simp
  have n: "bytes_left s \<noteq> 0" using Cons.prems by auto
  have ok: "ibuf ?s (cs @ b # rest)" using Cons.prems n by (intro ibuf_Cons) simp_all
  have l: "length cs < unat (bytes_left ?s)"
    using Cons.prems left_advance_1 [OF n, of "c # cs @ b # rest"] by simp
  have "varint32_loop s (of_nat (7 * k)) r =
      varint32_loop ?s (of_nat (7 * k) + 7) (r OR push_bit (7 * k) (of_nat (unat c mod 128)))"
    using Cons.prems n p
    by (subst varint32_loop.simps)
       (simp add: pb_readbyte_buf word_le_nat_alt byte_and_80 u64_7F_byte not_less not_le Let_def)
  also have "of_nat (7 * k) + 7 = (of_nat (7 * Suc k) :: u8)" by simp
  also have "varint32_loop ?s \<dots> (r OR push_bit (7 * k) (of_nat (unat c mod 128))) =
      Some (Some ((r OR push_bit (7 * k) (of_nat (unat c mod 128))) OR
          push_bit (7 * Suc k) (of_nat (leb128 (cs @ [b])))),
        advance ?s (cs @ b # rest) (Suc (length cs)))"
    by (rule Cons.IH) (use Cons.prems ok l in simp_all)
  also have "(r OR push_bit (7 * k) (of_nat (unat c mod 128))) OR
      push_bit (7 * Suc k) (of_nat (leb128 (cs @ [b]))) =
      r OR push_bit (7 * k) (of_nat (leb128 ((c # cs) @ [b])) :: u32)"
    by (simp only: append_Cons leb128.simps of_nat_leb_step push_or push_bit_push_bit or.assoc mult_Suc_right add.commute)
  also have "advance ?s (cs @ b # rest) (Suc (length cs)) =
      advance s ((c # cs) @ b # rest) (Suc (length (c # cs)))"
    using advance_advance [of s "c # cs @ b # rest" 1 "Suc (length cs)"] by simp
  finally show ?case .
qed


lemma pb_decode_varint_bytes:
  assumes "list_all (\<lambda>b. 128 \<le> unat b) cs" and "unat b < 128"
    and "ibuf s (cs @ b # rest)" and "length cs < unat (bytes_left s)" and "length cs \<le> 9"
  shows "pb_decode_varint s =
    Some (Some (of_nat (leb128 (cs @ [b]))), advance s (cs @ b # rest) (Suc (length cs)))"
  using varint_decode_loop_bytes [of cs b s rest 0 0] assms by (simp add: pb_decode_varint_def)

lemma varint_bytes_split:
  obtains cs b where "varint_bytes v = cs @ [b]" and "list_all (\<lambda>b. 128 \<le> unat b) cs"
    and "unat b < 128"
  using varint_bytes_shape [of v] that [of "butlast (varint_bytes v)" "last (varint_bytes v)"] by simp

lemma length_varint_le_10: "length (varint_bytes v) \<le> 10"
proof -
  have "unat v < 18446744073709551616" by simp
  then have "unat v < 128 ^ 10" by (rule less_trans) simp
  from length_varint_bytes [OF this] show ?thesis by simp
qed

lemma decode_varint_encoded:
  assumes "ibuf s (varint_bytes v @ rest)" and "length (varint_bytes v) \<le> unat (bytes_left s)"
  shows "pb_decode_varint s = Some (Some v, advance s (varint_bytes v @ rest) (length (varint_bytes v)))"
proof -
  obtain cs b where e: "varint_bytes v = cs @ [b]" and a: "list_all (\<lambda>b. 128 \<le> unat b) cs" "unat b < 128"
    by (rule varint_bytes_split)
  have "leb128 (cs @ [b]) = unat v" using leb128_varint_bytes [of v] e by simp
  then show ?thesis
    using pb_decode_varint_bytes [OF a, of s rest] assms length_varint_le_10 [of v] e by simp
qed

lemma leb128_append: "leb128 (xs @ ys) = leb128 xs + 128 ^ length xs * leb128 ys"
  by (induction xs) (simp_all add: algebra_simps)

lemma length_varint32: "length (varint_bytes (ucast (v :: u32))) \<le> 5"
proof -
  have "unat v < 4294967296" by simp
  then have "unat (ucast v :: u64) < 128 ^ 5" unfolding unat_ucast_u32 by (rule less_trans) simp
  from length_varint_bytes [OF this] show ?thesis by simp
qed

lemma decode_varint32_eof_encoded:
  assumes "ibuf s (varint_bytes (ucast v) @ rest)"
    and "length (varint_bytes (ucast v)) \<le> unat (bytes_left s)"
  shows "pb_decode_varint32_eof s =
    Some (False, Some v, advance s (varint_bytes (ucast v) @ rest) (length (varint_bytes (ucast v))))"
proof -
  obtain cs b where e: "varint_bytes (ucast v) = cs @ [b]"
    and a: "list_all (\<lambda>b. 128 \<le> unat b) cs" "unat b < 128"
    by (rule varint_bytes_split)
  have v: "leb128 (cs @ [b]) = unat v"
    using leb128_varint_bytes [of "ucast v"] e by (simp add: unat_ucast_u32)
  have len: "length cs \<le> 4" using length_varint32 [of v] e by simp
  show ?thesis
  proof (cases cs)
    case Nil
    from a v have u: "unat b = unat v" unfolding Nil by simp
    have "(ucast b :: u32) = v"
      by (rule unsigned_word_eqI [where 'a = nat]) (simp add: unat_ucast_8_32 u)
    with assms e a Nil show ?thesis
      by (auto simp: pb_decode_varint32_eof_def pb_readbyte_buf byte_and_80 unat_gt_0)
  next
    case (Cons c ds)
    let ?s = "advance s (c # ds @ b # rest) 1"
    have n: "bytes_left s \<noteq> 0" using assms e Cons by auto
    have ok: "ibuf ?s (ds @ b # rest)" using assms e Cons n by (intro ibuf_Cons) simp_all
    have l: "length ds < unat (bytes_left ?s)"
      using assms e Cons left_advance_1 [OF n, of "c # ds @ b # rest"] by simp
    have b16: "unat b < 16" if "length ds = 3"
    proof -
      have "128 ^ 4 * unat b \<le> leb128 (cs @ [b])"
        using a(2) that by (simp add: leb128_append Cons)
      then have "128 ^ 4 * unat b \<le> unat v" unfolding v .
      also have "\<dots> < 4294967296" by simp
      finally show ?thesis by simp
    qed
    have r: "varint32_loop ?s (of_nat (7 * 1)) (ucast (c AND 0x7F)) =
        Some (Some (ucast (c AND 0x7F) OR push_bit (7 * 1) (of_nat (leb128 (ds @ [b])))),
          advance ?s (ds @ b # rest) (Suc (length ds)))"
      by (rule varint32_loop_bytes) (use a Cons ok l len b16 in simp_all)
    have "(ucast (c AND 0x7F) OR push_bit 7 (of_nat (leb128 (ds @ [b])))) = (of_nat (leb128 (cs @ [b])) :: u32)"
      by (simp only: Cons append_Cons leb128.simps of_nat_leb_step u64_7F_byte)
    also have "\<dots> = v" unfolding v by simp
    finally have r2: "varint32_loop ?s 7 (ucast (c AND 0x7F)) =
        Some (Some v, advance s (varint_bytes (ucast v) @ rest) (length (varint_bytes (ucast v))))"
      using r e Cons advance_advance [of s "c # ds @ b # rest" 1 "Suc (length ds)"] by simp
    have "pb_decode_varint32_eof s = map_option (\<lambda>(v, s2). (False, v, s2)) (varint32_loop ?s 7 (ucast (c AND 0x7F)))"
      using assms e a Cons n by (simp add: pb_decode_varint32_eof_def pb_readbyte_buf byte_and_80 not_less)
    then show ?thesis unfolding r2 by simp
  qed
qed

lemma decode_varint32_encoded:
  assumes "ibuf s (varint_bytes (ucast v) @ rest)"
    and "length (varint_bytes (ucast v)) \<le> unat (bytes_left s)"
  shows "pb_decode_varint32 s =
    Some (Some v, advance s (varint_bytes (ucast v) @ rest) (length (varint_bytes (ucast v))))"
  using decode_varint32_eof_encoded [OF assms] by (simp add: pb_decode_varint32_def)


lemma sless_0_bit: "((v :: u64) <s 0) \<longleftrightarrow> bit v 63"
  using bit_last_iff [of v] by (simp add: word_sless_alt)

lemma bit_twice: "bit ((v :: u64) * 2) (Suc i) \<longleftrightarrow> Suc i < 64 \<and> bit v i"
proof -
  have "v * 2 = push_bit 1 v" by simp
  then show ?thesis by (simp only: bit_push_bit_iff) auto
qed

lemma unzigzag_zigzag: "unzigzag (zigzag v) = v"
proof (cases "bit v 63")
  case True
  have "bit (zigzag v) 0" using True by (simp add: zigzag_def sless_0_bit bit_not_iff bit_0)
  then have "zigzag v AND 1 \<noteq> 0" by (simp add: and_one_eq bit_0 odd_iff_mod_2_eq_one)
  moreover have "NOT (drop_bit 1 (zigzag v)) = v"
  proof (rule bit_word_eqI)
    fix i assume "i < LENGTH(64)"
    then have "i < 63 \<or> i = 63" by auto
    then show "bit (NOT (drop_bit 1 (zigzag v))) i = bit v i"
      using True by (auto simp: zigzag_def sless_0_bit bit_not_iff bit_twice bit_drop_bit_eq)
  qed
  ultimately show ?thesis by (simp add: unzigzag_def)
next
  case False
  have "\<not> bit (zigzag v) 0" using False by (simp add: zigzag_def sless_0_bit bit_0)
  then have "zigzag v AND 1 = 0" by (simp add: and_one_eq bit_0 odd_iff_mod_2_eq_one)
  moreover have "drop_bit 1 (zigzag v) = v"
  proof (rule bit_word_eqI)
    fix i assume "i < LENGTH(64)"
    then have "i < 63 \<or> i = 63" by auto
    then show "bit (drop_bit 1 (zigzag v)) i = bit v i"
      using False by (auto simp: zigzag_def sless_0_bit bit_twice bit_drop_bit_eq)
  qed
  ultimately show ?thesis by (simp add: unzigzag_def)
qed

lemma byte_of_drop: "(ucast (drop_bit n (v :: 'a::len word) AND 0xFF) :: u8) = of_nat (unat v div 2 ^ n mod 256)"
proof (rule unsigned_word_eqI [where 'a = nat])
  have m: "(0xFF :: 'a word) = mask 8" by (simp add: mask_eq_exp_minus_1)
  show "unat (ucast (drop_bit n v AND 0xFF) :: u8) = unat (of_nat (unat v div 2 ^ n mod 256) :: u8)"
    unfolding m take_bit_eq_mask [symmetric]
    by (simp add: unat_ucast_mod unat_take_bit unat_drop_bit unat_of_nat)
qed

lemma byte_of_drop_0: "(ucast ((v :: 'a::len word) AND 0xFF) :: u8) = of_nat (unat v mod 256)"
  using byte_of_drop [of 0 v] by simp


lemma div_div_256: "(n :: nat) div 256 div 256 = n div 2 ^ 16"
  by (simp add: div_mult2_eq [symmetric])

lemma fixed32_bytes_le: "fixed32_bytes v = le_bytes 4 (unat v)"
proof -
  have n: "(4 :: nat) = Suc (Suc (Suc (Suc 0)))" by simp
  show ?thesis
    unfolding n le_bytes.simps
    unfolding fixed32_bytes_def byte_of_drop
    unfolding byte_of_drop_0
    by (simp add: div_mult2_eq [symmetric])
qed

lemma fixed64_bytes_le: "fixed64_bytes v = le_bytes 8 (unat v)"
proof -
  have n: "(8 :: nat) = Suc (Suc (Suc (Suc (Suc (Suc (Suc (Suc 0)))))))" by simp
  show ?thesis
    unfolding n le_bytes.simps
    unfolding fixed64_bytes_def byte_of_drop
    unfolding byte_of_drop_0
    by (simp add: div_mult2_eq [symmetric])
qed

lemma of_nat_of_le_step:
  "(of_nat (of_le (b # bs)) :: 'a::len word) = ucast b OR push_bit 8 (of_nat (of_le bs))"
proof -
  have "of_le (b # bs) = unat b OR push_bit 8 (of_le bs)"
    using nat_or_shift [of "unat b" 8 "of_le bs"] by simp
  then have "(of_nat (of_le (b # bs)) :: 'a word) = of_nat (unat b OR push_bit 8 (of_le bs))" by simp
  then show ?thesis by (simp only: of_nat_or_eq of_nat_push_bit) simp
qed

lemma fixed32_of_le: "length bs = 4 \<Longrightarrow> fixed32_of bs = of_nat (of_le bs)"
proof -
  assume "length bs = 4"
  then obtain a b c d where bs: "bs = [a, b, c, d]"
    by (auto simp: eval_nat_numeral length_Suc_conv)
  show ?thesis
    unfolding bs by (simp only: of_nat_of_le_step push_or push_bit_push_bit) (simp add: fixed32_of_def)
qed

lemma fixed64_of_le: "length bs = 8 \<Longrightarrow> fixed64_of bs = of_nat (of_le bs)"
proof -
  assume "length bs = 8"
  then obtain a b c d e f g h where bs: "bs = [a, b, c, d, e, f, g, h]"
    by (auto simp: eval_nat_numeral length_Suc_conv)
  show ?thesis
    unfolding bs by (simp only: of_nat_of_le_step push_or push_bit_push_bit) (simp add: fixed64_of_def)
qed

section \<open>Codecs\<close>

text \<open>Reading a sequence of values, as the packed-array loops do on a substream.\<close>

primrec read_list :: "('s pb_istream \<Rightarrow> ('v, 's) vres) \<Rightarrow> nat \<Rightarrow> 's pb_istream \<Rightarrow> ('v list, 's) vres" where
  "read_list dec 0 s = Some (Some [], s)"
| "read_list dec (Suc n) s =
     val_then (dec s) (\<lambda>v s1. val_then (read_list dec n s1) (\<lambda>vs s2. Some (Some (v # vs), s2)))"

lemma advance_0: "ibuf s src \<Longrightarrow> advance s src 0 = s"
  by (simp add: advance_def ibuf_def)

text \<open>
  What a value reader promises its callers: on the bytes of its writer it returns the value and
  consumes exactly those bytes.
\<close>

locale stream_codec =
  fixes enc :: "'v \<Rightarrow> u8 list" and dec :: "'s pb_istream \<Rightarrow> ('v, 's) vres"
  assumes decode_encoded:
      "ibuf s (enc v @ rest) \<Longrightarrow> length (enc v) \<le> unat (bytes_left s) \<Longrightarrow>
       dec s = Some (Some v, advance s (enc v @ rest) (length (enc v)))"
    and short: "length (enc v) \<le> 16"
    and nonempty: "enc v \<noteq> []"
begin

lemma prefix_free:
  assumes "enc a @ x = enc b @ y"
  shows "a = b \<and> x = y"
proof -
  let ?n = "max (length (enc a)) (length (enc b))"
  have n: "?n \<le> 16" using short [of a] short [of b] by simp
  then have u: "unat (of_nat ?n :: u64) = ?n" by (intro unat_of_nat_u64) simp
  define s :: "'s pb_istream" where "s = pb_istream_from_buffer (enc a @ x) (of_nat ?n)"
  have "?n \<le> length (enc a @ x)"
    using assms by (metis length_append le_add1 max.bounded_iff)
  then have ok: "ibuf s (enc a @ x)"
    using u by (simp only: s_def ibuf_def pb_istream_from_buffer_def pb_istream.simps simp_thms)
  have l: "unat (bytes_left s) = ?n" using u by (simp add: s_def pb_istream_from_buffer_def)
  have "dec s = Some (Some a, advance s (enc a @ x) (length (enc a)))"
    using ok l by (intro decode_encoded) simp_all
  moreover have "dec s = Some (Some b, advance s (enc b @ y) (length (enc b)))"
    using ok l assms by (intro decode_encoded) simp_all
  ultimately have "a = b" by simp
  with assms show ?thesis by simp
qed

lemma concat_eq_iff: "concat (map enc xs) = concat (map enc ys) \<longleftrightarrow> xs = ys"
proof
  show "concat (map enc xs) = concat (map enc ys) \<Longrightarrow> xs = ys"
  proof (induction xs arbitrary: ys)
    case Nil
    then show ?case using nonempty by (cases ys) auto
  next
    case (Cons x xs)
    then obtain y ys' where ys: "ys = y # ys'" using nonempty by (cases ys) auto
    with Cons.prems have "enc x @ concat (map enc xs) = enc y @ concat (map enc ys')" by simp
    from prefix_free [OF this] Cons.IH ys show ?case by simp
  qed
qed simp

lemma list_decode_encoded:
  assumes "ibuf s (concat (map enc vs) @ rest)"
    and "length (concat (map enc vs)) \<le> unat (bytes_left s)"
  shows "read_list dec (length vs) s =
    Some (Some vs, advance s (concat (map enc vs) @ rest) (length (concat (map enc vs))))"
  using assms
proof (induction vs arbitrary: s)
  case Nil
  then show ?case by (simp add: advance_0)
next
  case (Cons v vs)
  let ?t = "concat (map enc vs) @ rest"
  let ?s = "advance s (enc v @ ?t) (length (enc v))"
  have ok: "ibuf s (enc v @ ?t)" and l: "length (enc v) \<le> unat (bytes_left s)"
    using Cons.prems by simp_all
  have "ibuf ?s ?t" using advance_ibuf [OF ok l] by simp
  moreover have "length (concat (map enc vs)) \<le> unat (bytes_left ?s)"
    using Cons.prems advance_left [OF l] by simp
  ultimately have "read_list dec (length vs) ?s = Some (Some vs, advance ?s ?t (length (concat (map enc vs))))"
    by (rule Cons.IH)
  moreover have "advance ?s ?t (length (concat (map enc vs))) =
      advance s (concat (map enc (v # vs)) @ rest) (length (concat (map enc (v # vs))))"
    using advance_advance [of s "enc v @ ?t" "length (enc v)"] by simp
  moreover have "dec s = Some (Some v, ?s)" using ok l by (rule decode_encoded)
  ultimately show ?case by (simp add: val_then_def)
qed

end

lemma read_fixed_bytes:
  assumes "ibuf s (bs @ rest)" and "length bs \<le> unat (bytes_left s)" and "length bs < 2 ^ 64"
  shows "pb_read s (of_nat (length bs)) = Some (True, bs, advance s (bs @ rest) (length bs))"
proof -
  have u: "unat (of_nat (length bs) :: u64) = length bs" by (rule unat_of_nat_u64) (rule assms(3))
  then have "\<not> bytes_left s < of_nat (length bs)" using assms(2) by (simp only: word_less_nat_alt not_less)
  then show ?thesis using pb_read_buf [OF assms(1), of "of_nat (length bs)"] u by simp
qed

interpretation varint: stream_codec varint_bytes pb_decode_varint
  by unfold_locales (rule decode_varint_encoded, assumption+, rule order_trans, rule length_varint_le_10,
      simp, rule conjunct1 [OF varint_bytes_shape])

interpretation varint32: stream_codec "\<lambda>v. varint_bytes (ucast (v :: u32))" pb_decode_varint32
  by unfold_locales (rule decode_varint32_encoded, assumption+, rule order_trans, rule length_varint32,
      simp, rule conjunct1 [OF varint_bytes_shape])

interpretation svarint: stream_codec "\<lambda>v. varint_bytes (zigzag v)" pb_decode_svarint
proof
  show "pb_decode_svarint s = Some (Some v, advance s (varint_bytes (zigzag v) @ rest) (length (varint_bytes (zigzag v))))"
    if "ibuf s (varint_bytes (zigzag v) @ rest)" "length (varint_bytes (zigzag v)) \<le> unat (bytes_left s)"
    for s :: "'a pb_istream" and v rest
    using varint.decode_encoded [OF that] by (simp add: pb_decode_svarint_def val_then_def unzigzag_zigzag)
  show "length (varint_bytes (zigzag v)) \<le> 16" "varint_bytes (zigzag v) \<noteq> []" for v
    by (rule varint.short, rule varint.nonempty)
qed

interpretation fixed32: stream_codec fixed32_bytes pb_decode_fixed32
proof
  show "pb_decode_fixed32 s = Some (Some v, advance s (fixed32_bytes v @ rest) (length (fixed32_bytes v)))"
    if "ibuf s (fixed32_bytes v @ rest)" "length (fixed32_bytes v) \<le> unat (bytes_left s)"
    for s :: "'a pb_istream" and v rest
  proof -
    have l: "length (fixed32_bytes v) = 4" by (simp add: fixed32_bytes_le)
    have "fixed32_of (fixed32_bytes v) = v"
      using unat_lt2p [of v] by (simp add: fixed32_of_le l) (simp add: fixed32_bytes_le of_le_le_bytes)
    with read_fixed_bytes [OF that] l show ?thesis by (simp add: pb_decode_fixed32_def)
  qed
  show "length (fixed32_bytes v) \<le> 16" "fixed32_bytes v \<noteq> []" for v
    by (simp_all add: fixed32_bytes_le flip: length_0_conv)
qed

interpretation fixed64: stream_codec fixed64_bytes pb_decode_fixed64
proof
  show "pb_decode_fixed64 s = Some (Some v, advance s (fixed64_bytes v @ rest) (length (fixed64_bytes v)))"
    if "ibuf s (fixed64_bytes v @ rest)" "length (fixed64_bytes v) \<le> unat (bytes_left s)"
    for s :: "'a pb_istream" and v rest
  proof -
    have l: "length (fixed64_bytes v) = 8" by (simp add: fixed64_bytes_le)
    have "fixed64_of (fixed64_bytes v) = v"
      using unat_lt2p [of v] by (simp add: fixed64_of_le l) (simp add: fixed64_bytes_le of_le_le_bytes)
    with read_fixed_bytes [OF that] l show ?thesis by (simp add: pb_decode_fixed64_def)
  qed
  show "length (fixed64_bytes v) \<le> 16" "fixed64_bytes v \<noteq> []" for v
    by (simp_all add: fixed64_bytes_le flip: length_0_conv)
qed

section \<open>Tags and skipping\<close>

lemma u32_shift3: "unat fn < 2 ^ 29 \<Longrightarrow> unat (push_bit 3 (fn :: u32)) = unat fn * 8"
  using unat_push_bit [of fn 3] by simp

lemma tag_word:
  assumes "unat fn < 2 ^ 29" and "unat wt < 8"
  shows "unat (push_bit 3 fn OR wt :: u32) = unat fn * 8 + unat wt"
proof -
  have "unat (wt OR push_bit 3 fn) = unat wt + unat fn * 2 ^ 3"
    using assms by (intro unat_or_shift) simp_all
  then show ?thesis by (simp only: or.commute [of wt]) simp
qed

lemma tag_value:
  assumes "unat fn < 2 ^ 29" and "unat wt < 8"
  shows "push_bit 3 (ucast fn) OR ucast wt = (ucast (push_bit 3 fn OR wt :: u32) :: u64)"
proof -
  have "unat (push_bit 3 (ucast fn) OR ucast wt :: u64) = unat (ucast wt :: u64) + unat (ucast fn :: u64) * 2 ^ 3"
    unfolding or.commute [of "push_bit 3 (ucast fn :: u64)"]
    using assms by (intro unat_or_shift) (simp_all add: unat_ucast_u32)
  then have "unat (push_bit 3 (ucast fn) OR ucast wt :: u64) = unat (ucast (push_bit 3 fn OR wt :: u32) :: u64)"
    using tag_word [OF assms] by (simp only: unat_ucast_u32, simp)
  then show ?thesis by (rule unsigned_word_eqI [where 'a = nat])
qed

lemma tag_fields:
  assumes "unat fn < 2 ^ 29" and "unat wt < 8"
  shows "(push_bit 3 fn OR wt) AND 7 = (wt :: u32)" and "drop_bit 3 (push_bit 3 fn OR wt) = fn"
proof -
  have m: "(7 :: u32) = mask 3" by (simp add: mask_eq_exp_minus_1)
  have "unat (take_bit 3 (push_bit 3 fn OR wt)) = unat wt"
    using tag_word [OF assms] assms by (simp only: unat_take_bit) simp
  then show "(push_bit 3 fn OR wt) AND 7 = wt"
    unfolding m take_bit_eq_mask [symmetric] by (rule unsigned_word_eqI [where 'a = nat])
  have "unat (drop_bit 3 (push_bit 3 fn OR wt)) = unat fn"
    using tag_word [OF assms] assms by (simp only: unat_drop_bit) simp
  then show "drop_bit 3 (push_bit 3 fn OR wt) = fn" by (rule unsigned_word_eqI [where 'a = nat])
qed

definition tag_bytes :: "u32 \<Rightarrow> u32 \<Rightarrow> u8 list" where
  "tag_bytes wt fn = varint_bytes (push_bit 3 (ucast fn) OR ucast wt)"

lemma decode_tag_encoded:
  assumes "unat fn < 2 ^ 29" and "unat wt < 8" and "fn \<noteq> 0"
    and "ibuf s (tag_bytes wt fn @ rest)" and "length (tag_bytes wt fn) \<le> unat (bytes_left s)"
  shows "pb_decode_tag s = Some (\<lparr>tag_ok = True, wire_type = wt, tag_number = fn, tag_eof = False\<rparr>,
    advance s (tag_bytes wt fn @ rest) (length (tag_bytes wt fn)))"
proof -
  let ?t = "push_bit 3 fn OR wt"
  have b: "tag_bytes wt fn = varint_bytes (ucast ?t)"
    using tag_value [OF assms(1,2)] by (simp add: tag_bytes_def)
  have "0 < unat fn" using assms(3) by (simp add: unat_gt_0)
  then have "unat ?t \<noteq> 0" unfolding tag_word [OF assms(1,2)] by simp
  then have "?t \<noteq> 0" by auto
  with decode_varint32_eof_encoded [of s ?t rest] assms b tag_fields [OF assms(1,2)] show ?thesis
    by (simp add: pb_decode_tag_def del: push_bit_eq_mult)
qed

lemma pb_read_null_buf:
  assumes "ibuf s src"
  shows "pb_read_null s n = (if bytes_left s < n then Some (None, is_set_error s ''end-of-stream'')
     else Some (Some (), advance s src (unat n)))"
proof -
  have "is_buf_read s" using assms by (simp add: is_buf_read_def ibuf_def)
  moreover have "advance s src 0 = s" using assms by (rule advance_0)
  ultimately show ?thesis by (simp add: pb_read_null_def pb_read_buf [OF assms])
qed

lemma pb_skip_varint_bytes:
  assumes "list_all (\<lambda>b. 128 \<le> unat b) cs" and "unat b < 128"
    and "ibuf s (cs @ b # rest)" and "length cs < unat (bytes_left s)"
  shows "pb_skip_varint s = Some (Some (), advance s (cs @ b # rest) (Suc (length cs)))"
  using assms
proof (induction cs arbitrary: s)
  case Nil
  then have "bytes_left s \<noteq> 0" "\<not> bytes_left s < 1" by (auto simp: word_less_nat_alt)
  with Nil show ?case
    by (subst pb_skip_varint.simps) (simp add: pb_read_buf byte_and_80)
next
  case (Cons c cs)
  let ?s = "advance s (c # cs @ b # rest) 1"
  have n: "bytes_left s \<noteq> 0" "\<not> bytes_left s < 1" using Cons.prems by (auto simp: word_less_nat_alt)
  have ok: "ibuf ?s (cs @ b # rest)" using Cons.prems n by (intro ibuf_Cons) simp_all
  have l: "length cs < unat (bytes_left ?s)"
    using Cons.prems left_advance_1 [OF n(1), of "c # cs @ b # rest"] by simp
  have "pb_skip_varint s = pb_skip_varint ?s"
    using Cons.prems n by (subst pb_skip_varint.simps) (simp add: pb_read_buf byte_and_80 not_less)
  also have "\<dots> = Some (Some (), advance ?s (cs @ b # rest) (Suc (length cs)))"
    by (rule Cons.IH) (use Cons.prems ok l in simp_all)
  finally show ?case using advance_advance [of s "c # cs @ b # rest" 1 "Suc (length cs)"] by simp
qed

text \<open>The complete value of a field, by wire type.\<close>

inductive wire_value :: "u32 \<Rightarrow> u8 list \<Rightarrow> bool" where
  varint: "list_all (\<lambda>b. 128 \<le> unat b) cs \<Longrightarrow> unat b < 128 \<Longrightarrow> wire_value 0 (cs @ [b])"
| fixed64: "length bs = 8 \<Longrightarrow> wire_value 1 bs"
| string: "length bs < 2 ^ 32 \<Longrightarrow> wire_value 2 (varint_bytes (of_nat (length bs)) @ bs)"
| fixed32: "length bs = 4 \<Longrightarrow> wire_value 5 bs"

inductive_simps wire_value_64 [simp]: "wire_value 1 bs"
inductive_simps wire_value_32 [simp]: "wire_value 5 bs"
inductive_cases wire_value_E: "wire_value wt bs"

lemma string_prefix: "n < 2 ^ 32 \<Longrightarrow> (of_nat n :: u64) = ucast (of_nat n :: u32)"
  by (rule unsigned_word_eqI [where 'a = nat]) (simp only: unat_ucast_u32, simp add: unat_of_nat)

lemma skip_field_value:
  assumes "wire_value wt B" and "ibuf s (B @ rest)" and "length B \<le> unat (bytes_left s)"
  shows "pb_skip_field s wt = Some (Some (), advance s (B @ rest) (length B))"
  using assms
proof (cases rule: wire_value.cases)
  case (varint cs b)
  with assms pb_skip_varint_bytes [of cs b s rest] show ?thesis by (simp add: pb_skip_field_def)
next
  case fixed64
  then have "\<not> bytes_left s < 8" using assms by (simp add: word_less_nat_alt not_less)
  with fixed64 assms show ?thesis by (simp add: pb_skip_field_def pb_read_null_buf)
next
  case fixed32
  then have "\<not> bytes_left s < 4" using assms by (simp add: word_less_nat_alt not_less)
  with fixed32 assms show ?thesis by (simp add: pb_skip_field_def pb_read_null_buf)
next
  case (string bs)
  let ?n = "of_nat (length bs) :: u32" and ?p = "varint_bytes (of_nat (length bs))"
  let ?s = "advance s (?p @ bs @ rest) (length ?p)"
  have e: "ucast ?n = (of_nat (length bs) :: u64)" using string by (simp add: string_prefix)
  have u: "unat (of_nat (length bs) :: u64) = length bs"
    using string(3) by (intro unat_of_nat_u64) (rule less_trans, assumption, simp)
  have ok: "ibuf s (?p @ bs @ rest)" and l: "length ?p \<le> unat (bytes_left s)"
    using assms string by simp_all
  then have r: "pb_decode_varint32 s = Some (Some ?n, ?s)"
    using varint32.decode_encoded [of s ?n "bs @ rest"] by (simp only: e)
  have ok2: "ibuf ?s (bs @ rest)" using advance_ibuf [OF ok l] by simp
  have "length bs \<le> unat (bytes_left ?s)" using advance_left [OF l] assms string by simp
  then have "\<not> bytes_left ?s < ucast ?n" unfolding e by (simp only: word_less_nat_alt u not_less)
  then have "pb_read_null ?s (ucast ?n) = Some (Some (), advance ?s (bs @ rest) (length bs))"
    using pb_read_null_buf [OF ok2, of "ucast ?n"] by (simp only: e u if_False)
  with r have "pb_skip_string s = Some (Some (), advance ?s (bs @ rest) (length bs))"
    by (simp add: pb_skip_string_def val_then_def)
  with string advance_advance [of s "?p @ bs @ rest" "length ?p" "length bs"] show ?thesis
    by (simp add: pb_skip_field_def)
qed

section \<open>Readers stay inside the buffer\<close>

text \<open>\<open>s'\<close> is \<open>s\<close> after consuming some of its bytes, its error message apart.\<close>

definition moved :: "'s pb_istream \<Rightarrow> u8 list \<Rightarrow> 's pb_istream \<Rightarrow> bool" where
  "moved s src s' \<longleftrightarrow>
     (\<exists>n \<le> unat (bytes_left s). is_callback s' = IBufRead \<and> is_state s' = IBuf (drop n src) \<and>
        unat (bytes_left s') + n = unat (bytes_left s))"

lemma moved_refl: "ibuf s src \<Longrightarrow> moved s src s"
  by (auto simp: moved_def ibuf_def intro!: exI [of _ 0])

lemma moved_error: "moved s src s' \<Longrightarrow> moved s src (is_set_error s' msg)"
  by (simp add: moved_def is_set_error_def)

lemma moved_advance: "ibuf s src \<Longrightarrow> n \<le> unat (bytes_left s) \<Longrightarrow> moved s src (advance s src n)"
  by (auto simp: moved_def ibuf_def advance_def unat_left_advance)

text \<open>What is left to read after a move.\<close>

definition rest_of :: "'s pb_istream \<Rightarrow> u8 list" where
  "rest_of s = (case is_state s of IBuf src \<Rightarrow> src | IUser _ \<Rightarrow> [])"

lemma moved_ibuf: "ibuf s src \<Longrightarrow> moved s src s' \<Longrightarrow> ibuf s' (rest_of s')"
  by (auto simp: moved_def ibuf_def rest_of_def)

lemma moved_trans:
  assumes "moved s src s1" and "moved s1 (rest_of s1) s2"
  shows "moved s src s2"
proof -
  obtain a b where
    a: "a \<le> unat (bytes_left s)" "is_state s1 = IBuf (drop a src)"
       "unat (bytes_left s1) + a = unat (bytes_left s)" and
    b: "b \<le> unat (bytes_left s1)" "is_callback s2 = IBufRead" "is_state s2 = IBuf (drop b (rest_of s1))"
       "unat (bytes_left s2) + b = unat (bytes_left s1)"
    using assms by (auto simp: moved_def)
  from a b show ?thesis
    by (auto simp: moved_def rest_of_def add.commute intro!: exI [of _ "a + b"])
qed

lemma moved_left: "moved s src s' \<Longrightarrow> unat (bytes_left s') \<le> unat (bytes_left s)"
  by (auto simp: moved_def)

text \<open>
  What every reader promises on a buffer stream: it returns (no read outside the buffer), and the
  stream has moved forward by at most the bytes it had left.
\<close>

locale buffer_reader =
  fixes rd :: "'s pb_istream \<Rightarrow> ('a, 's) vres"
  assumes stays_inside: "ibuf s src \<Longrightarrow> \<exists>v s'. rd s = Some (v, s') \<and> moved s src s'"
begin

lemma then_inside:
  assumes "ibuf s src" and g: "\<And>v s. buffer_reader (g v)"
  shows "\<exists>w s'. val_then (rd s) g = Some (w, s') \<and> moved s src s'"
proof -
  obtain v s1 where r: "rd s = Some (v, s1)" and m: "moved s src s1"
    using stays_inside [OF assms(1)] by blast
  show ?thesis
  proof (cases v)
    case None
    with r m show ?thesis by (simp add: val_then_def)
  next
    case (Some x)
    from buffer_reader.stays_inside [OF g moved_ibuf [OF assms(1) m]]
    obtain w s2 where "g x s1 = Some (w, s2)" "moved s1 (rest_of s1) s2" by blast
    with Some r moved_trans [OF m] show ?thesis by (auto simp: val_then_def)
  qed
qed

end

named_theorems reader_intros \<open>closure of the buffer readers\<close>

lemma reader_then [reader_intros]:
  "buffer_reader f \<Longrightarrow> (\<And>v. buffer_reader (g v)) \<Longrightarrow> buffer_reader (\<lambda>s. val_then (f s) g)"
  by (rule buffer_reader.intro) (rule buffer_reader.then_inside)

lemma reader_value [reader_intros]: "buffer_reader (\<lambda>s. Some (v, s))"
  by (rule buffer_reader.intro) (auto intro: moved_refl)

lemma reader_error [reader_intros]: "buffer_reader (\<lambda>s. Some (None, is_set_error s msg))"
  by (rule buffer_reader.intro) (auto intro: moved_refl moved_error)

lemma reader_if [reader_intros]:
  "buffer_reader f \<Longrightarrow> buffer_reader g \<Longrightarrow> buffer_reader (\<lambda>s. if b then f s else g s)"
  by (cases b) simp_all

lemma reader_null [reader_intros]: "buffer_reader (\<lambda>s. pb_read_null s n)"
  by (rule buffer_reader.intro)
     (auto simp: pb_read_null_buf word_less_nat_alt not_less intro: moved_error moved_refl moved_advance)

lemma reader_byte [reader_intros]: "buffer_reader pb_readbyte"
  by (rule buffer_reader.intro)
     (auto simp: pb_readbyte_buf unat_gt_0 Suc_le_eq intro!: moved_error moved_refl moved_advance)

lemma reader_raw [reader_intros]: "buffer_reader (\<lambda>s. read_raw_fixed s n)"
  by (rule buffer_reader.intro)
     (auto simp: read_raw_fixed_def pb_read_buf word_less_nat_alt not_less
        intro!: moved_error moved_refl moved_advance)

lemma readbyte_cases:
  assumes "ibuf s src"
  obtains (fail) s1 where "pb_readbyte s = Some (None, s1)" "moved s src s1"
  | (byte) b s1 where "pb_readbyte s = Some (Some b, s1)" "moved s src s1" "ibuf s1 (rest_of s1)"
      "unat (bytes_left s1) < unat (bytes_left s)"
proof -
  obtain v s1 where r: "pb_readbyte s = Some (v, s1)" and m: "moved s src s1"
    using buffer_reader.stays_inside [OF reader_byte assms] by blast
  show thesis
  proof (cases v)
    case None
    with r m show thesis by (intro fail) simp_all
  next
    case (Some b)
    with r m show thesis by (intro byte pb_readbyte_less moved_ibuf [OF assms]) simp_all
  qed
qed

lemma reader_varint_loop: "buffer_reader (\<lambda>s. varint_decode_loop s p r)"
proof (rule buffer_reader.intro)
  fix s :: "'a pb_istream" and src
  show "ibuf s src \<Longrightarrow> \<exists>v s'. varint_decode_loop s p r = Some (v, s') \<and> moved s src s'"
  proof (induction "unat (bytes_left s)" arbitrary: s src p r rule: less_induct)
    case less
    show ?case
      using less.prems
    proof (cases rule: readbyte_cases)
      case (fail s1)
      with less.prems show ?thesis
        by (subst varint_decode_loop.simps) (simp add: moved_refl moved_error)
    next
      case (byte b s1)
      have ih: "\<exists>v s'. varint_decode_loop s1 p r = Some (v, s') \<and> moved s src s'" for p r
        using less.hyps [OF byte(4,3), of p r] moved_trans [OF byte(2)] by blast
      from byte less.prems show ?thesis
        by (subst varint_decode_loop.simps) (simp add: moved_refl moved_error Let_def ih)
    qed
  qed
qed

lemma reader_varint32_loop: "buffer_reader (\<lambda>s. varint32_loop s p r)"
proof (rule buffer_reader.intro)
  fix s :: "'a pb_istream" and src
  show "ibuf s src \<Longrightarrow> \<exists>v s'. varint32_loop s p r = Some (v, s') \<and> moved s src s'"
  proof (induction "unat (bytes_left s)" arbitrary: s src p r rule: less_induct)
    case less
    show ?case
      using less.prems
    proof (cases rule: readbyte_cases)
      case (fail s1)
      with less.prems show ?thesis
        by (subst varint32_loop.simps) (simp add: moved_refl moved_error)
    next
      case (byte b s1)
      have ih: "\<exists>v s'. varint32_loop s1 p r = Some (v, s') \<and> moved s src s'" for p r
        using less.hyps [OF byte(4,3), of p r] moved_trans [OF byte(2)] by blast
      from byte less.prems show ?thesis
        by (subst varint32_loop.simps) (simp add: moved_refl moved_error Let_def ih)
    qed
  qed
qed

lemma reader_varint [reader_intros]: "buffer_reader pb_decode_varint"
  using reader_varint_loop [of 0 0] by (simp add: buffer_reader_def pb_decode_varint_def)

lemma varint32_eof_inside:
  assumes "ibuf s src"
  shows "\<exists>e v s'. pb_decode_varint32_eof s = Some (e, v, s') \<and> moved s src s'"
  using assms
proof (cases rule: readbyte_cases)
  case (byte b s1)
  from buffer_reader.stays_inside [OF reader_varint32_loop byte(3), of 7 "ucast (b AND 0x7F)"]
  obtain v s2 where "varint32_loop s1 7 (ucast (b AND 0x7F)) = Some (v, s2)" "moved s1 (rest_of s1) s2"
    by blast
  with byte show ?thesis by (auto simp: pb_decode_varint32_eof_def intro: moved_trans)
qed (auto simp: pb_decode_varint32_eof_def)

lemma reader_varint32 [reader_intros]: "buffer_reader pb_decode_varint32"
  by (rule buffer_reader.intro) (auto simp: pb_decode_varint32_def dest!: varint32_eof_inside)

lemma reader_svarint [reader_intros]: "buffer_reader pb_decode_svarint"
  unfolding pb_decode_svarint_def [abs_def] by (intro reader_intros)

lemma read1_cases:
  assumes "ibuf s src"
  obtains (fail) bs s1 where "pb_read s 1 = Some (False, bs, s1)" "moved s src s1"
  | (byte) b s1 where "pb_read s 1 = Some (True, [b], s1)" "moved s src s1" "ibuf s1 (rest_of s1)"
      "unat (bytes_left s1) < unat (bytes_left s)"
proof (cases "bytes_left s < 1")
  case True
  with pb_read_buf [OF assms, of 1] show thesis
    by (intro fail) (auto intro: moved_error moved_refl assms)
next
  case False
  then have "1 \<le> unat (bytes_left s)" by (simp add: word_less_nat_alt)
  with assms have m: "moved s src (advance s src 1)" by (intro moved_advance)
  from \<open>1 \<le> unat (bytes_left s)\<close> assms have "take 1 src = [hd src]"
    by (cases src) (auto simp: ibuf_def)
  with False pb_read_buf [OF assms, of 1] have "pb_read s 1 = Some (True, [hd src], advance s src 1)"
    by simp
  with m show thesis by (intro byte pb_read_1_less moved_ibuf [OF assms]) simp_all
qed

lemma reader_skip_varint [reader_intros]: "buffer_reader pb_skip_varint"
proof (rule buffer_reader.intro)
  fix s :: "'a pb_istream" and src
  show "ibuf s src \<Longrightarrow> \<exists>v s'. pb_skip_varint s = Some (v, s') \<and> moved s src s'"
  proof (induction "unat (bytes_left s)" arbitrary: s src rule: less_induct)
    case less
    show ?case
      using less.prems
    proof (cases rule: read1_cases)
      case (fail bs s1)
      then show ?thesis by (subst pb_skip_varint.simps) simp
    next
      case (byte b s1)
      have ih: "\<exists>v s'. pb_skip_varint s1 = Some (v, s') \<and> moved s src s'"
        using less.hyps [OF byte(4,3)] moved_trans [OF byte(2)] by blast
      from byte show ?thesis by (subst pb_skip_varint.simps) (simp add: ih)
    qed
  qed
qed

lemma reader_raw_varint [reader_intros]: "buffer_reader (\<lambda>s. raw_varint s k got)"
proof (rule buffer_reader.intro)
  fix s :: "'a pb_istream" and src
  show "ibuf s src \<Longrightarrow> \<exists>v s'. raw_varint s k got = Some (v, s') \<and> moved s src s'"
  proof (induction "unat (bytes_left s)" arbitrary: s src got rule: less_induct)
    case less
    show ?case
      using less.prems
    proof (cases rule: read1_cases)
      case (fail bs s1)
      with less.prems show ?thesis by (subst raw_varint.simps) (simp add: moved_refl)
    next
      case (byte b s1)
      have ih: "\<exists>v s'. raw_varint s1 k g = Some (v, s') \<and> moved s src s'" for g
        using less.hyps [OF byte(4,3), of g] moved_trans [OF byte(2)] by blast
      from byte less.prems show ?thesis by (subst raw_varint.simps) (simp add: ih moved_refl)
    qed
  qed
qed

lemma reader_raw_value [reader_intros]: "buffer_reader (\<lambda>s. read_raw_value s wt k)"
  unfolding read_raw_value_def by (intro reader_intros)

lemma reader_skip_string [reader_intros]: "buffer_reader pb_skip_string"
  unfolding pb_skip_string_def [abs_def] by (intro reader_intros)

lemma reader_skip_field [reader_intros]: "buffer_reader (\<lambda>s. pb_skip_field s wt)"
  unfolding pb_skip_field_def by (intro reader_intros)

lemma reader_fixed32 [reader_intros]: "buffer_reader pb_decode_fixed32"
proof (rule buffer_reader.intro)
  fix s :: "'a pb_istream" and src
  assume ok: "ibuf s src"
  show "\<exists>v s'. pb_decode_fixed32 s = Some (v, s') \<and> moved s src s'"
  proof (cases "bytes_left s < 4")
    case False
    with ok have "4 \<le> length src" "4 \<le> unat (bytes_left s)"
      by (auto simp: ibuf_def word_less_nat_alt)
    with False ok show ?thesis
      by (auto simp: pb_decode_fixed32_def pb_read_buf intro!: moved_advance)
  qed (use ok in \<open>auto simp: pb_decode_fixed32_def pb_read_buf intro!: moved_error moved_refl\<close>)
qed

lemma reader_fixed64 [reader_intros]: "buffer_reader pb_decode_fixed64"
proof (rule buffer_reader.intro)
  fix s :: "'a pb_istream" and src
  assume ok: "ibuf s src"
  show "\<exists>v s'. pb_decode_fixed64 s = Some (v, s') \<and> moved s src s'"
  proof (cases "bytes_left s < 8")
    case False
    with ok have "8 \<le> length src" "8 \<le> unat (bytes_left s)"
      by (auto simp: ibuf_def word_less_nat_alt)
    with False ok show ?thesis
      by (auto simp: pb_decode_fixed64_def pb_read_buf intro!: moved_advance)
  qed (use ok in \<open>auto simp: pb_decode_fixed64_def pb_read_buf intro!: moved_error moved_refl\<close>)
qed

lemma tag_inside:
  assumes "ibuf s src"
  shows "\<exists>t s'. pb_decode_tag s = Some (t, s') \<and> moved s src s'"
proof -
  obtain e v s1 where "pb_decode_varint32_eof s = Some (e, v, s1)" "moved s src s1"
    using varint32_eof_inside [OF assms] by blast
  then show ?thesis by (cases v) (auto simp: pb_decode_tag_def)
qed

interpretation varint_reader: buffer_reader pb_decode_varint by (rule reader_varint)
interpretation varint32_reader: buffer_reader pb_decode_varint32 by (rule reader_varint32)
interpretation skip_reader: buffer_reader "\<lambda>s. pb_skip_field s wt" for wt by (rule reader_skip_field)

section \<open>Substreams\<close>

lemma make_substream_inside:
  assumes "ibuf s src"
  obtains (fail) s1 where "pb_make_string_substream s = Some (None, s1)" "moved s src s1"
  | (sub) n s1 where "pb_make_string_substream s =
        Some (Some (s1\<lparr>bytes_left := n\<rparr>), s1\<lparr>bytes_left := bytes_left s1 - n\<rparr>)"
      "moved s src s1" "n \<le> bytes_left s1" "ibuf s1 (rest_of s1)"
proof -
  obtain v s1 where r: "pb_decode_varint32 s = Some (v, s1)" and m: "moved s src s1"
    using varint32_reader.stays_inside [OF assms] by blast
  show thesis
  proof (cases v)
    case None
    with r m show thesis by (intro fail) (auto simp: pb_make_string_substream_def val_then_def)
  next
    case (Some n)
    show thesis
    proof (cases "bytes_left s1 < ucast n")
      case True
      with r Some m show thesis
        by (intro fail [of "is_set_error s1 ''parent stream too short''"] moved_error)
           (simp_all add: pb_make_string_substream_def val_then_def)
    next
      case False
      with r Some m show thesis
        by (intro sub [of "ucast n" s1] moved_ibuf [OF assms])
           (simp_all add: pb_make_string_substream_def val_then_def not_less)
    qed
  qed
qed

lemma ibuf_shorter: "ibuf s src \<Longrightarrow> n \<le> bytes_left s \<Longrightarrow> ibuf (s\<lparr>bytes_left := n\<rparr>) src"
  by (simp add: ibuf_def word_le_nat_alt)

text \<open>
  Closing a substream after any reads inside it leaves the parent exactly behind the string,
  with the error message of the substream.
\<close>

lemma close_substream:
  assumes ok: "ibuf s1 src1" and n: "n \<le> bytes_left s1"
    and m: "moved (s1\<lparr>bytes_left := n\<rparr>) src1 sub"
  shows "pb_close_string_substream (s1\<lparr>bytes_left := bytes_left s1 - n\<rparr>) sub =
      Some (Some (), (advance s1 src1 (unat n))\<lparr>is_errmsg := is_errmsg sub\<rparr>)"
proof -
  obtain k where k: "k \<le> unat n" "is_callback sub = IBufRead" "is_state sub = IBuf (drop k src1)"
      "unat (bytes_left sub) + k = unat n"
    using m by (auto simp: moved_def)
  have len: "unat n \<le> length src1" using ok n by (simp add: ibuf_def word_le_nat_alt)
  have left: "of_nat (unat n) = n" by simp
  show ?thesis
  proof (cases "bytes_left sub = 0")
    case True
    with k have "k = unat n" by simp
    with True k show ?thesis by (simp add: pb_close_string_substream_def advance_def)
  next
    case False
    have "ibuf sub (drop k src1)" using k len by (simp add: ibuf_def)
    then have "pb_read_null sub (bytes_left sub) =
        Some (Some (), advance sub (drop k src1) (unat (bytes_left sub)))"
      by (simp add: pb_read_null_buf)
    with False k show ?thesis
      by (simp add: pb_close_string_substream_def advance_def)
  qed
qed

lemma moved_close:
  assumes "ibuf s1 (rest_of s1)" and "n \<le> bytes_left s1" and "moved s src s1"
  shows "moved s src ((advance s1 (rest_of s1) (unat n))\<lparr>is_errmsg := e\<rparr>)"
proof -
  have "moved s1 (rest_of s1) (advance s1 (rest_of s1) (unat n))"
    using assms by (intro moved_advance) (simp_all add: word_le_nat_alt)
  from moved_trans [OF assms(3) this] show ?thesis by (simp add: moved_def)
qed

section \<open>Properties\<close>

lemma varint_loop_overlong:
  assumes "list_all (\<lambda>b. 128 \<le> unat b) cs" and "ibuf s (cs @ rest)" and "length cs \<le> unat (bytes_left s)"
    and "k + length cs = 10"
  shows "varint_decode_loop s (of_nat (7 * k)) r =
    Some (None, is_set_error (advance s (cs @ rest) (length cs)) ''varint overflow'')"
  using assms
proof (induction cs arbitrary: s k r)
  case Nil
  then have "unat (of_nat (7 * k) :: u8) = 7 * k" by (intro bitpos_lt) simp
  with Nil have "64 \<le> (of_nat (7 * k) :: u8)" by (simp add: word_le_nat_alt)
  with Nil show ?case by (subst varint_decode_loop.simps) (simp add: advance_0)
next
  case (Cons c cs)
  let ?s = "advance s (c # cs @ rest) 1"
  have p: "unat (of_nat (7 * k) :: u8) = 7 * k" using Cons.prems by (intro bitpos_lt) simp
  have n: "bytes_left s \<noteq> 0" using Cons.prems by auto
  have ok: "ibuf ?s (cs @ rest)" using Cons.prems n by (intro ibuf_Cons) simp_all
  have l: "length cs \<le> unat (bytes_left ?s)"
    using Cons.prems left_advance_1 [OF n, of "c # cs @ rest"] by simp
  have "varint_decode_loop s (of_nat (7 * k)) r =
      varint_decode_loop ?s (of_nat (7 * k) + 7) (r OR push_bit (7 * k) (of_nat (unat c mod 128)))"
    using Cons.prems n p
    by (subst varint_decode_loop.simps)
       (simp add: pb_readbyte_buf word_le_nat_alt byte_and_80 u64_7F_byte not_less)
  also have "of_nat (7 * k) + 7 = (of_nat (7 * Suc k) :: u8)" by simp
  also have "varint_decode_loop ?s \<dots> (r OR push_bit (7 * k) (of_nat (unat c mod 128))) =
      Some (None, is_set_error (advance ?s (cs @ rest) (length cs)) ''varint overflow'')"
    by (rule Cons.IH) (use Cons.prems ok l in simp_all)
  finally show ?case using advance_advance [of s "c # cs @ rest" 1 "length cs"] by simp
qed

text \<open>C4: \<open>pb_decode_varint\<close> on any varint in the buffer, canonical or not: up to ten bytes it returns
  the number the bytes stand for, reduced to 64 bits, and consumes exactly them; a longer one is
  rejected as an overflow after ten bytes.\<close>

theorem pb_decode_varint_correct:
  assumes "list_all (\<lambda>b. 128 \<le> unat b) cs" and "unat b < 128"
    and "ibuf s (cs @ b # rest)" and "length cs < unat (bytes_left s)"
  shows "pb_decode_varint s =
    (if length cs \<le> 9
     then Some (Some (of_nat (leb128 (cs @ [b]))), advance s (cs @ b # rest) (Suc (length cs)))
     else Some (None, is_set_error (advance s (cs @ b # rest) 10) ''varint overflow''))"
proof (cases "length cs \<le> 9")
  case True
  with pb_decode_varint_bytes [OF assms] show ?thesis by simp
next
  case False
  have e: "cs @ b # rest = take 10 cs @ (drop 10 cs @ b # rest)" by simp
  have "list_all (\<lambda>b. 128 \<le> unat b) (take 10 cs)"
    using assms(1) by (auto simp: list_all_iff dest: in_set_takeD)
  from varint_loop_overlong [OF this, of s "drop 10 cs @ b # rest" 0 0, folded e] False assms
  show ?thesis by (simp add: pb_decode_varint_def)
qed

text \<open>The value a reader gets back from a buffer that a writer has filled, with nothing left over.\<close>

definition reads_back ::
    "('s pb_ostream \<Rightarrow> 's oresult) \<Rightarrow> ('s pb_istream \<Rightarrow> ('v, 's) vres) \<Rightarrow> 'v \<Rightarrow> bool" where
  "reads_back w r v \<longleftrightarrow>
     (\<forall>buf bufsize. 16 \<le> unat bufsize \<longrightarrow> unat bufsize \<le> length buf \<longrightarrow>
        (\<exists>os buf' n. w (pb_ostream_from_buffer buf bufsize) = Some (True, os) \<and>
           os_state os = OBuf buf' n \<and>
           r (pb_istream_from_buffer buf' (of_nat n)) =
             Some (Some v, pb_istream_from_buffer (drop n buf') 0)))"

context stream_codec
begin

lemma codec_reads_back:
  assumes "emits w (enc v)"
  shows "reads_back w dec v"
  unfolding reads_back_def
proof (intro allI impI)
  fix buf :: "u8 list" and bufsize :: u64
  assume b: "16 \<le> unat bufsize" "unat bufsize \<le> length buf"
  let ?n = "length (enc v)" and ?buf = "enc v @ drop (length (enc v)) buf"
  have n: "?n \<le> unat bufsize" using short [of v] b(1) by simp
  have u: "unat (of_nat ?n :: u64) = ?n" using short [of v] by (intro unat_of_nat_u64) simp
  have "w (pb_ostream_from_buffer buf bufsize) =
      Some (True, emitted (pb_ostream_from_buffer buf bufsize) buf 0 (enc v))"
    using emits_room [OF assms buffer_stream_ok [OF b(2)]] n by simp
  moreover have "os_state (emitted (pb_ostream_from_buffer buf bufsize) buf 0 (enc v)) = OBuf ?buf ?n"
    by (simp add: emitted_def splice_def)
  moreover have "dec (pb_istream_from_buffer ?buf (of_nat ?n)) =
      Some (Some v, pb_istream_from_buffer (drop ?n ?buf) 0)"
    using decode_encoded [of "pb_istream_from_buffer ?buf (of_nat ?n)" v "drop ?n buf"] u
    by (simp add: ibuf_def pb_istream_from_buffer_def advance_def)
  ultimately show "\<exists>os buf' n. w (pb_ostream_from_buffer buf bufsize) = Some (True, os) \<and>
      os_state os = OBuf buf' n \<and>
      dec (pb_istream_from_buffer buf' (of_nat n)) = Some (Some v, pb_istream_from_buffer (drop n buf') 0)"
    by blast
qed

end

text \<open>C5: every scalar the encoder writes into a buffer is read back by the matching decoder, with no
  byte left over: varints at 64 and 32 bits, zigzag-encoded signed varints, and the fixed-width
  integers that are loaded from memory.\<close>

theorem scalar_roundtrip:
  "reads_back (\<lambda>s. pb_encode_varint s v) pb_decode_varint v \<and>
   reads_back (\<lambda>s. pb_encode_varint s (ucast w)) pb_decode_varint32 w \<and>
   reads_back (\<lambda>s. pb_encode_svarint s v) pb_decode_svarint v \<and>
   reads_back (\<lambda>s. pb_encode_fixed32 m s p) pb_decode_fixed32 (rd32 m p) \<and>
   reads_back (\<lambda>s. pb_encode_fixed64 m s p) pb_decode_fixed64 (rd64 m p)"
  by (intro conjI varint.codec_reads_back varint32.codec_reads_back svarint.codec_reads_back
      fixed32.codec_reads_back fixed64.codec_reads_back emits_varint emits_svarint emits_fixed32
      emits_fixed64)

text \<open>Varints are self-delimiting: two sequences of values with the same encoding are equal, so a
  packed array of varints has one reading.\<close>

theorem varint_sequence_unique:
  "concat (map varint_bytes xs) = concat (map varint_bytes ys) \<longleftrightarrow> xs = ys"
  by (rule varint.concat_eq_iff)

text \<open>C6: an unknown field is skipped exactly: after the tag of any field number and the complete value
  of any wire type, \<open>pb_decode_tag\<close> returns the field number and wire type and \<open>pb_skip_field\<close> leaves
  the stream right behind the value.\<close>

theorem unknown_field_skipped:
  assumes "0 < fn" and "fn < 2 ^ 29" and "wire_value wt B"
    and "ibuf s (tag_bytes wt fn @ B @ rest)"
    and "length (tag_bytes wt fn @ B) \<le> unat (bytes_left s)"
  shows "\<exists>s1. pb_decode_tag s =
      Some (\<lparr>tag_ok = True, wire_type = wt, tag_number = fn, tag_eof = False\<rparr>, s1) \<and>
    pb_skip_field s1 wt =
      Some (Some (), advance s (tag_bytes wt fn @ B @ rest) (length (tag_bytes wt fn @ B)))"
proof -
  let ?T = "tag_bytes wt fn"
  let ?s = "advance s (?T @ B @ rest) (length ?T)"
  have wt: "unat wt < 8" using assms(3) by (cases rule: wire_value.cases) auto
  have fn: "unat fn < 2 ^ 29" "fn \<noteq> 0" using assms(1,2) by (auto simp: word_less_nat_alt)
  have l: "length ?T \<le> unat (bytes_left s)" using assms(5) by simp
  have t: "pb_decode_tag s =
      Some (\<lparr>tag_ok = True, wire_type = wt, tag_number = fn, tag_eof = False\<rparr>, ?s)"
    by (rule decode_tag_encoded) (use assms fn wt l in simp_all)
  have "ibuf ?s (B @ rest)" using advance_ibuf [OF assms(4) l] by simp
  moreover have "length B \<le> unat (bytes_left ?s)" using assms(5) advance_left [OF l] by simp
  ultimately have "pb_skip_field ?s wt = Some (Some (), advance ?s (B @ rest) (length B))"
    by (rule skip_field_value [OF assms(3)])
  with t advance_advance [of s "?T @ B @ rest" "length ?T" "length B"] show ?thesis by simp
qed

text \<open>On every buffer the reader returns, and the stream has moved forward inside the buffer.\<close>

definition stays_in_buffer :: "('s pb_istream \<Rightarrow> ('a \<times> 's pb_istream) option) \<Rightarrow> bool" where
  "stays_in_buffer rd \<longleftrightarrow>
     (\<forall>src n. unat n \<le> length src \<longrightarrow>
        (\<exists>v s' i. rd (pb_istream_from_buffer src n) = Some (v, s') \<and> i \<le> unat n \<and>
           is_state s' = IBuf (drop i src) \<and> unat (bytes_left s') = unat n - i))"

lemma stays_in_bufferI:
  assumes "\<And>s src. ibuf s src \<Longrightarrow> \<exists>v s'. rd s = Some (v, s') \<and> moved s src s'"
  shows "stays_in_buffer rd"
  unfolding stays_in_buffer_def
proof (intro allI impI)
  fix src and n :: u64
  let ?s = "pb_istream_from_buffer src n"
  assume "unat n \<le> length src"
  then have "ibuf ?s src" by (simp add: ibuf_def pb_istream_from_buffer_def)
  from assms [OF this] obtain v s' where "rd ?s = Some (v, s')" "moved ?s src s'" by blast
  then show "\<exists>v s' i. rd ?s = Some (v, s') \<and> i \<le> unat n \<and> is_state s' = IBuf (drop i src) \<and>
      unat (bytes_left s') = unat n - i"
    by (fastforce simp: moved_def pb_istream_from_buffer_def)
qed

lemma reader_stays: "buffer_reader rd \<Longrightarrow> stays_in_buffer rd"
  by (rule stays_in_bufferI) (rule buffer_reader.stays_inside)

text \<open>C7: no primitive decoder reads outside its buffer, whatever bytes it is given: each of them
  returns (the model has no result for a read past the end), and the stream has moved forward by no
  more than the bytes it had left.\<close>

theorem readers_stay_inside:
  "stays_in_buffer pb_decode_varint \<and> stays_in_buffer pb_decode_varint32 \<and>
   stays_in_buffer pb_decode_svarint \<and> stays_in_buffer pb_decode_fixed32 \<and>
   stays_in_buffer pb_decode_fixed64 \<and> stays_in_buffer pb_decode_tag \<and>
   stays_in_buffer (\<lambda>s. pb_skip_field s wt) \<and> stays_in_buffer (\<lambda>s. read_raw_value s wt k)"
  by (intro conjI reader_stays reader_intros stays_in_bufferI tag_inside)

text \<open>C8: a string substream brackets its string: the substream has exactly the announced bytes to
  give, and whatever part of them is read before \<open>pb_close_string_substream\<close>, the parent stream
  continues right behind the string, with the error message of the substream.\<close>

theorem string_substream_brackets:
  fixes n :: u32
  assumes "ibuf s (varint_bytes (ucast n) @ body @ rest)" and "length body = unat n"
    and "length (varint_bytes (ucast n)) + unat n \<le> unat (bytes_left s)"
  shows "\<exists>s1 sub. pb_make_string_substream s = Some (Some sub, s1) \<and>
    bytes_left sub = ucast n \<and> is_state sub = IBuf (body @ rest) \<and>
    (\<forall>sub'. moved sub (body @ rest) sub' \<longrightarrow>
       (\<exists>s2. pb_close_string_substream s1 sub' = Some (Some (), s2) \<and>
          is_state s2 = IBuf rest \<and> is_errmsg s2 = is_errmsg sub' \<and>
          unat (bytes_left s2) = unat (bytes_left s) - length (varint_bytes (ucast n)) - unat n))"
proof -
  let ?p = "varint_bytes (ucast n)"
  let ?s = "advance s (?p @ body @ rest) (length ?p)"
  let ?n = "ucast n :: u64"
  have l: "length ?p \<le> unat (bytes_left s)" using assms(3) by simp
  have r: "pb_decode_varint32 s = Some (Some n, ?s)"
    using assms(1) l by (rule varint32.decode_encoded)
  have ok: "ibuf ?s (body @ rest)" using advance_ibuf [OF assms(1) l] by simp
  have left: "unat (bytes_left ?s) = unat (bytes_left s) - length ?p" using l by (rule advance_left)
  then have fits: "?n \<le> bytes_left ?s" using assms(3) by (simp add: word_le_nat_alt unat_ucast_u32)
  have m: "pb_make_string_substream s =
      Some (Some (?s\<lparr>bytes_left := ?n\<rparr>), ?s\<lparr>bytes_left := bytes_left ?s - ?n\<rparr>)"
    using r fits by (simp add: pb_make_string_substream_def val_then_def not_less)
  have st: "is_state ?s = IBuf (body @ rest)" by (simp add: advance_def)
  let ?s2 = "advance ?s (body @ rest) (unat n)"
  have left2: "unat (bytes_left ?s2) = unat (bytes_left s) - length ?p - unat n"
    using advance_left [of "unat n" ?s "body @ rest"] left assms(3) by simp
  have rest2: "is_state ?s2 = IBuf rest" using assms(2) by (simp add: advance_def)
  have "\<exists>s2. pb_close_string_substream (?s\<lparr>bytes_left := bytes_left ?s - ?n\<rparr>) sub' = Some (Some (), s2) \<and>
      is_state s2 = IBuf rest \<and> is_errmsg s2 = is_errmsg sub' \<and>
      unat (bytes_left s2) = unat (bytes_left s) - length ?p - unat n"
    if "moved (?s\<lparr>bytes_left := ?n\<rparr>) (body @ rest) sub'" for sub'
    using close_substream [OF ok fits that] left2 rest2
    by (intro exI [of _ "?s2\<lparr>is_errmsg := is_errmsg sub'\<rparr>"]) (simp add: unat_ucast_u32)
  then show ?thesis
    by (intro exI [of _ "?s\<lparr>bytes_left := bytes_left ?s - ?n\<rparr>"] exI [of _ "?s\<lparr>bytes_left := ?n\<rparr>"])
       (simp add: m st)
qed



section \<open>Witnesses\<close>

theorem pb_decode_varint_correct_witness:
  "pb_decode_varint (pb_istream_from_buffer [0x96, 1, 7] 3 :: nat pb_istream) =
     Some (Some 150, pb_istream_from_buffer [7] 1)"
  using pb_decode_varint_correct [of "[0x96]" 1 "pb_istream_from_buffer [0x96, 1, 7] 3 :: nat pb_istream" "[7]"]
  by (simp add: ibuf_def pb_istream_from_buffer_def advance_def)

lemma demo_field_bytes: "tag_bytes 2 3 = [0x1a]"
  by code_simp

lemma demo_string_value: "wire_value 2 [2, 0x68, 0x69]"
proof -
  have "varint_bytes (of_nat (length [0x68, 0x69 :: u8])) = [2]" by code_simp
  then show ?thesis using wire_value.string [of "[0x68, 0x69]"] by simp
qed

theorem unknown_field_skipped_witness:
  "\<exists>s1. pb_decode_tag (pb_istream_from_buffer [0x1a, 2, 0x68, 0x69, 8] 5 :: nat pb_istream) =
      Some (\<lparr>tag_ok = True, wire_type = 2, tag_number = 3, tag_eof = False\<rparr>, s1) \<and>
    pb_skip_field s1 2 = Some (Some (), pb_istream_from_buffer [8] 1)"
  using unknown_field_skipped [of 3 2 "[2, 0x68, 0x69]"
      "pb_istream_from_buffer [0x1a, 2, 0x68, 0x69, 8] 5 :: nat pb_istream" "[8]"]
  by (simp add: demo_field_bytes demo_string_value ibuf_def pb_istream_from_buffer_def advance_def)

theorem string_substream_brackets_witness:
  "\<exists>s1 sub. pb_make_string_substream (pb_istream_from_buffer [2, 0x68, 0x69, 8] 4 :: nat pb_istream) =
      Some (Some sub, s1) \<and>
    bytes_left sub = 2 \<and> is_state sub = IBuf [0x68, 0x69, 8] \<and>
    (\<forall>sub'. moved sub [0x68, 0x69, 8] sub' \<longrightarrow>
       (\<exists>s2. pb_close_string_substream s1 sub' = Some (Some (), s2) \<and>
          is_state s2 = IBuf [8] \<and> is_errmsg s2 = is_errmsg sub' \<and> unat (bytes_left s2) = 1))"
proof -
  have v: "varint_bytes 2 = [2]" by code_simp
  show ?thesis
    using string_substream_brackets [of "pb_istream_from_buffer [2, 0x68, 0x69, 8] 4 :: nat pb_istream" 2
        "[0x68, 0x69]" "[8]"]
    by (simp add: v ibuf_def pb_istream_from_buffer_def)
qed

end
