(* ===== verification/Nanopb_Decode_Props.thy ===== *)
theory Nanopb_Decode_Props
  imports Nanopb_Decode Nanopb_Istream_Props
begin

text \<open>
  What the message decoder guarantees on buffer streams: a field decoder stays inside the buffer and
  writes only the storage of its field; scalar fields survive an encode/decode round trip through
  memory; the required-field bitmap check is exact; and whole-message decoding never reads outside
  the buffer.
\<close>

section \<open>Field decoders\<close>

text \<open>
  What the caller of an entry of \<open>PB_DECODERS\<close> relies on: it returns, reads inside the buffer,
  consumes at least a byte when it succeeds, and writes only the \<open>data_size\<close> bytes of the item.
\<close>

locale field_decoder =
  fixes func :: "'s decoder" and f :: pb_field
  assumes confined: "ibuf s src \<Longrightarrow>
    \<exists>ok s' m'. func (s, m) f d = Some (ok, (s', m')) \<and> moved s src s' \<and>
      (\<forall>x. \<not> in_range d (unat (data_size f)) x \<longrightarrow> m' x = m x) \<and>
      (ok \<longrightarrow> unat (bytes_left s') < unat (bytes_left s))"

lemma moved_less_trans:
  "moved s src s1 \<Longrightarrow> moved s1 (rest_of s1) s2 \<Longrightarrow> unat (bytes_left s1) < unat (bytes_left s) \<Longrightarrow>
   unat (bytes_left s2) < unat (bytes_left s)"
  using moved_left [of s1 "rest_of s1" s2] by simp

text \<open>A reader that consumes something whenever it returns a value.\<close>

locale progressing_reader = buffer_reader rd for rd :: "'s pb_istream \<Rightarrow> ('a, 's) vres" +
  assumes progress: "ibuf s src \<Longrightarrow> rd s = Some (Some v, s') \<Longrightarrow> unat (bytes_left s') < unat (bytes_left s)"
begin

lemma reader_cases:
  assumes "ibuf s src"
  obtains (fail) s1 where "rd s = Some (None, s1)" "moved s src s1"
  | (got) v s1 where "rd s = Some (Some v, s1)" "moved s src s1" "ibuf s1 (rest_of s1)"
      "unat (bytes_left s1) < unat (bytes_left s)"
proof -
  obtain v s1 where r: "rd s = Some (v, s1)" and m: "moved s src s1"
    using stays_inside [OF assms] by blast
  show thesis
  proof (cases v)
    case None
    with r m show thesis by (intro fail) simp_all
  next
    case (Some b)
    with r m assms show thesis by (intro got progress [of s src] moved_ibuf [OF assms]) simp_all
  qed
qed

end

lemma val_progress_varint_loop:
  "ibuf s src \<Longrightarrow> varint_decode_loop s p r = Some (Some v, s') \<Longrightarrow> unat (bytes_left s') < unat (bytes_left s)"
proof (induction "unat (bytes_left s)" arbitrary: s src p r rule: less_induct)
  case less
  show ?case
    using less.prems(1)
  proof (cases rule: readbyte_cases)
    case (fail s1)
    with less.prems(2) show ?thesis by (subst (asm) varint_decode_loop.simps) (simp split: if_splits)
  next
    case (byte b s1)
    show ?thesis
    proof (cases "b AND 0x80 = 0")
      case True
      with less.prems(2) byte show ?thesis
        by (subst (asm) varint_decode_loop.simps) (auto simp: Let_def split: if_splits)
    next
      case False
      with less.prems(2) byte obtain p1 r1 where "varint_decode_loop s1 p1 r1 = Some (Some v, s')"
        by (subst (asm) varint_decode_loop.simps) (auto simp: Let_def split: if_splits)
      from less.hyps [OF byte(4,3) this] byte(4) show ?thesis by simp
    qed
  qed
qed

lemma val_progress_varint32_loop:
  "ibuf s src \<Longrightarrow> varint32_loop s p r = Some (Some v, s') \<Longrightarrow> unat (bytes_left s') < unat (bytes_left s)"
proof (induction "unat (bytes_left s)" arbitrary: s src p r rule: less_induct)
  case less
  show ?case
    using less.prems(1)
  proof (cases rule: readbyte_cases)
    case (fail s1)
    with less.prems(2) show ?thesis by (subst (asm) varint32_loop.simps) (simp split: if_splits)
  next
    case (byte b s1)
    show ?thesis
    proof (cases "b AND 0x80 = 0")
      case True
      with less.prems(2) byte show ?thesis
        by (subst (asm) varint32_loop.simps) (auto simp: Let_def split: if_splits)
    next
      case False
      with less.prems(2) byte obtain p1 r1 where "varint32_loop s1 p1 r1 = Some (Some v, s')"
        by (subst (asm) varint32_loop.simps) (auto simp: Let_def split: if_splits)
      from less.hyps [OF byte(4,3) this] byte(4) show ?thesis by simp
    qed
  qed
qed

interpretation varint_reader: progressing_reader pb_decode_varint
  by unfold_locales (auto simp: pb_decode_varint_def intro: val_progress_varint_loop)

lemma varint32_progress:
  assumes "ibuf s src" and "pb_decode_varint32 s = Some (Some v, s')"
  shows "unat (bytes_left s') < unat (bytes_left s)"
  using assms(1)
proof (cases rule: readbyte_cases)
  case (fail s1)
  with assms(2) show ?thesis by (simp add: pb_decode_varint32_def pb_decode_varint32_eof_def)
next
  case (byte b s1)
  with assms(2) have "s' = s1 \<or> (\<exists>p r. varint32_loop s1 p r = Some (Some v, s'))"
    by (auto simp: pb_decode_varint32_def pb_decode_varint32_eof_def split: if_splits)
  with byte val_progress_varint32_loop [OF byte(3)] show ?thesis by fastforce
qed

interpretation varint32_reader: progressing_reader pb_decode_varint32
  by unfold_locales (rule varint32_progress)

interpretation svarint_reader: progressing_reader pb_decode_svarint
proof
  show "\<exists>v s'. pb_decode_svarint s = Some (v, s') \<and> moved s src s'" if "ibuf s src"
    for s :: "'a pb_istream" and src
    using buffer_reader.stays_inside [OF reader_svarint that] .
  show "unat (bytes_left s') < unat (bytes_left s)"
    if "ibuf s src" "pb_decode_svarint s = Some (Some v, s')" for s :: "'a pb_istream" and src v s'
    using that varint_reader.progress [of s src]
    by (auto simp: pb_decode_svarint_def val_then_def split: option.splits)
qed

lemma pb_read_progress:
  assumes "ibuf s src" and "pb_read s n = Some (True, bs, s')" and "0 < n"
  shows "unat (bytes_left s') < unat (bytes_left s)"
proof -
  have n: "\<not> bytes_left s < n" "s' = advance s src (unat n)"
    using assms pb_read_buf [OF assms(1), of n] by (auto split: if_splits)
  then have "unat (bytes_left s') = unat (bytes_left s) - unat n"
    by (simp add: advance_left word_less_nat_alt)
  moreover have "0 < unat n" "unat n \<le> unat (bytes_left s)"
    using n(1) assms(3) by (auto simp: word_less_nat_alt)
  ultimately show ?thesis by simp
qed

interpretation fixed32_reader: progressing_reader pb_decode_fixed32
proof
  show "\<exists>v s'. pb_decode_fixed32 s = Some (v, s') \<and> moved s src s'" if "ibuf s src"
    for s :: "'a pb_istream" and src
    using buffer_reader.stays_inside [OF reader_fixed32 that] .
  show "unat (bytes_left s') < unat (bytes_left s)"
    if "ibuf s src" "pb_decode_fixed32 s = Some (Some v, s')" for s :: "'a pb_istream" and src v s'
    using that pb_read_progress [OF that(1), of 4]
    by (auto simp: pb_decode_fixed32_def split: option.splits if_splits)
qed

interpretation fixed64_reader: progressing_reader pb_decode_fixed64
proof
  show "\<exists>v s'. pb_decode_fixed64 s = Some (v, s') \<and> moved s src s'" if "ibuf s src"
    for s :: "'a pb_istream" and src
    using buffer_reader.stays_inside [OF reader_fixed64 that] .
  show "unat (bytes_left s') < unat (bytes_left s)"
    if "ibuf s src" "pb_decode_fixed64 s = Some (Some v, s')" for s :: "'a pb_istream" and src v s'
    using that pb_read_progress [OF that(1), of 8]
    by (auto simp: pb_decode_fixed64_def split: option.splits if_splits)
qed

text \<open>Decoders built as a reader followed by a store into the item.\<close>

lemma decoder_read_then:
  assumes "progressing_reader rd"
    and store: "\<And>v s src m d. ibuf s src \<Longrightarrow> \<exists>ok s' m'. k v d (s, m) = Some (ok, (s', m')) \<and> moved s src s' \<and>
        (\<forall>x. \<not> in_range d (unat (data_size f)) x \<longrightarrow> m' x = m x)"
    and func: "\<And>s m d. func (s, m) f d = read_then (rd s) m (\<lambda>v st. k v d st)"
  shows "field_decoder func f"
proof
  fix s :: "'a pb_istream" and src m d
  assume ok: "ibuf s src"
  show "\<exists>ok s' m'. func (s, m) f d = Some (ok, (s', m')) \<and> moved s src s' \<and>
      (\<forall>x. \<not> in_range d (unat (data_size f)) x \<longrightarrow> m' x = m x) \<and>
      (ok \<longrightarrow> unat (bytes_left s') < unat (bytes_left s))"
  proof (cases rule: progressing_reader.reader_cases [OF assms(1) ok, case_names fail got])
    case (fail s1)
    then show ?thesis by (auto simp: func read_then_def)
  next
    case (got v s1)
    from store [OF got(3), of v d m] obtain r s2 m2 where
      k: "k v d (s1, m) = Some (r, (s2, m2))" "moved s1 (rest_of s1) s2"
        "\<forall>x. \<not> in_range d (unat (data_size f)) x \<longrightarrow> m2 x = m x" by blast
    with got have "func (s, m) f d = Some (r, (s2, m2))" by (simp add: func read_then_def)
    with k moved_trans [OF got(2) k(2)] moved_less_trans [OF got(2) k(2) got(4)] show ?thesis by auto
  qed
qed

text \<open>The storage a scalar type needs.\<close>

definition field_wf :: "pb_field \<Rightarrow> bool" where
  "field_wf f =
     (let lt = PB_LTYPE (ftype f) in
      (lt = PB_LTYPE_BOOL \<longrightarrow> 1 \<le> data_size f) \<and> (lt = PB_LTYPE_FIXED32 \<longrightarrow> 4 \<le> data_size f) \<and>
      (lt = PB_LTYPE_FIXED64 \<longrightarrow> 8 \<le> data_size f))"

lemma frame_wr8: "1 \<le> n \<Longrightarrow> \<not> in_range d n x \<Longrightarrow> wr8 m d v x = m x"
  using in_range_mono [of d 1 x n] by (auto intro: wr8_frame)

lemma frame_wr32: "4 \<le> n \<Longrightarrow> \<not> in_range d n x \<Longrightarrow> wr32 m d v x = m x"
  using in_range_mono [of d 4 x n] by (auto intro: wr32_frame)

lemma frame_wr64: "8 \<le> n \<Longrightarrow> \<not> in_range d n x \<Longrightarrow> wr64 m d v x = m x"
  using in_range_mono [of d 8 x n] by (auto intro: wr64_frame)

lemma clamp_signed_confined:
  "ibuf s src \<Longrightarrow> \<exists>ok s' m'. clamp_result (s, m) v (store_signed m n d v) = Some (ok, (s', m')) \<and> moved s src s' \<and>
     (\<forall>x. \<not> in_range d (unat n) x \<longrightarrow> m' x = m x)"
  by (auto simp: clamp_result_def store_signed_def dec_error_def frame_simps intro: moved_refl moved_error)

lemma clamp_unsigned_confined:
  "ibuf s src \<Longrightarrow> \<exists>ok s' m'. clamp_result (s, m) v (store_unsigned m n d v) = Some (ok, (s', m')) \<and> moved s src s' \<and>
     (\<forall>x. \<not> in_range d (unat n) x \<longrightarrow> m' x = m x)"
  by (auto simp: clamp_result_def store_unsigned_def dec_error_def frame_simps intro: moved_refl moved_error)

lemma decoder_bool: "1 \<le> data_size f \<Longrightarrow> field_decoder pb_dec_bool f"
  by (rule decoder_read_then [where k = "\<lambda>v d (s, m). Some (True, (s, wr8 m d (if v \<noteq> 0 then 1 else 0)))",
        OF varint32_reader.progressing_reader_axioms])
     (auto simp: pb_dec_bool_def word_le_nat_alt intro: moved_refl frame_wr8)


lemma decoder_varint: "field_decoder pb_dec_varint f"
  by (rule decoder_read_then [OF varint_reader.progressing_reader_axioms, rotated])
     (simp add: pb_dec_varint_def Let_def, use clamp_signed_confined in fastforce)

lemma decoder_uvarint: "field_decoder pb_dec_uvarint f"
  by (rule decoder_read_then [OF varint_reader.progressing_reader_axioms, rotated])
     (simp add: pb_dec_uvarint_def, use clamp_unsigned_confined in fastforce)

lemma decoder_svarint: "field_decoder pb_dec_svarint f"
  by (rule decoder_read_then [OF svarint_reader.progressing_reader_axioms, rotated])
     (simp add: pb_dec_svarint_def, use clamp_signed_confined in fastforce)

interpretation dec_varint: field_decoder pb_dec_varint f for f by (rule decoder_varint)
interpretation dec_uvarint: field_decoder pb_dec_uvarint f for f by (rule decoder_uvarint)
interpretation dec_svarint: field_decoder pb_dec_svarint f for f by (rule decoder_svarint)

lemma decoder_fixed32: "4 \<le> data_size f \<Longrightarrow> field_decoder pb_dec_fixed32 f"
  by (rule decoder_read_then [where k = "\<lambda>v d (s, m). Some (True, (s, wr32 m d v))",
        OF fixed32_reader.progressing_reader_axioms])
     (auto simp: pb_dec_fixed32_def word_le_nat_alt intro: moved_refl frame_wr32)

lemma decoder_fixed64: "8 \<le> data_size f \<Longrightarrow> field_decoder pb_dec_fixed64 f"
  by (rule decoder_read_then [where k = "\<lambda>v d (s, m). Some (True, (s, wr64 m d v))",
        OF fixed64_reader.progressing_reader_axioms])
     (auto simp: pb_dec_fixed64_def word_le_nat_alt intro: moved_refl frame_wr64)

lemma unat_add_le: "unat ((a :: 'a::len word) + b) \<le> unat a + unat b"
  by (simp add: unat_word_ariths)

lemma in_range_shift: "in_range (d + c) n x \<Longrightarrow> unat c + n \<le> k \<Longrightarrow> in_range d k x"
proof -
  assume a: "in_range (d + c) n x" "unat c + n \<le> k"
  have "unat (x - d) = unat ((x - (d + c)) + c)" by simp
  also have "\<dots> \<le> unat (x - (d + c)) + unat c" by (rule unat_add_le)
  finally show ?thesis using a by (simp add: in_range_def)
qed

lemma read_to_mem_confined:
  assumes "ibuf s src" and "unat c + unat n \<le> k"
  shows "\<exists>ok s' m'. read_to_mem (s, m) (d + c) n = Some (ok, (s', m')) \<and> moved s src s' \<and>
     (\<forall>x. \<not> in_range d k x \<longrightarrow> m' x = m x)"
proof (cases "bytes_left s < n")
  case True
  with assms(1) show ?thesis
    by (auto simp: read_to_mem_def pb_read_buf intro: moved_refl moved_error)
next
  case False
  then have le: "unat n \<le> unat (bytes_left s)" by (simp add: word_less_nat_alt)
  have "wr_bytes m (d + c) (take (unat n) src) x = m x" if "\<not> in_range d k x" for x
    using that in_range_shift [of d c "unat n" x k] assms(2)
      in_range_mono [of "d + c" "length (take (unat n) src)" x "unat n"]
    by (intro wr_bytes_frame) auto
  with False le assms(1) show ?thesis
    by (auto simp: read_to_mem_def pb_read_buf intro: moved_advance)
qed

lemma decoder_fixed_length_bytes: "field_decoder pb_dec_fixed_length_bytes f"
proof (rule decoder_read_then [OF varint32_reader.progressing_reader_axioms, rotated])
  let ?k = "\<lambda>n d st. if PB_SIZE_MAX < n then dec_error st ''bytes overflow''
       else if n = 0 then Some (True, (fst st, memset (snd st) d 0 (unat (data_size f))))
       else if n \<noteq> data_size f then dec_error st ''incorrect fixed length bytes size''
       else read_to_mem st d (ucast (data_size f))"
  show "pb_dec_fixed_length_bytes (s, m) f d = read_then (pb_decode_varint32 s) m (\<lambda>v st. ?k v d st)" for s m d
    by (simp add: pb_dec_fixed_length_bytes_def)
  show "\<exists>ok s' m'. ?k v d (s, m) = Some (ok, (s', m')) \<and> moved s src s' \<and>
      (\<forall>x. \<not> in_range d (unat (data_size f)) x \<longrightarrow> m' x = m x)" if "ibuf s src" for v :: u32 and s src m d
    using read_to_mem_confined [OF that, of 0 "ucast (data_size f)" "unat (data_size f)" m d]
      that
    by (auto simp: dec_error_def unat_ucast_u32 memset_frame intro: moved_refl moved_error)
qed

lemma decoder_bytes:
  assumes "PB_ATYPE (ftype f) \<noteq> PB_ATYPE_POINTER"
  shows "field_decoder (pb_dec_bytes env) f"
proof (rule decoder_read_then [OF varint32_reader.progressing_reader_axioms, rotated])
  let ?k = "\<lambda>n d st. if PB_SIZE_MAX < n then dec_error st ''bytes overflow''
       else if PB_BYTES_ARRAY_T_ALLOCSIZE n < ucast n then dec_error st ''size too large''
       else if ucast (data_size f) < PB_BYTES_ARRAY_T_ALLOCSIZE n then dec_error st ''bytes overflow''
       else read_to_mem (fst st, wr32 (snd st) d n) (bytes_array_bytes d) (ucast n)"
  show "pb_dec_bytes env (s, m) f d = read_then (pb_decode_varint32 s) m (\<lambda>v st. ?k v d st)" for s m d
    using assms by (simp add: pb_dec_bytes_def Let_def cong: if_cong)
  show "\<exists>ok s' m'. ?k v d (s, m) = Some (ok, (s', m')) \<and> moved s src s' \<and>
      (\<forall>x. \<not> in_range d (unat (data_size f)) x \<longrightarrow> m' x = m x)" if ok: "ibuf s src" for v :: u32 and s src m d
  proof (cases "ucast (data_size f) < PB_BYTES_ARRAY_T_ALLOCSIZE v")
    case True
    with ok show ?thesis by (auto simp: dec_error_def intro: moved_refl moved_error)
  next
    case False
    have "unat v < 4294967296" by simp
    then have "unat v + 4 < 18446744073709551616" by linarith
    then have "unat v + 4 < 2 ^ 64" by simp
    then have u: "unat (PB_BYTES_ARRAY_T_ALLOCSIZE v) = unat v + 4"
      by (simp add: PB_BYTES_ARRAY_T_ALLOCSIZE_def unat_add_u64 unat_ucast_u32)
    with False have le: "4 + unat v \<le> unat (data_size f)"
      by (simp add: word_less_nat_alt unat_ucast_u32)
    have fr: "wr32 m d v x = m x" if "\<not> in_range d (unat (data_size f)) x" for x
      using that le by (intro frame_wr32 [of "unat (data_size f)"]) simp_all
    have "unat v < 4294967296" by simp
    then have "unat v \<le> 4294967295" by linarith
    then have "\<not> PB_SIZE_MAX < v" by (simp add: word_less_nat_alt not_less)
    with False read_to_mem_confined [OF ok, of 4 "ucast v" "unat (data_size f)" "wr32 m d v" d] le ok fr
    show ?thesis
      by (auto simp: dec_error_def unat_ucast_u32 bytes_array_bytes_def intro: moved_refl moved_error)
  qed
qed

lemma decoder_string:
  assumes "PB_ATYPE (ftype f) \<noteq> PB_ATYPE_POINTER"
  shows "field_decoder (pb_dec_string env) f"
proof (rule decoder_read_then [OF varint32_reader.progressing_reader_axioms, rotated])
  let ?k = "\<lambda>n d st. if (ucast (n + 1) :: u64) < ucast n then dec_error st ''size too large''
       else if ucast (data_size f) < (ucast (n + 1) :: u64) then dec_error st ''string overflow''
       else map_option (\<lambda>(ok, (s, m)). (ok, (s, wr8 m (d + ucast n) 0))) (read_to_mem st d (ucast n))"
  show "pb_dec_string env (s, m) f d = read_then (pb_decode_varint32 s) m (\<lambda>v st. ?k v d st)" for s m d
    using assms by (simp add: pb_dec_string_def Let_def cong: if_cong)
  show "\<exists>ok s' m'. ?k v d (s, m) = Some (ok, (s', m')) \<and> moved s src s' \<and>
      (\<forall>x. \<not> in_range d (unat (data_size f)) x \<longrightarrow> m' x = m x)" if ok: "ibuf s src" for v :: u32 and s src m d
  proof (cases "(ucast (v + 1) :: u64) < ucast v \<or> ucast (data_size f) < (ucast (v + 1) :: u64)")
    case True
    with ok show ?thesis by (auto simp: dec_error_def intro: moved_refl moved_error)
  next
    case False
    then have "unat v \<le> unat (v + 1)" "unat (v + 1) \<le> unat (data_size f)"
      by (auto simp: word_less_nat_alt unat_ucast_u32 not_less)
    moreover have "unat (v + 1) = (if unat v = 4294967295 then 0 else unat v + 1)"
    proof -
      have "unat v < 4294967296" by simp
      then have "unat v \<noteq> 4294967295 \<Longrightarrow> unat v + 1 < 4294967296" by linarith
      then show ?thesis by (auto simp: unat_plus_if')
    qed
    ultimately have le: "unat v + 1 \<le> unat (data_size f)" by (auto split: if_splits)
    have nul: "wr8 m' (d + ucast v) 0 x = m' x" if "\<not> in_range d (unat (data_size f)) x" for m' x
      using that le in_range_shift [of d "ucast v" 1 x "unat (data_size f)"]
      by (intro wr8_frame) (auto simp: unat_ucast_u32)
    from read_to_mem_confined [OF ok, of 0 "ucast v" "unat (data_size f)" m d] le
    obtain r s' m' where "read_to_mem (s, m) d (ucast v) = Some (r, (s', m'))" "moved s src s'"
        "\<forall>x. \<not> in_range d (unat (data_size f)) x \<longrightarrow> m' x = m x"
      by (auto simp: unat_ucast_u32)
    with False nul show ?thesis by simp
  qed
qed

lemma static_decoder:
  assumes "field_wf f" and "PB_ATYPE (ftype f) \<noteq> PB_ATYPE_POINTER"
    and "PB_LTYPE (ftype f) \<in> {0, 1, 2, 3, 4, 5, 6, 7, 10}"
  shows "field_decoder (PB_DECODERS env noinit full ! unat (PB_LTYPE (ftype f))) f"
  using assms
  by (auto simp: field_wf_def Let_def PB_DECODERS_def nth_Cons_numeral
      intro: decoder_bool decoder_varint decoder_uvarint decoder_svarint decoder_fixed32 decoder_fixed64
        decoder_bytes decoder_string decoder_fixed_length_bytes)

section \<open>Static fields\<close>

text \<open>
  A failing substream leaves its parent shortened but not advanced, so on failure only this weaker
  relation holds: what \<open>s'\<close> has left to read lies in what \<open>s\<close> had left.
\<close>

definition inside :: "'s pb_istream \<Rightarrow> u8 list \<Rightarrow> 's pb_istream \<Rightarrow> bool" where
  "inside s src s' \<longleftrightarrow>
     (\<exists>n. is_callback s' = IBufRead \<and> is_state s' = IBuf (drop n src) \<and>
        n + unat (bytes_left s') \<le> unat (bytes_left s))"

lemma moved_inside: "moved s src s' \<Longrightarrow> inside s src s'"
  by (auto simp: moved_def inside_def add.commute)

lemma inside_error: "inside s src s' \<Longrightarrow> inside s src (is_set_error s' msg)"
  by (simp add: inside_def is_set_error_def)

lemma inside_ibuf: "ibuf s src \<Longrightarrow> inside s src s' \<Longrightarrow> ibuf s' (rest_of s')"
  by (auto simp: inside_def ibuf_def rest_of_def)

lemma inside_trans:
  assumes "inside s src s1" and "inside s1 (rest_of s1) s2"
  shows "inside s src s2"
proof -
  obtain a b where
    a: "is_state s1 = IBuf (drop a src)" "a + unat (bytes_left s1) \<le> unat (bytes_left s)" and
    b: "is_callback s2 = IBufRead" "is_state s2 = IBuf (drop b (rest_of s1))"
       "b + unat (bytes_left s2) \<le> unat (bytes_left s1)"
    using assms by (auto simp: inside_def)
  from a b show ?thesis
    by (auto simp: inside_def rest_of_def add.commute intro!: exI [of _ "a + b"])
qed

lemma inside_shorter:
  assumes "inside s src s1" and "n \<le> bytes_left s1"
  shows "inside s src (s1\<lparr>bytes_left := bytes_left s1 - n\<rparr>)"
proof -
  have "unat (bytes_left s1 - n) \<le> unat (bytes_left s1)"
    using assms(2) by (simp add: unat_sub_u64 word_le_nat_alt)
  with assms(1) show ?thesis by (force simp: inside_def)
qed

lemma item_in_array:
  assumes "unat ds * unat as < 2 ^ 32" and "n < as"
    and "in_range (p + ucast (ds * n)) (unat ds) x"
  shows "in_range p (unat ds * unat (as :: u32)) x"
proof -
  have n: "unat n < unat as" using assms(2) by (simp add: word_less_nat_alt)
  then have "unat ds * (unat n + 1) \<le> unat ds * unat as" by (intro mult_left_mono) simp_all
  then have le: "unat ds * unat n + unat ds \<le> unat ds * unat as" by simp
  with assms(1) have "unat ds * unat n < 2 ^ 32" by linarith
  then have "unat (ds * n) = unat ds * unat n" by (simp add: unat_mult_lem [THEN iffD1])
  with le assms(3) show ?thesis
    by (intro in_range_shift [of p "ucast (ds * n)" "unat ds" x]) (simp_all add: unat_ucast_u32)
qed

text \<open>The storage of a static field: its items and its count.\<close>

definition field_storage :: "pb_field_iter \<Rightarrow> u64 \<Rightarrow> bool" where
  "field_storage it x \<longleftrightarrow>
     in_range (pData it) (unat (data_size (iter_field it)) * max 1 (unat (array_size (iter_field it)))) x \<or>
     in_range (pSize it) 4 x"

lemma storage_item:
  "unat (data_size (iter_field it)) * unat (array_size (iter_field it)) < 2 ^ 32 \<Longrightarrow>
   n < array_size (iter_field it) \<Longrightarrow> \<not> field_storage it x \<Longrightarrow>
   \<not> in_range (pData it + ucast (data_size (iter_field it) * n)) (unat (data_size (iter_field it))) x"
proof
  let ?f = "iter_field it"
  assume "unat (data_size ?f) * unat (array_size ?f) < 2 ^ 32" "n < array_size ?f"
    and no: "\<not> field_storage it x"
    and "in_range (pData it + ucast (data_size ?f * n)) (unat (data_size ?f)) x"
  then have "in_range (pData it) (unat (data_size ?f) * unat (array_size ?f)) x"
    by (intro item_in_array)
  then have "in_range (pData it) (unat (data_size ?f) * max 1 (unat (array_size ?f))) x"
    by (rule in_range_mono) simp
  with no show False by (simp add: field_storage_def)
qed

lemma storage_first:
  "\<not> field_storage it x \<Longrightarrow> \<not> in_range (pData it) (unat (data_size (iter_field it))) x"
  using in_range_mono [of "pData it" "unat (data_size (iter_field it))" x
      "unat (data_size (iter_field it)) * max 1 (unat (array_size (iter_field it)))"]
  by (auto simp: field_storage_def)

lemma storage_size: "\<not> field_storage it x \<Longrightarrow> wr32 m (pSize it) v x = m x"
  by (auto simp: field_storage_def intro: wr32_frame)

lemma storage_has: "\<not> field_storage it x \<Longrightarrow> wr8 m (pSize it) v x = m x"
  by (rule frame_wr8 [of 4]) (auto simp: field_storage_def)

lemma packed_loop_confined:
  assumes "field_decoder func (iter_field it)"
    and wf: "unat (data_size (iter_field it)) * unat (array_size (iter_field it)) < 2 ^ 32"
    and "ibuf s src" and "unat (bytes_left s) < k"
  shows "\<exists>ok s' m'. packed_loop k func it (s, m) = Some (ok, (s', m')) \<and> moved s src s' \<and>
    (\<forall>x. \<not> field_storage it x \<longrightarrow> m' x = m x)"
  using assms(3,4)
proof (induction k arbitrary: s src m)
  case 0
  then show ?case by simp
next
  case (Suc k)
  let ?f = "iter_field it" and ?n = "rd32 m (pSize it)"
  show ?case
  proof (cases "0 < bytes_left s \<and> ?n < array_size ?f")
    case False
    with Suc.prems show ?thesis by (auto simp: Let_def intro: moved_refl)
  next
    case True
    let ?item = "pData it + ucast (data_size ?f * ?n)"
    obtain ok s1 m1 where r: "func (s, m) ?f ?item = Some (ok, (s1, m1))" and m: "moved s src s1"
      and fr: "\<forall>x. \<not> in_range ?item (unat (data_size ?f)) x \<longrightarrow> m1 x = m x"
      and less: "ok \<longrightarrow> unat (bytes_left s1) < unat (bytes_left s)"
      using field_decoder.confined [OF assms(1) Suc.prems(1)] by blast
    have fr1: "m1 x = m x" if "\<not> field_storage it x" for x
      using fr storage_item [OF wf _ that, of ?n] True by blast
    show ?thesis
    proof (cases ok)
      case False
      with r m fr1 True show ?thesis by (auto simp: Let_def and_then_def)
    next
      case ok: True
      let ?m = "wr32 m1 (pSize it) (rd32 m1 (pSize it) + 1)"
      have "ibuf s1 (rest_of s1)" using Suc.prems(1) m by (rule moved_ibuf)
      moreover have "unat (bytes_left s1) < k" using less ok Suc.prems(2) by simp
      ultimately obtain ok2 s2 m2 where r2: "packed_loop k func it (s1, ?m) = Some (ok2, (s2, m2))"
        and m2: "moved s1 (rest_of s1) s2" and fr2: "\<forall>x. \<not> field_storage it x \<longrightarrow> m2 x = ?m x"
        using Suc.IH by blast
      from r ok True r2 have "packed_loop (Suc k) func it (s, m) = Some (ok2, (s2, m2))"
        by (simp add: Let_def and_then_def)
      moreover from fr2 fr1 have "\<forall>x. \<not> field_storage it x \<longrightarrow> m2 x = m x" by (simp add: storage_size)
      ultimately show ?thesis using moved_trans [OF m m2] by blast
    qed
  qed
qed

lemma static_field_confined_gen:
  assumes func: "field_decoder func (iter_field it)"
    and wf: "unat (data_size (iter_field it)) * unat (array_size (iter_field it)) < 2 ^ 32"
    and lt: "PB_LTYPE (ftype (iter_field it)) \<noteq> PB_LTYPE_SUBMESSAGE"
    and ok: "ibuf s src"
  shows "\<exists>r s' m'. decode_static_field env func defaults (s, m) wt it = Some (r, (s', m')) \<and>
    inside s src s' \<and> (r \<longrightarrow> moved s src s') \<and> (\<forall>x. \<not> field_storage it x \<longrightarrow> m' x = m x)"
proof -
  let ?f = "iter_field it" and ?h = "PB_HTYPE (ftype (iter_field it))"
  have first: "\<exists>r s' m'. func (s, m1) ?f (pData it) = Some (r, (s', m')) \<and> inside s src s' \<and>
      (r \<longrightarrow> moved s src s') \<and> (\<forall>x. \<not> field_storage it x \<longrightarrow> m' x = m x)"
    if "\<forall>x. \<not> field_storage it x \<longrightarrow> m1 x = m x" for m1
    using field_decoder.confined [OF func ok, of m1 "pData it"] that storage_first [of it] moved_inside by metis
  consider "?h = PB_HTYPE_REQUIRED" | "?h = PB_HTYPE_OPTIONAL"
    | "?h = PB_HTYPE_REPEATED" | "?h \<noteq> PB_HTYPE_REQUIRED" "?h \<noteq> PB_HTYPE_OPTIONAL" "?h \<noteq> PB_HTYPE_REPEATED"
    by blast
  then show ?thesis
  proof cases
    case 1
    with first [of m] show ?thesis by (simp add: decode_static_field_def Let_def)
  next
    case 2
    with first [of "if pSize it \<noteq> pData it then wr8 m (pSize it) 1 else m"] show ?thesis
      by (simp add: decode_static_field_def Let_def storage_has)
  next
    case 4
    with first [of "wr32 m (pSize it) (tag ?f)"] lt show ?thesis
      by (simp add: decode_static_field_def Let_def storage_size)
  next
    case 3
    show ?thesis
    proof (cases "wt = PB_WT_STRING \<and> PB_LTYPE (ftype ?f) \<le> PB_LTYPE_LAST_PACKABLE")
      case False
      let ?n = "rd32 m (pSize it)"
      let ?m = "wr32 m (pSize it) (?n + 1)"
      show ?thesis
      proof (cases "array_size ?f \<le> ?n")
        case True
        with 3 False ok show ?thesis
          by (auto simp: decode_static_field_def Let_def dec_error_def storage_size
              intro: moved_refl moved_error moved_inside)
      next
        case fits: False
        obtain r s' m' where c: "func (s, ?m) ?f (pData it + ucast (data_size ?f * ?n)) = Some (r, (s', m'))"
          "moved s src s'"
          "\<forall>x. \<not> in_range (pData it + ucast (data_size ?f * ?n)) (unat (data_size ?f)) x \<longrightarrow> m' x = ?m x"
          using field_decoder.confined [OF func ok] by blast
        have "\<forall>x. \<not> field_storage it x \<longrightarrow> m' x = m x"
          using c(3) storage_item [OF wf] fits storage_size [of it] by (metis not_le)
        with 3 False fits c show ?thesis
          by (auto simp: decode_static_field_def Let_def intro: moved_inside)
      qed
    next
      case packed: True
      from ok show ?thesis
      proof (cases rule: make_substream_inside)
        case (fail s1)
        with 3 packed show ?thesis by (auto simp: decode_static_field_def Let_def intro: moved_inside)
      next
        case (sub n s1)
        let ?sub = "s1\<lparr>bytes_left := n\<rparr>" and ?par = "s1\<lparr>bytes_left := bytes_left s1 - n\<rparr>"
        have "ibuf ?sub (rest_of s1)" using sub(4,3) by (rule ibuf_shorter)
        then obtain r sub1 m1 where l: "packed_loop (Suc (unat (bytes_left ?sub))) func it (?sub, m) = Some (r, (sub1, m1))"
          "moved ?sub (rest_of s1) sub1" "\<forall>x. \<not> field_storage it x \<longrightarrow> m1 x = m x"
          using packed_loop_confined [OF func wf, of ?sub "rest_of s1" "Suc (unat (bytes_left ?sub))" m] by auto
        have par: "inside s src ?par" using moved_inside [OF sub(2)] sub(3) by (rule inside_shorter)
        show ?thesis
        proof (cases "bytes_left sub1 = 0")
          case False
          with 3 packed sub(1) l(1,3) par show ?thesis
            by (auto simp: decode_static_field_def Let_def dec_error_def intro: inside_error)
        next
          case True
          have "pb_close_string_substream ?par sub1 =
              Some (Some (), (advance s1 (rest_of s1) (unat n))\<lparr>is_errmsg := is_errmsg sub1\<rparr>)"
            by (rule close_substream [OF sub(4,3) l(2)])
          moreover have "moved s src ((advance s1 (rest_of s1) (unat n))\<lparr>is_errmsg := is_errmsg sub1\<rparr>)"
            by (rule moved_close [OF sub(4,3,2)])
          ultimately show ?thesis using 3 packed sub(1) l(1,3) True
            by (auto simp: decode_static_field_def Let_def close_and_return_def read_then_def
                intro: moved_inside)
        qed
      qed
    qed
  qed
qed

lemma rd_wr_copy:
  assumes "n < 2 ^ 64" and "unat v = of_le (rd_bytes m p n)"
  shows "rd_bytes (wr_bytes m2 d (le_bytes n (unat v))) d n = rd_bytes m p n"
proof -
  have "le_bytes n (unat v) = rd_bytes m p n"
    using le_bytes_of_le [of "rd_bytes m p n"] assms(2) by simp
  with rd_wr_bytes [of "rd_bytes m p n" m2 d] assms(1) show ?thesis by simp
qed

lemma unat_rd16: "unat (rd16 m p) = of_le (rd_bytes m p 2)"
  using of_le_bound [of "rd_bytes m p 2"] by (simp add: rd16_def unat_of_nat_eq)
lemma unat_rd32: "unat (rd32 m p) = of_le (rd_bytes m p 4)"
  using of_le_bound [of "rd_bytes m p 4"] by (simp add: rd32_def unat_of_nat_eq)
lemma unat_rd64: "unat (rd64 m p) = of_le (rd_bytes m p 8)"
  using of_le_bound [of "rd_bytes m p 8"] by (simp add: rd64_def unat_of_nat_eq)

lemma copy8: "rd_bytes (wr8 m2 d (rd8 m p)) d 1 = rd_bytes m p 1"
  by (simp add: rd_bytes_def wr8_def rd8_def wr_bytes_def)
lemma copy16: "rd_bytes (wr16 m2 d (rd16 m p)) d 2 = rd_bytes m p 2"
  unfolding wr16_def by (rule rd_wr_copy) (simp_all add: unat_rd16)
lemma copy32: "rd_bytes (wr32 m2 d (rd32 m p)) d 4 = rd_bytes m p 4"
  unfolding wr32_def by (rule rd_wr_copy) (simp_all add: unat_rd32)
lemma copy64: "rd_bytes (wr64 m2 d (rd64 m p)) d 8 = rd_bytes m p 8"
  unfolding wr64_def by (rule rd_wr_copy) (simp_all add: unat_rd64)

lemma narrow_signed:
  "ucast (scast (a :: u8) :: u64) = a" "ucast (scast (b :: u16) :: u64) = b" "ucast (scast (c :: u32) :: u64) = c"
  by (rule bit_word_eqI, simp add: bit_unsigned_iff bit_signed_iff min_absorb2)+

lemma int32_of_narrow:
  "scast (ucast (scast (a :: u8) :: u64) :: u32) = (scast a :: u64)"
  "scast (ucast (scast (b :: u16) :: u64) :: u32) = (scast b :: u64)"
  by (rule bit_word_eqI, auto simp add: bit_unsigned_iff bit_signed_iff min_def)+

lemma narrow_unsigned:
  "ucast (ucast (a :: u8) :: u64) = a" "ucast (ucast (b :: u16) :: u64) = b" "ucast (ucast (c :: u32) :: u64) = c"
  by (rule bit_word_eqI, simp add: bit_unsigned_iff)+


text \<open>What a scalar field encoder writes and the field decoder stores.\<close>

definition carries :: "'s encoder \<Rightarrow> 't decoder \<Rightarrow> mem \<Rightarrow> pb_field \<Rightarrow> u64 \<Rightarrow> bool" where
  "carries enc dec m f p \<longleftrightarrow>
     (\<exists>B. emits (\<lambda>s. enc s f p) B \<and>
        (\<forall>s rest m2 d. ibuf s (B @ rest) \<longrightarrow> length B \<le> unat (bytes_left s) \<longrightarrow>
           (\<exists>m3. dec (s, m2) f d = Some (True, (advance s (B @ rest) (length B), m3)) \<and>
              rd_bytes m3 d (unat (data_size f)) = rd_bytes m p (unat (data_size f)))))"

lemma carriesI:
  assumes "emits (\<lambda>s. enc s f p) B"
    and "\<And>s rest m2 d. ibuf s (B @ rest) \<Longrightarrow> length B \<le> unat (bytes_left s) \<Longrightarrow>
      \<exists>m3. dec (s, m2) f d = Some (True, (advance s (B @ rest) (length B), m3)) \<and>
        rd_bytes m3 d (unat (data_size f)) = rd_bytes m p (unat (data_size f))"
  shows "carries enc dec m f p"
  unfolding carries_def using assms by blast

lemma scalar_sizes: "sz \<in> {1, 2, 4, 8 :: u32} \<Longrightarrow> sz = 1 \<or> sz = 2 \<or> sz = 4 \<or> sz = 8"
  by blast

lemma carries_varint:
  assumes "data_size f \<in> {1, 2, 4, 8}"
  shows "carries (pb_enc_varint m) pb_dec_varint m f p"
proof -
  obtain v where v: "read_signed m (data_size f) p = Some v"
    using assms by (auto simp: read_signed_def)
  have e: "(\<lambda>s. pb_enc_varint m s f p) = (\<lambda>s. pb_encode_varint s v)"
    using v by (simp add: pb_enc_varint_def fun_eq_iff)
  have i: "(if data_size f = 8 then v else scast (ucast v :: u32)) = v"
    using assms v by (auto simp: read_signed_def int32_of_narrow narrow_signed)
  have st: "\<exists>m3. clamp_result (s, m2) v (store_signed m2 (data_size f) d v) = Some (True, (s, m3)) \<and>
      rd_bytes m3 d (unat (data_size f)) = rd_bytes m p (unat (data_size f))" for s m2 d
    using assms v
    by (auto simp: read_signed_def store_signed_def clamp_result_def narrow_signed copy8 [simplified] copy16 copy32 copy64)
  show ?thesis
  proof (rule carriesI)
    show "emits (\<lambda>s. pb_enc_varint m s f p) (varint_bytes v)" unfolding e by (rule emits_varint)
    show "\<exists>m3. pb_dec_varint (s, m2) f d = Some (True, (advance s (varint_bytes v @ rest) (length (varint_bytes v)), m3)) \<and>
        rd_bytes m3 d (unat (data_size f)) = rd_bytes m p (unat (data_size f))"
      if "ibuf s (varint_bytes v @ rest)" "length (varint_bytes v) \<le> unat (bytes_left s)" for s rest m2 d
      using varint.decode_encoded [OF that] st
      by (simp add: pb_dec_varint_def read_then_def Let_def i cong: if_cong)
  qed
qed

lemma carries_uvarint:
  assumes "data_size f \<in> {1, 2, 4, 8}"
  shows "carries (pb_enc_uvarint m) pb_dec_uvarint m f p"
proof -
  obtain v where v: "read_unsigned m (data_size f) p = Some v"
    using assms by (auto simp: read_unsigned_def)
  have e: "(\<lambda>s. pb_enc_uvarint m s f p) = (\<lambda>s. pb_encode_varint s v)"
    using v by (simp add: pb_enc_uvarint_def fun_eq_iff)
  have st: "\<exists>m3. clamp_result (s, m2) v (store_unsigned m2 (data_size f) d v) = Some (True, (s, m3)) \<and>
      rd_bytes m3 d (unat (data_size f)) = rd_bytes m p (unat (data_size f))" for s m2 d
    using assms v
    by (auto simp: read_unsigned_def store_unsigned_def clamp_result_def narrow_unsigned copy8 [simplified] copy16 copy32 copy64)
  show ?thesis
  proof (rule carriesI)
    show "emits (\<lambda>s. pb_enc_uvarint m s f p) (varint_bytes v)" unfolding e by (rule emits_varint)
    show "\<exists>m3. pb_dec_uvarint (s, m2) f d = Some (True, (advance s (varint_bytes v @ rest) (length (varint_bytes v)), m3)) \<and>
        rd_bytes m3 d (unat (data_size f)) = rd_bytes m p (unat (data_size f))"
      if "ibuf s (varint_bytes v @ rest)" "length (varint_bytes v) \<le> unat (bytes_left s)" for s rest m2 d
      using varint.decode_encoded [OF that] st by (simp add: pb_dec_uvarint_def read_then_def)
  qed
qed

lemma carries_svarint:
  assumes "data_size f \<in> {1, 2, 4, 8}"
  shows "carries (pb_enc_svarint m) pb_dec_svarint m f p"
proof -
  obtain v where v: "read_signed m (data_size f) p = Some v"
    using assms by (auto simp: read_signed_def)
  have e: "(\<lambda>s. pb_enc_svarint m s f p) = (\<lambda>s. pb_encode_svarint s v)"
    using v by (simp add: pb_enc_svarint_def fun_eq_iff)
  have st: "\<exists>m3. clamp_result (s, m2) v (store_signed m2 (data_size f) d v) = Some (True, (s, m3)) \<and>
      rd_bytes m3 d (unat (data_size f)) = rd_bytes m p (unat (data_size f))" for s m2 d
    using assms v
    by (auto simp: read_signed_def store_signed_def clamp_result_def narrow_signed copy8 [simplified] copy16 copy32 copy64)
  show ?thesis
  proof (rule carriesI)
    let ?B = "varint_bytes (zigzag v)"
    show "emits (\<lambda>s. pb_enc_svarint m s f p) ?B" unfolding e by (rule emits_svarint)
    show "\<exists>m3. pb_dec_svarint (s, m2) f d = Some (True, (advance s (?B @ rest) (length ?B), m3)) \<and>
        rd_bytes m3 d (unat (data_size f)) = rd_bytes m p (unat (data_size f))"
      if "ibuf s (?B @ rest)" "length ?B \<le> unat (bytes_left s)" for s rest m2 d
      using svarint.decode_encoded [OF that] st by (simp add: pb_dec_svarint_def read_then_def)
  qed
qed

lemma carries_fixed32: "data_size f = 4 \<Longrightarrow> carries (pb_enc_fixed32 m) pb_dec_fixed32 m f p"
proof (rule carriesI)
  show "emits (\<lambda>s. pb_enc_fixed32 m s f p) (fixed32_bytes (rd32 m p))"
    unfolding pb_enc_fixed32_def by (rule emits_fixed32)
  assume "data_size f = 4"
  then show "\<exists>m3. pb_dec_fixed32 (s, m2) f d = Some (True, (advance s (fixed32_bytes (rd32 m p) @ rest) (length (fixed32_bytes (rd32 m p))), m3)) \<and>
      rd_bytes m3 d (unat (data_size f)) = rd_bytes m p (unat (data_size f))"
    if "ibuf s (fixed32_bytes (rd32 m p) @ rest)" "length (fixed32_bytes (rd32 m p)) \<le> unat (bytes_left s)" for s rest m2 d
    using fixed32.decode_encoded [OF that] by (simp add: pb_dec_fixed32_def read_then_def copy32)
qed

lemma carries_fixed64: "data_size f = 8 \<Longrightarrow> carries (pb_enc_fixed64 m) pb_dec_fixed64 m f p"
proof (rule carriesI)
  show "emits (\<lambda>s. pb_enc_fixed64 m s f p) (fixed64_bytes (rd64 m p))"
    unfolding pb_enc_fixed64_def by (rule emits_fixed64)
  assume "data_size f = 8"
  then show "\<exists>m3. pb_dec_fixed64 (s, m2) f d = Some (True, (advance s (fixed64_bytes (rd64 m p) @ rest) (length (fixed64_bytes (rd64 m p))), m3)) \<and>
      rd_bytes m3 d (unat (data_size f)) = rd_bytes m p (unat (data_size f))"
    if "ibuf s (fixed64_bytes (rd64 m p) @ rest)" "length (fixed64_bytes (rd64 m p)) \<le> unat (bytes_left s)" for s rest m2 d
    using fixed64.decode_encoded [OF that] by (simp add: pb_dec_fixed64_def read_then_def copy64)
qed

lemma scalar_entry:
  assumes "PB_LTYPE (ftype f) \<in> {1, 2, 3} \<and> data_size f \<in> {1, 2, 4, 8} \<or>
    PB_LTYPE (ftype f) = 4 \<and> data_size f = 4 \<or> PB_LTYPE (ftype f) = 5 \<and> data_size f = 8"
  shows "carries (PB_ENCODERS eenv m rec ! unat (PB_LTYPE (ftype f)))
    (PB_DECODERS denv noinit full ! unat (PB_LTYPE (ftype f))) m f p"
  using assms
  by (elim disjE conjE insertE)
     (simp_all add: PB_ENCODERS_def PB_DECODERS_def nth_Cons_numeral
       carries_varint carries_uvarint carries_svarint carries_fixed32 carries_fixed64)


lemma fits_unsigned:
  assumes "LENGTH('n) \<le> 64"
  shows "(ucast (ucast v :: 'n::len word) = (v :: u64)) \<longleftrightarrow> unat v < 2 ^ LENGTH('n)"
proof -
  have "unat (ucast (ucast v :: 'n word) :: u64) = unat v mod 2 ^ LENGTH('n)"
  proof -
    have "unat v mod 2 ^ LENGTH('n) < 2 ^ LENGTH('n)" by simp
    also have "\<dots> \<le> (2 :: nat) ^ 64" using assms by (rule power_increasing) simp
    finally show ?thesis by (simp add: unat_ucast_mod)
  qed
  then have "(ucast (ucast v :: 'n word) = v) \<longleftrightarrow> unat v mod 2 ^ LENGTH('n) = unat v"
    by (simp only: word_unat_eq_iff)
  also have "\<dots> \<longleftrightarrow> unat v < 2 ^ LENGTH('n)" by (simp add: mod_eq_self_iff_div_eq_0 div_eq_0_iff)
  finally show ?thesis .
qed

lemma fits_signed:
  assumes "LENGTH('n) \<le> 64"
  shows "(scast (ucast v :: 'n::len word) = (v :: u64)) \<longleftrightarrow>
    - (2 ^ (LENGTH('n) - 1)) \<le> sint v \<and> sint v < 2 ^ (LENGTH('n) - 1)"
proof -
  let ?n = "LENGTH('n) - Suc 0"
  have "sint (scast (ucast v :: 'n word) :: u64) = signed_take_bit ?n (sint v)"
    using assms by (cases "LENGTH('n) = 64"; intro bit_eqI) (auto simp: bit_simps min_def)
  moreover have "(scast (ucast v :: 'n word) = v) \<longleftrightarrow> sint (scast (ucast v :: 'n word) :: u64) = sint v"
    by (rule word_eq_iff_signed)
  ultimately have "(scast (ucast v :: 'n word) = v) \<longleftrightarrow> signed_take_bit ?n (sint v) = sint v"
    by (simp only:)
  also have "\<dots> \<longleftrightarrow> - (2 ^ ?n) \<le> sint v \<and> sint v < 2 ^ ?n"
    by (rule signed_take_bit_int_eq_self_iff)
  finally show ?thesis by simp
qed

lemma clamp_fst: "map_option fst (clamp_result st v (Some (c, m))) = Some (c = v)"
  by (simp add: clamp_result_def dec_error_def)

lemma unsigned_range:
  assumes "n \<in> {1, 2, 4, 8}"
  shows "map_option fst (clamp_result st v (store_unsigned m n d v)) = Some (unat v < 2 ^ (8 * unat n))"
  using assms
  by (elim insertE)
     (simp_all add: store_unsigned_def clamp_fst fits_unsigned)

lemma signed_range:
  assumes "n \<in> {1, 2, 4, 8}"
  shows "map_option fst (clamp_result st v (store_signed m n d v)) =
    Some (- (2 ^ (8 * unat n - 1)) \<le> sint v \<and> sint v < 2 ^ (8 * unat n - 1))"
  using assms sint_greater_eq [of v] sint_less [of v]
  by (elim insertE)
     (simp_all add: store_signed_def clamp_fst fits_signed)

text \<open>C10: the overflow check of the integer fields is exact: a varint for an unsigned field of 1, 2, 4 or
  8 bytes is accepted exactly when the field can hold its value, a zigzag varint for a signed field
  exactly when the field can hold the signed value.\<close>

theorem integer_range_check:
  assumes "data_size f \<in> {1, 2, 4, 8}"
    and "ibuf s (varint_bytes u @ rest)" and "length (varint_bytes u) \<le> unat (bytes_left s)"
    and "ibuf t (varint_bytes (zigzag v) @ rest)" and "length (varint_bytes (zigzag v)) \<le> unat (bytes_left t)"
  shows "map_option fst (pb_dec_uvarint (s, m) f d) = Some (unat u < 2 ^ (8 * unat (data_size f))) \<and>
    map_option fst (pb_dec_svarint (t, m) f d) =
      Some (- (2 ^ (8 * unat (data_size f) - 1)) \<le> sint v \<and> sint v < 2 ^ (8 * unat (data_size f) - 1))"
  using varint.decode_encoded [OF assms(2,3)] svarint.decode_encoded [OF assms(4,5)]
  by (simp only: unsigned_range [OF assms(1)] signed_range [OF assms(1)] pb_dec_uvarint_def pb_dec_svarint_def read_then_def option.case prod.case fst_conv
      snd_conv simp_thms)

text \<open>C11: a scalar field survives the wire: for every varint, zigzag and fixed-width field, whatever its
  width, the bytes its encoder emits from memory are decoded by the field decoder, which consumes
  exactly them and stores at the destination the same bytes as at the source.\<close>

theorem scalar_field_roundtrip:
  assumes "PB_LTYPE (ftype f) \<in> {1, 2, 3} \<and> data_size f \<in> {1, 2, 4, 8} \<or>
    PB_LTYPE (ftype f) = 4 \<and> data_size f = 4 \<or> PB_LTYPE (ftype f) = 5 \<and> data_size f = 8"
  shows "\<exists>B. emits (\<lambda>s. (PB_ENCODERS eenv m rec ! unat (PB_LTYPE (ftype f))) s f p) B \<and>
    (\<forall>s rest m2 d. ibuf s (B @ rest) \<longrightarrow> length B \<le> unat (bytes_left s) \<longrightarrow>
       (\<exists>m3. (PB_DECODERS denv noinit full ! unat (PB_LTYPE (ftype f))) (s, m2) f d =
            Some (True, (advance s (B @ rest) (length B), m3)) \<and>
          rd_bytes m3 d (unat (data_size f)) = rd_bytes m p (unat (data_size f))))"
  using scalar_entry [OF assms] unfolding carries_def .

text \<open>C12: decoding a static field is confined, whatever bytes arrive: for every type but submessages and
  every repetition rule the call returns, it reads only inside the buffer, and it writes no byte of
  memory outside the field's items (\<open>array_size\<close> times \<open>data_size\<close>) and its count; the array bound is
  checked before an item is stored.\<close>

theorem static_field_confined:
  assumes "field_wf (iter_field it)" and "PB_ATYPE (ftype (iter_field it)) \<noteq> PB_ATYPE_POINTER"
    and "PB_LTYPE (ftype (iter_field it)) \<in> {0, 1, 2, 3, 4, 5, 6, 7, 10}"
    and "unat (data_size (iter_field it)) * unat (array_size (iter_field it)) < 2 ^ 32"
    and "ibuf s src"
  shows "\<exists>r s' m'. decode_static_field env
      (PB_DECODERS env noinit full ! unat (PB_LTYPE (ftype (iter_field it)))) defaults (s, m) wt it =
        Some (r, (s', m')) \<and>
    inside s src s' \<and> (r \<longrightarrow> moved s src s') \<and> (\<forall>x. \<not> field_storage it x \<longrightarrow> m' x = m x)"
  using assms by (intro static_field_confined_gen static_decoder) auto

lemma wr_bytes_snoc:
  assumes "length str < 2 ^ 63"
  shows "wr8 (wr_bytes m d str) (d + of_nat (length str)) v = wr_bytes m d (str @ [v])"
proof
  fix x
  have u: "unat (of_nat (length str) :: u64) = length str"
    using assms by (intro unat_of_nat_u64) simp
  have e: "unat (x - (d + of_nat (length str))) = 0 \<longleftrightarrow> unat (x - d) = length str"
  proof -
    have "unat (x - (d + of_nat (length str))) = 0 \<longleftrightarrow> x - d = of_nat (length str)"
      by (auto simp: unat_eq_0 algebra_simps)
    also have "\<dots> \<longleftrightarrow> unat (x - d) = length str" using u by (auto simp: word_unat_eq_iff)
    finally show ?thesis .
  qed
  consider "unat (x - d) < length str" | "unat (x - d) = length str" | "length str < unat (x - d)" by linarith
  then show "wr8 (wr_bytes m d str) (d + of_nat (length str)) v x = wr_bytes m d (str @ [v]) x"
    by cases (use e in \<open>auto simp: wr8_def wr_bytes_def [of "wr_bytes m d str"] less_Suc_eq wr_bytes_def nth_append\<close>)
qed

text \<open>C13: a string field of the message is stored with its terminator or not at all: the bytes and a
  final 0 are written when they fit in the field, otherwise the decoder fails and memory is
  unchanged.\<close>

theorem string_field_decoded:
  fixes n :: u32
  assumes "PB_ATYPE (ftype f) \<noteq> PB_ATYPE_POINTER"
    and "ibuf s (varint_bytes (ucast n) @ str @ rest)" and "length str = unat n"
    and "length (varint_bytes (ucast n)) + unat n \<le> unat (bytes_left s)"
  shows "if n < data_size f
    then \<exists>m'. pb_dec_string env (s, m) f d =
          Some (True, (advance s (varint_bytes (ucast n) @ str @ rest) (length (varint_bytes (ucast n) @ str)), m')) \<and>
        rd_bytes m' d (unat n + 1) = str @ [0]
    else \<exists>s'. pb_dec_string env (s, m) f d = Some (False, (s', m))"
proof -
  let ?p = "varint_bytes (ucast n)"
  let ?s = "advance s (?p @ str @ rest) (length ?p)"
  have l: "length ?p \<le> unat (bytes_left s)" using assms(4) by simp
  have r: "pb_decode_varint32 s = Some (Some n, ?s)"
    using assms(2) l by (rule varint32.decode_encoded)
  have inc: "unat (n + 1) = (if unat n = 4294967295 then 0 else unat n + 1)"
  proof -
    have "unat n < 4294967296" by simp
    then have "unat n \<noteq> 4294967295 \<Longrightarrow> unat n + 1 < 4294967296" by linarith
    then show ?thesis by (auto simp: unat_plus_if')
  qed
  show ?thesis
  proof (cases "n < data_size f")
    case False
    then have "(ucast (n + 1) :: u64) < ucast n \<or> ucast (data_size f) < (ucast (n + 1) :: u64)"
      using inc by (auto simp: word_less_nat_alt unat_ucast_u32)
    with False assms(1) r show ?thesis
      by (auto simp: pb_dec_string_def read_then_def Let_def dec_error_def)
  next
    case True
    have "unat (data_size f) < 4294967296" by simp
    moreover from True have "unat n < unat (data_size f)" by (simp add: word_less_nat_alt)
    ultimately have lt: "unat n < unat (data_size f)" "unat n \<noteq> 4294967295" by linarith+
    then have fits: "\<not> (ucast (n + 1) :: u64) < ucast n" "\<not> ucast (data_size f) < (ucast (n + 1) :: u64)"
      using inc by (simp_all add: word_less_nat_alt unat_ucast_u32)
    have ok: "ibuf ?s (str @ rest)" using advance_ibuf [OF assms(2) l] by simp
    have "unat n \<le> unat (bytes_left ?s)" using advance_left [OF l] assms(4) by simp
    then have left: "\<not> bytes_left ?s < ucast n" by (simp add: word_less_nat_alt unat_ucast_u32 not_less)
    define m1 where "m1 = wr_bytes m d str"
    define m2 where "m2 = wr8 m1 (d + ucast n) 0"
    have nw: "(ucast n :: u64) = of_nat (unat n)"
      by (rule unsigned_word_eqI [where 'a = nat]) (simp add: unat_ucast_u32 unat_of_nat_u64)
    have small: "length str < 2 ^ 63"
    proof -
      have "unat n < 4294967296" by simp
      also have "\<dots> < 2 ^ 63" by simp
      finally show ?thesis unfolding assms(3) .
    qed
    have "m2 = wr_bytes m d (str @ [0])"
      unfolding m2_def m1_def nw assms(3) [symmetric] by (rule wr_bytes_snoc [OF small])
    have "pb_dec_string env (s, m) f d =
        Some (True, (advance s (?p @ str @ rest) (length (?p @ str)), m2))"
      using assms(1,3) r fits left pb_read_buf [OF ok, of "ucast n"]
        advance_advance [of s "?p @ str @ rest" "length ?p" "unat n"]
      by (simp add: pb_dec_string_def read_then_def Let_def read_to_mem_def unat_ucast_u32 m1_def m2_def
          cong: if_cong)
    moreover have "rd_bytes m2 d (unat n + 1) = str @ [0]"
      using rd_wr_bytes [of "str @ [0]" m d] small assms(3) \<open>m2 = wr_bytes m d (str @ [0])\<close> by simp
    ultimately show ?thesis using True by auto
  qed
qed

section \<open>The field iterator\<close>

text \<open>The iterator at the \<open>k\<close>-th field, reached by stepping from the first.\<close>

primrec walk :: "pb_field list \<Rightarrow> u64 \<Rightarrow> nat \<Rightarrow> pb_field_iter" where
  "walk fs dest 0 = snd (pb_field_iter_begin fs dest)"
| "walk fs dest (Suc k) = snd (pb_field_iter_next (walk fs dest k))"

definition tags_ok :: "pb_field list \<Rightarrow> bool" where
  "tags_ok fs \<longleftrightarrow> fs \<noteq> [] \<and> list_all (\<lambda>f. tag f \<noteq> 0) fs"

lemma begin_start: "start (snd (pb_field_iter_begin fs dest)) = fs \<and> dest_struct (snd (pb_field_iter_begin fs dest)) = dest \<and>
   pos (snd (pb_field_iter_begin fs dest)) = 0"
  by (simp add: pb_field_iter_begin_def Let_def)

lemma walk_start: "k < length fs \<Longrightarrow> tags_ok fs \<Longrightarrow>
  start (walk fs dest k) = fs \<and> dest_struct (walk fs dest k) = dest \<and> pos (walk fs dest k) = k"
proof (induction k)
  case 0
  then show ?case by (simp add: begin_start)
next
  case (Suc k)
  then have "tag (fs ! k) \<noteq> 0" "tag (fs ! Suc k) \<noteq> 0"
    by (auto simp: tags_ok_def list_all_length)
  with Suc show ?case by (simp add: pb_field_iter_next_def Let_def iter_field_def field_at_def)
qed

lemma walk_next:
  assumes "tags_ok fs" and "k < length fs"
  shows "snd (pb_field_iter_next (walk fs dest k)) = walk fs dest (Suc k mod length fs)"
proof (cases "Suc k < length fs")
  case True
  then show ?thesis by simp
next
  case False
  with assms have k: "Suc k = length fs" by simp
  have "tag (fs ! k) \<noteq> 0" using assms by (auto simp: tags_ok_def list_all_length)
  with walk_start [OF assms(2,1), of dest] k assms(2) show ?thesis
    by (simp add: pb_field_iter_next_def Let_def iter_field_def field_at_def PB_LAST_FIELD_def)
qed


definition is_field :: "u32 \<Rightarrow> pb_field \<Rightarrow> bool" where
  "is_field t f \<longleftrightarrow> tag f = t \<and> PB_LTYPE (ftype f) \<noteq> PB_LTYPE_EXTENSION"

lemma iter_find_loop_walk:
  assumes "tags_ok fs" and "i < length fs"
  shows "d < length fs \<Longrightarrow> length fs - d \<le> n \<Longrightarrow>
    (\<exists>e. d \<le> e \<and> e < length fs \<and> is_field t (fs ! ((i + e) mod length fs)) \<and>
       iter_find_loop n i t (walk fs dest ((i + d) mod length fs)) =
         Some (True, walk fs dest ((i + e) mod length fs))) \<or>
    ((\<forall>e. d \<le> e \<and> e < length fs \<longrightarrow> \<not> is_field t (fs ! ((i + e) mod length fs))) \<and>
       iter_find_loop n i t (walk fs dest ((i + d) mod length fs)) = Some (False, walk fs dest i))"
proof (induction n arbitrary: d)
  case 0
  then show ?case by simp
next
  case (Suc n)
  let ?L = "length fs"
  let ?j = "(i + d) mod ?L"
  have L: "0 < ?L" using assms(2) by linarith
  then have j: "?j < ?L" by (rule mod_less_divisor)
  have fld: "iter_field (walk fs dest ?j) = fs ! ?j"
    using walk_start [OF j assms(1)] j by (simp add: iter_field_def field_at_def)
  show ?case
  proof (cases "is_field t (fs ! ?j)")
    case True
    then show ?thesis using Suc.prems(1) fld by (auto simp: is_field_def)
  next
    case False
    have nxt: "snd (pb_field_iter_next (walk fs dest ?j)) = walk fs dest ((i + Suc d) mod ?L)"
      using walk_next [OF assms(1) j] by (simp add: mod_Suc_eq)
    have k: "(i + Suc d) mod ?L < ?L" using L by (rule mod_less_divisor)
    have p: "pos (walk fs dest ((i + Suc d) mod ?L)) = (i + Suc d) mod ?L"
      using walk_start [OF k assms(1)] by simp
    have step: "iter_find_loop (Suc n) i t (walk fs dest ?j) =
        (if (i + Suc d) mod ?L \<noteq> i then iter_find_loop n i t (walk fs dest ((i + Suc d) mod ?L))
         else Some (False, walk fs dest ((i + Suc d) mod ?L)))"
    proof -
      have nf: "(tag (fs ! ?j) = t \<and> PB_LTYPE (ftype (fs ! ?j)) \<noteq> PB_LTYPE_EXTENSION) = False"
        using False unfolding is_field_def by (rule eq_False [THEN iffD2])
      show ?thesis by (simp only: iter_find_loop.simps fld nf if_False Let_def nxt p)
    qed
    show ?thesis
    proof (cases "Suc d < ?L")
      case True
      then have ne: "(i + Suc d) mod ?L \<noteq> i"
        using assms(2) by (auto simp: mod_if nat_mod_eq_iff)
      with step have s: "iter_find_loop (Suc n) i t (walk fs dest ?j) =
          iter_find_loop n i t (walk fs dest ((i + Suc d) mod ?L))" by simp
      have "?L - Suc d \<le> n" using Suc.prems(2) by linarith
      from Suc.IH [OF True this] show ?thesis
      proof (elim disjE exE conjE)
        fix e assume "Suc d \<le> e" "e < ?L" "is_field t (fs ! ((i + e) mod ?L))"
          "iter_find_loop n i t (walk fs dest ((i + Suc d) mod ?L)) = Some (True, walk fs dest ((i + e) mod ?L))"
        then show ?thesis unfolding s by (intro disjI1 exI [of _ e] conjI) (assumption | rule Suc_leD)+
      next
        assume no: "\<forall>e. Suc d \<le> e \<and> e < ?L \<longrightarrow> \<not> is_field t (fs ! ((i + e) mod ?L))"
          and r: "iter_find_loop n i t (walk fs dest ((i + Suc d) mod ?L)) = Some (False, walk fs dest i)"
        have "\<not> is_field t (fs ! ((i + e) mod ?L))" if "d \<le> e" "e < ?L" for e
        proof (cases "e = d")
          case True
          with False show ?thesis by (simp only: not_False_eq_True)
        next
          case ne: False
          with that no show ?thesis by (simp only: Suc_le_eq) simp
        qed
        with r show ?thesis unfolding s by blast
      qed
    next
      case last: False
      with Suc.prems(1) have "Suc d = ?L" by simp
      then have w: "(i + Suc d) mod ?L = i" using assms(2) by simp
      have "\<not> is_field t (fs ! ((i + e) mod ?L))" if "d \<le> e" "e < ?L" for e
        using that \<open>Suc d = ?L\<close> False by (metis le_antisym less_Suc_eq_le)
      with step w show ?thesis by auto
    qed
  qed
qed

text \<open>C14: \<open>pb_field_iter_find\<close> is a complete search and leaves a valid iterator: from any position of
  the array it ends, it finds a field exactly when one with the tag (and not an extension) exists,
  and the iterator it leaves, with its data and size pointers, is the one reached by stepping from
  the first field; when there is none the iterator is back where it was.\<close>

theorem iter_find_complete:
  assumes "tags_ok fs" and "i < length fs"
  shows "\<exists>found j. pb_field_iter_find (walk fs dest i) t = Some (found, walk fs dest j) \<and>
    j < length fs \<and> found = (\<exists>f \<in> set fs. is_field t f) \<and>
    (if found then is_field t (fs ! j) else j = i)"
proof -
  let ?L = "length fs"
  have st: "pb_field_iter_find (walk fs dest i) t = iter_find_loop (Suc ?L) i t (walk fs dest ((i + 0) mod ?L))"
    using walk_start [OF assms(2,1)] assms(2) by (simp add: pb_field_iter_find_def)
  have L: "0 < ?L" using assms(2) by linarith
  have all: "\<exists>e < ?L. (i + e) mod ?L = k" if "k < ?L" for k
  proof (cases "i \<le> k")
    case True
    then show ?thesis using that by (intro exI [of _ "k - i"]) simp
  next
    case False
    then show ?thesis using that assms(2) by (intro exI [of _ "?L - i + k"]) simp
  qed
  from iter_find_loop_walk [OF assms L, of "Suc ?L" t dest]
  consider (yes) e where "e < ?L" "is_field t (fs ! ((i + e) mod ?L))"
      "pb_field_iter_find (walk fs dest i) t = Some (True, walk fs dest ((i + e) mod ?L))"
    | (no) "\<forall>e < ?L. \<not> is_field t (fs ! ((i + e) mod ?L))"
      "pb_field_iter_find (walk fs dest i) t = Some (False, walk fs dest i)"
    unfolding st by auto
  then show ?thesis
  proof cases
    case yes
    then have "fs ! ((i + e) mod ?L) \<in> set fs" using L by (intro nth_mem) simp
    with yes L show ?thesis by (intro exI [of _ True] exI [of _ "(i + e) mod ?L"]) auto
  next
    case no
    have "\<not> is_field t f" if f: "f \<in> set fs" for f
    proof -
      obtain k where k: "k < ?L" "fs ! k = f" using f by (auto simp: in_set_conv_nth)
      obtain e where "e < ?L" "(i + e) mod ?L = k" using all [OF k(1)] by blast
      with no(1) k(2) show ?thesis by blast
    qed
    with no(2) assms(2) show ?thesis by (intro exI [of _ False] exI [of _ i]) auto
  qed
qed

section \<open>Required fields\<close>

text \<open>The bitmap after the fields of a message were found one after the other.\<close>

definition mark_all :: "pb_field_iter list \<Rightarrow> noinit_vars \<Rightarrow> noinit_vars" where
  "mark_all its v = fold (\<lambda>it v. mark_seen (v\<lparr>iter := it\<rparr>)) its v"

definition is_required :: "pb_field_iter \<Rightarrow> bool" where
  "is_required it \<longleftrightarrow> PB_HTYPE (ftype (iter_field it)) = PB_HTYPE_REQUIRED"

definition seen_bit :: "noinit_vars \<Rightarrow> nat \<Rightarrow> bool" where
  "seen_bit v i = (if i < 32 then bit (seen0 v) i else bit (seen1 v) (i - 32))"

lemma u32_and_31: "unat ((w :: u32) AND 31) = unat w mod 32"
proof -
  have "(31 :: u32) = mask 5" by (simp add: mask_eq_exp_minus_1)
  then have "w AND 31 = take_bit 5 w" by (simp add: take_bit_eq_mask)
  then show ?thesis by (simp only: unat_take_bit) simp
qed

lemma drop5_0: "drop_bit 5 (w :: u32) = 0 \<longleftrightarrow> unat w < 32"
proof -
  have "drop_bit 5 w = 0 \<longleftrightarrow> unat (drop_bit 5 w) = 0" by (simp add: unat_eq_0)
  then show ?thesis unfolding unat_drop_bit by (simp add: div_eq_0_iff)
qed

lemma seen_bit_mark:
  assumes "i < 64"
  shows "seen_bit (mark_seen v) i \<longleftrightarrow>
    seen_bit v i \<or> (is_required (iter v) \<and> unat (required_field_index (iter v)) = i)"
proof -
  let ?idx = "required_field_index (iter v)"
  have b: "bit (push_bit (unat (?idx AND 31)) 1 :: u32) k \<longleftrightarrow> k = unat ?idx mod 32" if "k < 32" for k
    using that by (auto simp: bit_exp_iff u32_and_31)
  have lt: "(?idx < 64) \<longleftrightarrow> unat ?idx < 64" by (simp add: word_less_nat_alt)
  show ?thesis
  proof (cases "is_required (iter v) \<and> unat ?idx < 64")
    case False
    with assms lt show ?thesis by (auto simp: mark_seen_def is_required_def Let_def)
  next
    case True
    then have r: "PB_HTYPE (ftype (iter_field (iter v))) = PB_HTYPE_REQUIRED \<and> ?idx < 64"
      using lt by (simp add: is_required_def)
    show ?thesis
    proof (cases "unat ?idx < 32")
      case low: True
      have "mark_seen v = v\<lparr>seen0 := seen0 v OR push_bit (unat (?idx AND 31)) 1\<rparr>"
        using r low by (simp add: mark_seen_def Let_def drop5_0)
      with True low b [of i] show ?thesis
        by (auto simp: seen_bit_def bit_or_iff simp del: push_bit_of_1)
    next
      case high: False
      have "mark_seen v = v\<lparr>seen1 := seen1 v OR push_bit (unat (?idx AND 31)) 1\<rparr>"
        using r high by (simp add: mark_seen_def Let_def drop5_0)
      moreover have "unat ?idx mod 32 = unat ?idx - 32" using True high by (subst mod_if) auto
      ultimately show ?thesis using True high b [of "i - 32"] assms
        by (auto simp: seen_bit_def bit_or_iff simp del: push_bit_of_1)
    qed
  qed
qed

lemma seen_bit_iter [simp]: "seen_bit (v\<lparr>iter := it\<rparr>) i = seen_bit v i"
  by (simp add: seen_bit_def)

lemma seen_bit_mark_all:
  "i < 64 \<Longrightarrow> seen_bit (mark_all its v) i \<longleftrightarrow>
    seen_bit v i \<or> (\<exists>it \<in> set its. is_required it \<and> unat (required_field_index it) = i)"
proof (induction its arbitrary: v)
  case Nil
  then show ?case by (simp add: mark_all_def)
next
  case (Cons it its)
  have "mark_all (it # its) v = mark_all its (mark_seen (v\<lparr>iter := it\<rparr>))" by (simp add: mark_all_def)
  with Cons show ?case by (auto simp: seen_bit_mark)
qed

lemma allbits_rest: "r \<le> 32 \<Longrightarrow> bit (drop_bit (32 - r) (- 1) :: u32) i \<longleftrightarrow> i < r"
  by (auto simp: bit_mask_iff)

lemma required_seen_bits:
  assumes "\<And>i. i < 64 \<Longrightarrow> min 64 (unat cnt) \<le> i \<Longrightarrow> \<not> seen_bit v i"
  shows "required_seen cnt (seen0 v) (seen1 v) \<longleftrightarrow> (\<forall>i < min 64 (unat cnt). seen_bit v i)"
proof -
  define c where "c = (if 64 < cnt then 64 else cnt)"
  have uc: "unat c = min 64 (unat cnt)" by (simp add: c_def word_less_nat_alt min_def)
  have words: "unat (drop_bit 5 c) = unat c div 32" using unat_drop_bit [of 5 c] by simp
  have rest: "unat (c AND 31) = unat c mod 32" by (rule u32_and_31)
  have rest0: "c AND 31 = 0 \<longleftrightarrow> unat c mod 32 = 0" unfolding rest [symmetric] by (simp add: unat_eq_0)
  have w0: "0 < drop_bit 5 c \<longleftrightarrow> 32 \<le> unat c" "1 < drop_bit 5 c \<longleftrightarrow> 64 \<le> unat c"
    "drop_bit 5 c = 0 \<longleftrightarrow> unat c < 32"
    by (simp_all only: word_less_nat_alt words drop5_0) auto
  have sub: "unat (32 - (c AND 31)) = 32 - unat c mod 32"
    by (simp add: unat_sub word_le_nat_alt rest less_imp_le)
  have all: "w = - 1 \<longleftrightarrow> (\<forall>i < 32. bit w i)" for w :: u32
    by (auto simp: bit_eq_iff bit_minus_1_iff)
  have part: "w = drop_bit (32 - r) (- 1) \<longleftrightarrow> (\<forall>i < 32. bit w i \<longleftrightarrow> i < r)" if "r \<le> 32" for w :: u32 and r
    using allbits_rest [OF that] by (auto simp: bit_eq_iff dest: bit_imp_le_length)
  have req: "required_seen cnt (seen0 v) (seen1 v) \<longleftrightarrow>
      (32 \<le> unat c \<longrightarrow> (\<forall>i < 32. bit (seen0 v) i)) \<and> (64 \<le> unat c \<longrightarrow> (\<forall>i < 32. bit (seen1 v) i)) \<and>
      (unat c mod 32 \<noteq> 0 \<longrightarrow> (\<forall>i < 32. bit (if unat c < 32 then seen0 v else seen1 v) i \<longleftrightarrow> i < unat c mod 32))"
    unfolding required_seen_def c_def [symmetric] Let_def w0 rest0 sub
    by (simp only: all part mod_less_divisor less_imp_le zero_less_numeral)
  have none: "\<not> seen_bit v i" if "i < 64" "unat c \<le> i" for i using assms that uc by simp
  have s0: "seen_bit v i = bit (seen0 v) i" if "i < 32" for i using that by (simp add: seen_bit_def)
  have s1: "seen_bit v (i + 32) = bit (seen1 v) i" for i by (simp add: seen_bit_def)
  have split: "(\<forall>i < n. seen_bit v i) \<longleftrightarrow> (\<forall>i < 32. bit (seen0 v) i) \<and> (\<forall>i < n - 32. bit (seen1 v) i)"
    if "32 \<le> n" for n :: nat
  proof (intro iffI conjI allI impI)
    fix i :: nat assume "\<forall>i < n. seen_bit v i" "i < n - 32"
    then show "bit (seen1 v) i" using s1 [of i] that by simp
  next
    fix i :: nat assume "\<forall>i < n. seen_bit v i" "i < 32"
    then show "bit (seen0 v) i" using s0 [of i] that by simp
  next
    fix i :: nat assume "(\<forall>i < 32. bit (seen0 v) i) \<and> (\<forall>i < n - 32. bit (seen1 v) i)" "i < n"
    then show "seen_bit v i" by (simp add: seen_bit_def)
  qed
  have "unat c \<le> 64" using uc by simp
  then consider "unat c < 32" | "32 \<le> unat c" "unat c < 64" | "unat c = 64" by linarith
  then have "required_seen cnt (seen0 v) (seen1 v) \<longleftrightarrow> (\<forall>i < unat c. seen_bit v i)"
  proof cases
    case 1
    have "\<not> bit (seen0 v) i" if "i < 32" "unat c \<le> i" for i
      using none [of i] s0 [of i] that by simp
    then have "bit (seen0 v) i \<longrightarrow> i < unat c" if "i < 32" for i using that not_less by blast
    moreover have "i < 32" if "i < unat c" for i using that 1 by linarith
    ultimately have "(\<forall>i < 32. bit (seen0 v) i \<longleftrightarrow> i < unat c) \<longleftrightarrow> (\<forall>i < unat c. seen_bit v i)"
      using s0 by blast
    then show ?thesis using req 1 by auto
  next
    case 2
    then have m: "unat c mod 32 = unat c - 32" by (simp add: mod_if)
    have "\<not> bit (seen1 v) i" if "i < 32" "unat c - 32 \<le> i" for i
      using none [of "i + 32"] s1 [of i] that 2 by simp
    then have "bit (seen1 v) i \<longrightarrow> i < unat c - 32" if "i < 32" for i using that not_less by blast
    moreover have "i < 32" if "i < unat c - 32" for i using that 2 by linarith
    ultimately have e: "(\<forall>i < 32. bit (seen1 v) i \<longleftrightarrow> i < unat c - 32) \<longleftrightarrow> (\<forall>i < unat c - 32. bit (seen1 v) i)"
      by blast
    have n: "\<not> unat c < 32" "\<not> 64 \<le> unat c" using 2 by linarith+
    show ?thesis
      unfolding req m split [OF 2(1)] if_not_P [OF n(1)] e using 2(1) n(2) by auto
  next
    case 3
    then show ?thesis using req split [of 64] by simp
  qed
  then show ?thesis by (simp only: uc)
qed


text \<open>C15: the required-field check of \<open>pb_decode_noinit\<close> is exact: starting from an empty bitmap, after
  any sequence of fields found in the message, the check passes for \<open>cnt\<close> required fields exactly
  when each of the first 64 of them is among the fields found.\<close>

theorem required_fields_exact:
  assumes "seen0 v = 0" and "seen1 v = 0"
    and "\<forall>it \<in> set its. is_required it \<longrightarrow> required_field_index it < cnt"
  shows "required_seen cnt (seen0 (mark_all its v)) (seen1 (mark_all its v)) \<longleftrightarrow>
    (\<forall>i < min 64 (unat cnt). \<exists>it \<in> set its. is_required it \<and> unat (required_field_index it) = i)"
proof -
  have z: "\<not> seen_bit v i" for i using assms(1,2) by (simp add: seen_bit_def)
  have b: "seen_bit (mark_all its v) i \<longleftrightarrow>
      (\<exists>it \<in> set its. is_required it \<and> unat (required_field_index it) = i)" if "i < 64" for i
    using seen_bit_mark_all [OF that] z by simp
  have "required_seen cnt (seen0 (mark_all its v)) (seen1 (mark_all its v)) \<longleftrightarrow>
      (\<forall>i < min 64 (unat cnt). seen_bit (mark_all its v) i)"
    by (rule required_seen_bits) (use b assms(3) in \<open>auto simp: word_less_nat_alt\<close>)
  then show ?thesis using b by auto
qed

section \<open>Witnesses\<close>

definition demo_array :: pb_field where
  "demo_array = \<lparr>tag = 3, ftype = 0x22, data_offset = 4, size_offset = 0xFFFFFFFC, data_size = 4,
     array_size = 2, ptr = 0\<rparr>"

definition demo_byte :: pb_field where
  "demo_byte = \<lparr>tag = 1, ftype = 0x02, data_offset = 0, size_offset = 0, data_size = 1, array_size = 0, ptr = 0\<rparr>"

definition demo_string :: pb_field where
  "demo_string = \<lparr>tag = 2, ftype = 0x07, data_offset = 0, size_offset = 0, data_size = 3, array_size = 0, ptr = 0\<rparr>"

lemma demo_types:
  "PB_LTYPE (ftype demo_byte) = 2" "PB_LTYPE (ftype demo_array) = 2" "PB_ATYPE (ftype demo_array) = 0"
  "PB_ATYPE (ftype demo_string) = 0" "PB_HTYPE (ftype demo_byte) = 0" "PB_LTYPE (ftype demo_string) = 7"
  by code_simp+

definition demo_dec_env :: "nat dec_env" where
  "demo_dec_env = \<lparr>descs = (\<lambda>p. if p = 0x40 then [demo_array] else []), dec_callback = (\<lambda>f st field a. (True, st)),
     ext_decode = (\<lambda>f st e t w. (True, st)), realloc = (\<lambda>m p n. (0, m)), free_mem = (\<lambda>m p. m),
     frame_addr = (\<lambda>n. 0x7000 + 64 * of_nat n)\<rparr>"

theorem integer_range_check_witness:
  "map_option fst (pb_dec_uvarint (pb_istream_from_buffer [0xac, 2] 2 :: nat pb_istream, \<lambda>_. 0) demo_byte 0x1000) = Some False \<and>
   map_option fst (pb_dec_svarint (pb_istream_from_buffer [9] 1 :: nat pb_istream, \<lambda>_. 0) demo_byte 0x1000) = Some True"
proof -
  have v: "varint_bytes 300 = [0xac, 2]" "varint_bytes (zigzag (- 5)) = [9]" by code_simp+
  have d: "data_size demo_byte = 1" by (simp add: demo_byte_def)
  show ?thesis
    using integer_range_check [where f = demo_byte and s = "pb_istream_from_buffer [0xac, 2] 2 :: nat pb_istream"
        and u = 300 and rest = "[]" and t = "pb_istream_from_buffer [9] 1 :: nat pb_istream" and v = "- 5"
        and m = "\<lambda>_. 0" and d = "0x1000"]
    by (simp add: v d ibuf_def pb_istream_from_buffer_def)
qed

theorem scalar_field_roundtrip_witness:
  "\<exists>B. emits (\<lambda>s. (PB_ENCODERS demo_env demo_mem (\<lambda>s fs p. None) ! 2) s demo_byte 0x1000) B \<and>
    (\<forall>s rest m2 d. ibuf s (B @ rest) \<longrightarrow> length B \<le> unat (bytes_left s) \<longrightarrow>
       (\<exists>m3. (PB_DECODERS demo_dec_env (\<lambda>s fs p. None) (\<lambda>s fs p. None) ! 2) (s, m2) demo_byte d =
            Some (True, (advance s (B @ rest) (length B), m3)) \<and>
          rd_bytes m3 d 1 = [0x96]))"
proof -
  have sz: "data_size demo_byte = 1" by (simp add: demo_byte_def)
  have b: "rd_bytes demo_mem 0x1000 1 = [0x96]" by code_simp
  show ?thesis
    using scalar_field_roundtrip [where f = demo_byte and eenv = demo_env and m = demo_mem
        and rec = "\<lambda>s fs p. None" and p = "0x1000" and denv = demo_dec_env
        and noinit = "\<lambda>s fs p. None" and full = "\<lambda>s fs p. None"]
    by (simp add: demo_types sz b [simplified])
qed

theorem static_field_confined_witness:
  "\<exists>r s' m'. decode_static_field demo_dec_env
      (PB_DECODERS demo_dec_env (\<lambda>s fs p. None) (\<lambda>s fs p. None) ! 2) (\<lambda>fs p m. None)
        (pb_istream_from_buffer [3, 1, 2, 0xff] 4, \<lambda>_. 0) 2 (snd (pb_field_iter_begin [demo_array] 0x1000)) =
        Some (r, (s', m')) \<and>
    inside (pb_istream_from_buffer [3, 1, 2, 0xff] 4) [3, 1, 2, 0xff] s' \<and>
    (r \<longrightarrow> moved (pb_istream_from_buffer [3, 1, 2, 0xff] 4) [3, 1, 2, 0xff] s') \<and>
    (\<forall>x. \<not> field_storage (snd (pb_field_iter_begin [demo_array] 0x1000)) x \<longrightarrow> m' x = 0)"
proof -
  let ?it = "snd (pb_field_iter_begin [demo_array] 0x1000)"
  have f: "iter_field ?it = demo_array"
    by (simp add: iter_field_def field_at_def begin_start)
  have w: "field_wf demo_array" by (simp add: field_wf_def demo_types)
  have sz: "data_size demo_array = 4" "array_size demo_array = 2" by (simp_all add: demo_array_def)
  show ?thesis
    using static_field_confined [where it = ?it and s = "pb_istream_from_buffer [3, 1, 2, 0xff] 4"
        and src = "[3, 1, 2, 0xff]" and env = demo_dec_env and noinit = "\<lambda>s fs p. None"
        and full = "\<lambda>s fs p. None" and defaults = "\<lambda>fs p m. None" and m = "\<lambda>_. 0" and wt = 2]
    by (simp add: f w sz demo_types ibuf_def pb_istream_from_buffer_def)
qed

theorem string_field_decoded_witness:
  "\<exists>m'. pb_dec_string demo_dec_env (pb_istream_from_buffer [2, 0x68, 0x69, 8] 4, \<lambda>_. 0xff) demo_string 0x1000 =
      Some (True, (pb_istream_from_buffer [8] 1, m')) \<and> rd_bytes m' 0x1000 3 = [0x68, 0x69, 0]"
proof -
  have v: "varint_bytes 2 = [2]" by code_simp
  have d: "data_size demo_string = 3" by (simp add: demo_string_def)
  show ?thesis
    using string_field_decoded [where f = demo_string and s = "pb_istream_from_buffer [2, 0x68, 0x69, 8] 4"
        and n = 2 and str = "[0x68, 0x69]" and rest = "[8]" and env = demo_dec_env and m = "\<lambda>_. 0xff"
        and d = "0x1000"]
    by (simp add: v d demo_types ibuf_def pb_istream_from_buffer_def advance_def)
qed

theorem iter_find_complete_witness:
  "\<exists>j < 2. pb_field_iter_find (walk [demo_byte, demo_string] 0x1000 1) 1 =
      Some (True, walk [demo_byte, demo_string] 0x1000 j) \<and> is_field 1 ([demo_byte, demo_string] ! j)"
proof -
  let ?fs = "[demo_byte, demo_string]"
  have t: "tags_ok ?fs" by (simp add: tags_ok_def demo_byte_def demo_string_def)
  have "is_field 1 demo_byte" by (simp add: is_field_def demo_types) (simp add: demo_byte_def)
  then have e: "(\<exists>f \<in> set ?fs. is_field 1 f) = True" by simp
  have i: "1 < length ?fs" by simp
  show ?thesis
    using iter_find_complete [OF t i, where dest = "0x1000" and t = 1] unfolding e by (auto simp: numeral_2_eq_2 simp del: walk.simps)
qed

definition demo_vars :: noinit_vars where
  "demo_vars = \<lparr>seen0 = 0, seen1 = 0, extension_range_start = 0, iter = walk [demo_byte] 0x1000 0,
     fixed_count_field = None\<rparr>"

theorem required_fields_exact_witness:
  "required_seen 1 (seen0 (mark_all [walk [demo_byte, demo_string] 0x1000 0] demo_vars))
     (seen1 (mark_all [walk [demo_byte, demo_string] 0x1000 0] demo_vars)) \<and>
   \<not> required_seen 2 (seen0 (mark_all [walk [demo_byte, demo_string] 0x1000 0] demo_vars))
     (seen1 (mark_all [walk [demo_byte, demo_string] 0x1000 0] demo_vars))"
proof -
  have r: "is_required (walk [demo_byte, demo_string] 0x1000 0)"
    by (simp add: is_required_def iter_field_def field_at_def pb_field_iter_begin_def Let_def demo_types)
  have i: "required_field_index (walk [demo_byte, demo_string] 0x1000 0) = 0"
    by (simp add: pb_field_iter_begin_def Let_def)
  have z: "seen0 demo_vars = 0" "seen1 demo_vars = 0" by (simp_all add: demo_vars_def)
  show ?thesis
    using required_fields_exact [OF z, of "[walk [demo_byte, demo_string] 0x1000 0]" 1]
      required_fields_exact [OF z, of "[walk [demo_byte, demo_string] 0x1000 0]" 2] r i
    by (simp del: walk.simps) (auto simp: less_2_cases_iff simp del: walk.simps)
qed

section \<open>Whole messages\<close>

text \<open>
  Messages of statically allocated fields, submessages nested less than \<open>n\<close> deep, without extension
  and callback fields: what the protobuf compiler generates for a message with size options only.
\<close>

definition plain_scalar :: "pb_field \<Rightarrow> bool" where
  "plain_scalar f \<longleftrightarrow> field_wf f \<and> PB_LTYPE (ftype f) \<in> {0, 1, 2, 3, 4, 5, 6, 7, 10} \<and>
     unat (data_size f) * unat (array_size f) < 2 ^ 32"

primrec plain :: "nat \<Rightarrow> (u64 \<Rightarrow> pb_field list) \<Rightarrow> pb_field list \<Rightarrow> bool" where
  "plain 0 D fs = False"
| "plain (Suc n) D fs =
     (tags_ok fs \<and>
      list_all (\<lambda>f. PB_ATYPE (ftype f) = PB_ATYPE_STATIC \<and>
        (if PB_LTYPE (ftype f) = PB_LTYPE_SUBMESSAGE then plain n D (D (ptr f)) else plain_scalar f)) fs)"

definition it_on :: "pb_field list \<Rightarrow> pb_field_iter \<Rightarrow> bool" where
  "it_on fs it \<longleftrightarrow> start it = fs \<and> pos it < length fs"

lemma it_on_field: "it_on fs it \<Longrightarrow> iter_field it \<in> set fs"
  by (auto simp: it_on_def iter_field_def field_at_def)

lemma it_on_begin: "tags_ok fs \<Longrightarrow> it_on fs (snd (pb_field_iter_begin fs dest))"
  using begin_start [of fs dest] by (simp add: it_on_def tags_ok_def)

lemma it_on_next:
  assumes "tags_ok fs" and "it_on fs it"
  shows "it_on fs (snd (pb_field_iter_next it)) \<and>
    pos (snd (pb_field_iter_next it)) = (if Suc (pos it) < length fs then Suc (pos it) else 0)"
proof -
  have t: "tag (fs ! pos it) \<noteq> 0" using assms by (auto simp: tags_ok_def list_all_length it_on_def)
  show ?thesis
  proof (cases "Suc (pos it) < length fs")
    case True
    then have "tag (fs ! Suc (pos it)) \<noteq> 0" using assms by (auto simp: tags_ok_def list_all_length)
    with t True assms show ?thesis
      by (simp add: it_on_def pb_field_iter_next_def Let_def iter_field_def field_at_def)
  next
    case False
    then have "Suc (pos it) = length fs" using assms(2) by (simp add: it_on_def)
    with t assms show ?thesis
      by (auto simp: it_on_def pb_field_iter_next_def Let_def iter_field_def field_at_def
          PB_LAST_FIELD_def begin_start)
  qed
qed

text \<open>The number of steps of the circular iterator from position \<open>p\<close> to position \<open>i\<close>.\<close>

definition steps_to :: "nat \<Rightarrow> nat \<Rightarrow> nat \<Rightarrow> nat" where
  "steps_to L i p = (if p < i then i - p else L + i - p)"

lemma steps_to_next:
  "p < L \<Longrightarrow> i < L \<Longrightarrow> (if Suc p < L then Suc p else 0) \<noteq> i \<Longrightarrow>
   Suc (steps_to L i (if Suc p < L then Suc p else 0)) = steps_to L i p"
  by (auto simp: steps_to_def split: if_splits)

lemma it_on_loop:
  assumes "tags_ok fs" and "i < length fs"
  shows "it_on fs it \<Longrightarrow> steps_to (length fs) i (pos it) \<le> n \<Longrightarrow>
    \<exists>found it'. iter_find_loop n i t it = Some (found, it') \<and> it_on fs it' \<and>
      (found \<longrightarrow> is_field t (iter_field it'))"
proof (induction n arbitrary: it)
  case (Suc n)
  let ?it = "snd (pb_field_iter_next it)"
  show ?case
  proof (cases "is_field t (iter_field it)")
    case True
    with Suc.prems show ?thesis by (auto simp: is_field_def)
  next
    case False
    then have step: "iter_find_loop (Suc n) i t it =
        (if pos ?it \<noteq> i then iter_find_loop n i t ?it else Some (False, ?it))"
      by (auto simp: is_field_def Let_def)
    have nx: "it_on fs ?it" "pos ?it = (if Suc (pos it) < length fs then Suc (pos it) else 0)"
      using it_on_next [OF assms(1) Suc.prems(1)] by blast+
    show ?thesis
    proof (cases "pos ?it = i")
      case True
      then have "iter_find_loop (Suc n) i t it = Some (False, ?it)" using step by simp
      with nx(1) show ?thesis by blast
    next
      case ne: False
      have p: "pos it < length fs" using Suc.prems(1) by (simp add: it_on_def)
      have "steps_to (length fs) i (pos ?it) \<le> n"
        using steps_to_next [OF p assms(2)] nx(2) ne Suc.prems(2) by simp
      from Suc.IH [OF nx(1) this] ne step show ?thesis by simp
    qed
  qed
qed (auto simp: steps_to_def it_on_def split: if_splits)

lemma find_on:
  assumes "tags_ok fs" and "it_on fs it"
  shows "\<exists>found it'. pb_field_iter_find it t = Some (found, it') \<and> it_on fs it' \<and>
    (found \<longrightarrow> is_field t (iter_field it'))"
proof -
  have "pos it < length fs" "start it = fs" using assms(2) by (simp_all add: it_on_def)
  then show ?thesis
    using it_on_loop [OF assms(1) _ assms(2), of "pos it" "Suc (length fs)" t]
    by (simp add: pb_field_iter_find_def steps_to_def)
qed

text \<open>A message without extension fields.\<close>

lemma find_extension_on:
  assumes "tags_ok fs" and "list_all (\<lambda>f. PB_LTYPE (ftype f) \<noteq> PB_LTYPE_EXTENSION) fs" and "i < length fs"
  shows "it_on fs it \<Longrightarrow> steps_to (length fs) i (pos it) \<le> n \<Longrightarrow>
    \<exists>it'. find_extension_loop n i it = Some (False, it') \<and> it_on fs it'"
proof (induction n arbitrary: it)
  case (Suc n)
  let ?it = "snd (pb_field_iter_next it)"
  have "PB_LTYPE (ftype (iter_field it)) \<noteq> PB_LTYPE_EXTENSION"
    using it_on_field [OF Suc.prems(1)] assms(2) by (simp add: list_all_iff)
  then have step: "find_extension_loop (Suc n) i it =
      (if pos ?it \<noteq> i then find_extension_loop n i ?it else Some (False, ?it))"
    by (simp add: Let_def)
  have nx: "it_on fs ?it" "pos ?it = (if Suc (pos it) < length fs then Suc (pos it) else 0)"
    using it_on_next [OF assms(1) Suc.prems(1)] by blast+
  show ?case
  proof (cases "pos ?it = i")
    case True
    then have "find_extension_loop (Suc n) i it = Some (False, ?it)" using step by simp
    with nx(1) show ?thesis by blast
  next
    case ne: False
    have p: "pos it < length fs" using Suc.prems(1) by (simp add: it_on_def)
    have "steps_to (length fs) i (pos ?it) \<le> n"
      using steps_to_next [OF p assms(3)] nx(2) ne Suc.prems(2) by simp
    from Suc.IH [OF nx(1) this] ne step show ?thesis by simp
  qed
qed (auto simp: steps_to_def it_on_def split: if_splits)

lemma each_field_total:
  assumes "tags_ok fs" and "\<And>it m. it_on fs it \<Longrightarrow> \<exists>m'. f it m = Some m'"
  shows "\<exists>m'. each_field f fs dest m = Some m'"
proof -
  let ?body = "\<lambda>it m. map_option (\<lambda>m1. (True, m1)) (f it m)"
  have loop: "\<exists>m'. iter_loop ?body it m = Some (True, m')" if "it_on fs it" for it m
    using that
  proof (induction "length fs - pos it" arbitrary: it m rule: less_induct)
    case less
    obtain m1 where m1: "f it m = Some m1" using assms(2) [OF less.prems] by blast
    show ?case
    proof (cases "fst (pb_field_iter_next it)")
      case True
      let ?it = "snd (pb_field_iter_next it)"
      have n: "pb_field_iter_next it = (True, ?it)" using True by (simp add: prod_eq_iff)
      have "it_on fs ?it" using it_on_next [OF assms(1) less.prems] by simp
      moreover have "length fs - pos ?it < length fs - pos it"
        using iter_next_True [OF n] less.prems by (auto simp: it_on_def)
      ultimately obtain m' where "iter_loop ?body ?it m1 = Some (True, m')" using less.hyps by blast
      with m1 True show ?thesis by (subst iter_loop.simps) simp
    next
      case False
      with m1 show ?thesis by (subst iter_loop.simps) simp
    qed
  qed
  have "it_on fs (snd (pb_field_iter_begin fs dest))" using assms(1) by (rule it_on_begin)
  from loop [OF this, of m] show ?thesis
    by (auto simp: each_field_def split: prod.splits)
qed

lemma plain_cases:
  assumes "plain k D fs"
  obtains j where "k = Suc j" "tags_ok fs"
    "\<And>f. f \<in> set fs \<Longrightarrow> PB_ATYPE (ftype f) = PB_ATYPE_STATIC"
    "\<And>f. f \<in> set fs \<Longrightarrow> PB_LTYPE (ftype f) = PB_LTYPE_SUBMESSAGE \<Longrightarrow> plain j D (D (ptr f))"
    "\<And>f. f \<in> set fs \<Longrightarrow> PB_LTYPE (ftype f) \<noteq> PB_LTYPE_SUBMESSAGE \<Longrightarrow> plain_scalar f"
  using assms that by (cases k) (auto simp: list_all_iff)

lemma plain_tags: "plain k D fs \<Longrightarrow> tags_ok fs"
  by (erule plain_cases)

lemma plain_no_extension: "plain k D fs \<Longrightarrow> f \<in> set fs \<Longrightarrow> PB_LTYPE (ftype f) \<noteq> PB_LTYPE_EXTENSION"
  by (erule plain_cases) (force simp: plain_scalar_def)

lemma set_to_default_total:
  "plain k (descs env) fs \<Longrightarrow> k \<le> n \<Longrightarrow> it_on fs it \<Longrightarrow> \<exists>m'. pb_field_set_to_default n env it m = Some m'"
proof (induction n arbitrary: k fs it m)
  case 0
  then show ?case by (auto elim: plain_cases)
next
  case (Suc n)
  let ?f = "iter_field it"
  obtain j where j: "k = Suc j" "tags_ok fs" "PB_ATYPE (ftype ?f) = PB_ATYPE_STATIC"
    "PB_LTYPE (ftype ?f) = PB_LTYPE_SUBMESSAGE \<Longrightarrow> plain j (descs env) (descs env (ptr ?f))"
    using Suc.prems(1) it_on_field [OF Suc.prems(3)] by (elim plain_cases) blast
  have ext: "PB_LTYPE (ftype ?f) \<noteq> PB_LTYPE_EXTENSION"
    using plain_no_extension [OF Suc.prems(1)] it_on_field [OF Suc.prems(3)] by blast
  have sub: "\<exists>m'. each_field (pb_field_set_to_default n env) (descs env (ptr ?f)) (pData it) m1 = Some m'"
    if "PB_LTYPE (ftype ?f) = PB_LTYPE_SUBMESSAGE" for m1
    using Suc.IH [OF j(4) [OF that]] j(1) Suc.prems(2) plain_tags [OF j(4) [OF that]]
    by (intro each_field_total) auto
  show ?case
    unfolding pb_field_set_to_default.simps Let_def
    using ext j(3) sub by auto
qed

lemma defaults_total:
  "plain k (descs env) fs \<Longrightarrow> k \<le> n \<Longrightarrow> \<exists>m'. pb_message_set_to_defaults n env fs dest m = Some m'"
  unfolding pb_message_set_to_defaults_def
  by (rule each_field_total) (auto intro: plain_tags set_to_default_total)

lemma release_items_total:
  "(\<And>p m. \<exists>m'. rel p m = Some m') \<Longrightarrow> \<exists>m'. release_items k rel step p m = Some m'"
proof (induction k arbitrary: p m)
  case (Suc k)
  obtain m1 where "rel p m = Some m1" using Suc.prems by blast
  with Suc.IH [OF Suc.prems] show ?case by simp
qed simp

lemma release_total:
  "plain k (descs env) fs \<Longrightarrow> k \<le> n \<Longrightarrow> it_on fs it \<Longrightarrow> \<exists>m'. pb_release_single_field n env it m = Some m'"
proof (induction n arbitrary: k fs it m)
  case 0
  then show ?case by (auto elim: plain_cases)
next
  case (Suc n)
  let ?f = "iter_field it"
  obtain j where j: "k = Suc j" "tags_ok fs" "PB_ATYPE (ftype ?f) = PB_ATYPE_STATIC"
    "PB_LTYPE (ftype ?f) = PB_LTYPE_SUBMESSAGE \<Longrightarrow> plain j (descs env) (descs env (ptr ?f))"
    using Suc.prems(1) it_on_field [OF Suc.prems(3)] by (elim plain_cases) blast
  have ext: "PB_LTYPE (ftype ?f) \<noteq> PB_LTYPE_EXTENSION"
    using plain_no_extension [OF Suc.prems(1)] it_on_field [OF Suc.prems(3)] by blast
  have sub: "\<exists>m'. (if p = 0 then Some m
      else each_field (pb_release_single_field n env) (descs env (ptr ?f)) p m) = Some m'"
    if "PB_LTYPE (ftype ?f) = PB_LTYPE_SUBMESSAGE" for p m
    using Suc.IH [OF j(4) [OF that]] j(1) Suc.prems(2) plain_tags [OF j(4) [OF that]]
    by (auto intro!: each_field_total)
  show ?case
  proof (cases "PB_LTYPE (ftype ?f) = PB_LTYPE_SUBMESSAGE")
    case False
    with ext show ?thesis unfolding pb_release_single_field.simps Let_def by simp
  next
    case True
    show ?thesis
      unfolding pb_release_single_field.simps Let_def
      using release_items_total [OF sub [OF True]] ext True j(3) by simp
  qed
qed

lemma pb_release_total:
  "plain k (descs env) fs \<Longrightarrow> k \<le> n \<Longrightarrow> \<exists>m'. pb_release n env fs dest m = Some m'"
  unfolding pb_release_def
  using each_field_total [of fs "pb_release_single_field n env" dest m] plain_tags release_total by (metis)

lemma release_union_total:
  assumes "plain k (descs env) fs" and "k \<le> n" and "it_on fs it"
  shows "\<exists>ok it' msg m'. pb_release_union_field n env (s, m) it =
      Some (ok, it', (if ok then s else is_set_error s msg, m')) \<and> it_on fs it'"
proof -
  let ?old = "rd32 m (pSize it)" and ?new = "tag (iter_field it)"
  note tags = plain_tags [OF assms(1)]
  show ?thesis
  proof (cases "?old = 0 \<or> ?old = ?new")
    case True
    with assms(3) show ?thesis by (auto simp: pb_release_union_field_def Let_def)
  next
    case False
    obtain found it1 where f1: "pb_field_iter_find it ?old = Some (found, it1)" "it_on fs it1"
      using find_on [OF tags assms(3)] by blast
    obtain m1 where m1: "pb_release_single_field n env it1 m = Some m1"
      using release_total [OF assms(1,2) f1(2)] by blast
    obtain found2 it2 where f2: "pb_field_iter_find it1 ?new = Some (found2, it2)" "it_on fs it2"
      using find_on [OF tags f1(2)] by blast
    from False f1 m1 f2 show ?thesis
      by (cases found; cases found2) (auto simp: pb_release_union_field_def Let_def)
  qed
qed

text \<open>
  The stream half of a decoder's contract, which submessages satisfy too: it returns, it stays in
  the buffer, and on success it has moved forward.
\<close>

definition returns_inside :: "'s dresult \<Rightarrow> 's pb_istream \<Rightarrow> u8 list \<Rightarrow> bool" where
  "returns_inside r s src \<longleftrightarrow>
     (\<exists>ok s' m'. r = Some (ok, (s', m')) \<and> inside s src s' \<and> (ok \<longrightarrow> moved s src s'))"

locale stream_decoder =
  fixes func :: "'s decoder" and f :: pb_field
  assumes returns: "ibuf s src \<Longrightarrow> returns_inside (func (s, m) f d) s src"

sublocale field_decoder \<subseteq> stream_decoder func f
  by unfold_locales (use confined in \<open>fastforce simp: returns_inside_def intro: moved_inside\<close>)

interpretation varint_stream: stream_decoder pb_dec_varint f for f
  by unfold_locales (rule dec_varint.returns)

lemma moved_then_inside: "ibuf s src \<Longrightarrow> moved s src s1 \<Longrightarrow> inside s1 (rest_of s1) s2 \<Longrightarrow> inside s src s2"
  using moved_inside inside_trans by blast

lemma returns_after:
  assumes "moved s src s1" and "returns_inside r s1 (rest_of s1)"
  shows "returns_inside r s src"
  using assms inside_trans [OF moved_inside [OF assms(1)]] moved_trans [OF assms(1)]
  by (auto simp: returns_inside_def)

lemma returns_error: "ibuf s src \<Longrightarrow> returns_inside (dec_error (s, m) msg) s src"
  by (auto simp: returns_inside_def dec_error_def intro: inside_error moved_inside moved_refl)

lemma close_inside:
  assumes ok: "ibuf s1 src1" and n: "n \<le> bytes_left s1"
    and i: "inside (s1\<lparr>bytes_left := n\<rparr>) src1 sub"
  shows "\<exists>s2. pb_close_string_substream (s1\<lparr>bytes_left := bytes_left s1 - n\<rparr>) sub = Some (Some (), s2) \<and>
    inside s1 src1 s2"
proof -
  obtain k where k: "is_callback sub = IBufRead" "is_state sub = IBuf (drop k src1)"
      "k + unat (bytes_left sub) \<le> unat n"
    using i by (auto simp: inside_def)
  have len: "unat n \<le> length src1" using ok n by (simp add: ibuf_def word_le_nat_alt)
  have left: "unat (bytes_left s1 - n) = unat (bytes_left s1) - unat n"
    using n by (simp add: unat_sub_u64 word_le_nat_alt)
  have cb: "is_callback s1 = IBufRead" using ok by (simp add: ibuf_def)
  have le: "unat n \<le> unat (bytes_left s1)" using n by (simp add: word_le_nat_alt)
  show ?thesis
  proof (cases "bytes_left sub = 0")
    case True
    with k left cb le show ?thesis
      by (auto simp: pb_close_string_substream_def inside_def intro!: exI [of _ k])
  next
    case False
    have "ibuf sub (drop k src1)" using k len by (simp add: ibuf_def)
    then have "pb_read_null sub (bytes_left sub) =
        Some (Some (), advance sub (drop k src1) (unat (bytes_left sub)))"
      by (simp add: pb_read_null_buf)
    with False k left cb le show ?thesis
      by (auto simp: pb_close_string_substream_def inside_def advance_def
          add.commute
          intro!: exI [of _ "k + unat (bytes_left sub)"])
  qed
qed

lemma close_and_return_inside:
  assumes sub: "moved s src s1" "n \<le> bytes_left s1" "ibuf s1 (rest_of s1)"
    and r: "inside (s1\<lparr>bytes_left := n\<rparr>) (rest_of s1) sub1"
      "status \<longrightarrow> moved (s1\<lparr>bytes_left := n\<rparr>) (rest_of s1) sub1"
  shows "returns_inside (close_and_return (s1\<lparr>bytes_left := bytes_left s1 - n\<rparr>, m1) sub1 status) s src"
proof -
  obtain s2 where s2: "pb_close_string_substream (s1\<lparr>bytes_left := bytes_left s1 - n\<rparr>) sub1 = Some (Some (), s2)"
      "inside s1 (rest_of s1) s2"
    using close_inside [OF sub(3,2) r(1)] by blast
  have "moved s src s2" if "status"
  proof -
    have "s2 = (advance s1 (rest_of s1) (unat n))\<lparr>is_errmsg := is_errmsg sub1\<rparr>"
      using close_substream [OF sub(3,2), of sub1] r(2) that s2(1) by simp
    then show ?thesis using moved_close [OF sub(3,2,1)] by simp
  qed
  with s2 inside_trans [OF moved_inside [OF sub(1)] s2(2)] show ?thesis
    by (auto simp: close_and_return_def read_then_def returns_inside_def)
qed

text \<open>A message decoder that keeps the contract on one array of descriptors.\<close>

definition message_ok :: "'s msg_decoder \<Rightarrow> pb_field list \<Rightarrow> bool" where
  "message_ok dec fs \<longleftrightarrow> (\<forall>s src m dest. ibuf s src \<longrightarrow> returns_inside (dec (s, m) fs dest) s src)"

lemma message_on_substream:
  assumes "message_ok dec fs" and sub: "moved s src s1" "n \<le> bytes_left s1" "ibuf s1 (rest_of s1)"
  shows "returns_inside
    (case dec (s1\<lparr>bytes_left := n\<rparr>, m) fs dest of None \<Rightarrow> None
     | Some (status, (sub1, m1)) \<Rightarrow> close_and_return (s1\<lparr>bytes_left := bytes_left s1 - n\<rparr>, m1) sub1 status) s src"
proof -
  have "ibuf (s1\<lparr>bytes_left := n\<rparr>) (rest_of s1)" using sub(3,2) by (rule ibuf_shorter)
  with assms(1) obtain r sub1 m1 where
    b: "dec (s1\<lparr>bytes_left := n\<rparr>, m) fs dest = Some (r, (sub1, m1))"
      "inside (s1\<lparr>bytes_left := n\<rparr>) (rest_of s1) sub1"
      "r \<longrightarrow> moved (s1\<lparr>bytes_left := n\<rparr>) (rest_of s1) sub1"
    unfolding message_ok_def returns_inside_def by blast
  from close_and_return_inside [OF sub b(2,3), of m1] show ?thesis by (simp add: b(1))
qed

lemma delimited_inside:
  assumes "message_ok dec fs" and "ibuf s src"
  shows "returns_inside
    (case pb_make_string_substream s of
       None \<Rightarrow> None
     | Some (None, s1) \<Rightarrow> Some (False, (s1, m))
     | Some (Some sub, s1) \<Rightarrow>
         (case dec (sub, m) fs dest of None \<Rightarrow> None
          | Some (status, (sub1, m1)) \<Rightarrow> close_and_return (s1, m1) sub1 status)) s src"
  using assms(2)
proof (cases rule: make_substream_inside)
  case (fail s1)
  then show ?thesis by (auto simp: returns_inside_def intro: moved_inside)
next
  case (sub n s1)
  with message_on_substream [OF assms(1) sub(2,3,4), of m dest] show ?thesis by simp
qed

lemma submessage_decoder:
  assumes "message_ok noinit (descs env (ptr f))" and "message_ok full (descs env (ptr f))"
  shows "stream_decoder (pb_dec_submessage env noinit full) f"
proof
  fix s :: "'a pb_istream" and src m d
  assume ok: "ibuf s src"
  from ok show "returns_inside (pb_dec_submessage env noinit full (s, m) f d) s src"
  proof (cases rule: make_substream_inside)
    case (fail s1)
    then show ?thesis by (auto simp: pb_dec_submessage_def returns_inside_def intro: moved_inside)
  next
    case (sub n s1)
    have par: "inside s src (s1\<lparr>bytes_left := bytes_left s1 - n\<rparr>)"
      using moved_inside [OF sub(2)] sub(3) by (rule inside_shorter)
    show ?thesis
    proof (cases "ptr f = 0")
      case True
      with sub(1) par show ?thesis
        by (auto simp: pb_dec_submessage_def returns_inside_def dec_error_def intro: inside_error)
    next
      case False
      with sub(1) message_on_substream [OF assms(1) sub(2,3,4), of m d]
        message_on_substream [OF assms(2) sub(2,3,4), of m d]
      show ?thesis by (simp add: pb_dec_submessage_def)
    qed
  qed
qed


lemma static_field_returns:
  assumes func: "stream_decoder func (iter_field it)"
    and sub: "PB_LTYPE (ftype (iter_field it)) = PB_LTYPE_SUBMESSAGE"
    and defs: "\<And>m. \<exists>m'. defaults (descs env (ptr (iter_field it))) (pData it) m = Some m'"
    and ok: "ibuf s src"
  shows "returns_inside (decode_static_field env func defaults (s, m) wt it) s src"
proof -
  let ?f = "iter_field it" and ?h = "PB_HTYPE (ftype (iter_field it))"
  have r: "returns_inside (func (s, m1) ?f d) s src" for m1 d
    using stream_decoder.returns [OF func ok] .
  have np: "\<not> PB_LTYPE (ftype ?f) \<le> PB_LTYPE_LAST_PACKABLE" using sub by simp
  let ?m = "wr32 m (pSize it) (tag ?f)"
  obtain m2 where m2: "defaults (descs env (ptr ?f)) (pData it) (memset ?m (pData it) 0 (unat (data_size ?f))) = Some m2"
    using defs by blast
  show ?thesis
    unfolding decode_static_field_def Let_def
    using r sub np returns_error [OF ok] m2 by auto
qed

lemma field_returns:
  assumes pl: "plain k (descs env) fs" "k \<le> n" and it: "it_on fs it" and ok: "ibuf s src"
    and msgs: "\<And>gs. plain (k - 1) (descs env) gs \<Longrightarrow> message_ok noinit gs \<and> message_ok full gs"
  shows "\<exists>r it' s' m'. decode_field n env noinit full (s, m) wt it = Some (r, it', (s', m')) \<and>
    it_on fs it' \<and> inside s src s' \<and> (r \<longrightarrow> moved s src s')"
proof -
  let ?pre = "if PB_HTYPE (ftype (iter_field it)) = PB_HTYPE_ONEOF
      then pb_release_union_field n env (s, m) it else Some (True, it, (s, m))"
  obtain ok1 it1 msg m1 where pre: "?pre = Some (ok1, it1, (if ok1 then s else is_set_error s msg, m1))"
    and it1: "it_on fs it1"
  proof (cases "PB_HTYPE (ftype (iter_field it)) = PB_HTYPE_ONEOF")
    case True
    obtain r it1 msg m1 where "pb_release_union_field n env (s, m) it =
        Some (r, it1, (if r then s else is_set_error s msg, m1))" "it_on fs it1"
      using release_union_total [OF pl it] by blast
    with True show thesis by (intro that [of r it1 msg m1]) (simp_all only: if_True refl)
  next
    case False
    with that [of True it] it show thesis by simp
  qed
  show ?thesis
  proof (cases ok1)
    case False
    then have "decode_field n env noinit full (s, m) wt it = Some (False, it1, (is_set_error s msg, m1))"
      unfolding decode_field_def pre by simp
    moreover have "inside s src (is_set_error s msg)"
      by (intro inside_error moved_inside moved_refl ok)
    ultimately show ?thesis using it1 by auto
  next
    case True
    let ?f = "iter_field it1"
    have f: "?f \<in> set fs" using it1 by (rule it_on_field)
    have st: "PB_ATYPE (ftype ?f) = PB_ATYPE_STATIC" using pl(1) f by (elim plain_cases) blast
    let ?func = "PB_DECODERS env noinit full ! unat (PB_LTYPE (ftype ?f))"
    let ?r = "decode_static_field env ?func (pb_message_set_to_defaults n env) (s, m1) wt it1"
    have main: "unat (PB_LTYPE (ftype ?f)) < 11 \<and> returns_inside ?r s src"
    proof (cases "PB_LTYPE (ftype ?f) = PB_LTYPE_SUBMESSAGE")
      case True
      then have gs: "plain (k - 1) (descs env) (descs env (ptr ?f))"
        using pl(1) f by (elim plain_cases) auto
      have "?func = pb_dec_submessage env noinit full" using True by (simp add: PB_DECODERS_def nth_Cons_numeral)
      moreover have "stream_decoder (pb_dec_submessage env noinit full) ?f"
        using msgs [OF gs] by (intro submessage_decoder) blast+
      moreover have "\<exists>m'. pb_message_set_to_defaults n env (descs env (ptr ?f)) (pData it1) m = Some m'" for m
        using pl(2) by (intro defaults_total [OF gs]) simp
      ultimately show ?thesis using static_field_returns [of "pb_dec_submessage env noinit full" it1] True ok by simp
    next
      case False
      then have p: "plain_scalar ?f" using pl(1) f by (elim plain_cases) blast
      then have lt: "PB_LTYPE (ftype ?f) \<in> {0, 1, 2, 3, 4, 5, 6, 7, 10}" by (simp add: plain_scalar_def)
      have "field_decoder ?func ?f"
        using p st by (intro static_decoder) (simp_all add: plain_scalar_def)
      then have "returns_inside ?r s src"
        using static_field_confined_gen [of ?func it1 s src env "pb_message_set_to_defaults n env" m1 wt] p False ok
        by (auto simp: plain_scalar_def returns_inside_def)
      with lt show ?thesis by auto
    qed
    have "decode_field n env noinit full (s, m) wt it = map_option (\<lambda>(r, st1). (r, it1, st1)) ?r"
    proof -
      have l: "length (PB_DECODERS env noinit full) = 11" by (simp add: PB_DECODERS_def)
      show ?thesis using True st conjunct1 [OF main] unfolding decode_field_def pre by (simp add: Let_def l)
    qed
    with main it1 show ?thesis by (auto simp: returns_inside_def)
  qed
qed


lemma tag_progress:
  assumes "ibuf s src"
  shows "\<exists>t s1. pb_decode_tag s = Some (t, s1) \<and> moved s src s1 \<and> tag_number t \<noteq> - 1 \<and>
    (tag_ok t \<longrightarrow> unat (bytes_left s1) < unat (bytes_left s))"
proof -
  obtain e v s1 where r: "pb_decode_varint32_eof s = Some (e, v, s1)" "moved s src s1"
    using varint32_eof_inside [OF assms] by blast
  show ?thesis
  proof (cases v)
    case None
    with r show ?thesis by (auto simp: pb_decode_tag_def)
  next
    case (Some temp)
    have "unat (bytes_left s1) < unat (bytes_left s)"
      using varint32_progress [OF assms] r(1) Some by (simp add: pb_decode_varint32_def)
    moreover have "drop_bit 3 temp \<noteq> - 1"
    proof -
      have "unat (drop_bit 3 temp) < 2 ^ 29"
      proof -
        have "unat temp < 4294967296" by simp
        then show ?thesis by (simp add: unat_drop_bit div_less_iff_less_mult)
      qed
      then show ?thesis by (auto simp: unsigned_minus_1_eq_mask mask_eq_exp_minus_1)
    qed
    ultimately show ?thesis using r Some by (auto simp: pb_decode_tag_def)
  qed
qed

lemma found_returns:
  assumes pl: "plain k (descs env) fs" "k \<le> n" and it: "it_on fs (iter v)" and ok: "ibuf s src"
    and msgs: "\<And>gs. plain (k - 1) (descs env) gs \<Longrightarrow> message_ok noinit gs \<and> message_ok full gs"
  shows "\<exists>r v' s' m'. decode_found n env noinit full cnt wt v (s, m) = Some (r, v', (s', m')) \<and>
    it_on fs (iter v') \<and> inside s src s' \<and> (r \<longrightarrow> moved s src s')"
proof -
  let ?it = "iter v"
  let ?fixed = "PB_HTYPE (ftype (iter_field ?it)) = PB_HTYPE_REPEATED \<and> pSize ?it = pData ?it"
  let ?switch = "?fixed \<and> fixed_count_field v \<noteq> Some (pos ?it)"
  show ?thesis
  proof (cases "?switch \<and> \<not> fixed_count_done v cnt m")
    case True
    then have "decode_found n env noinit full cnt wt v (s, m) =
        Some (False, v, (is_set_error s ''wrong size for fixed count field'', m))"
      unfolding decode_found_def Let_def by simp
    with it ok show ?thesis by (auto intro: inside_error moved_inside moved_refl)
  next
    case False
    let ?m1 = "if ?switch then wr32 m cnt 0 else m"
    let ?v1 = "if ?switch then v\<lparr>fixed_count_field := Some (pos ?it)\<rparr> else v"
    let ?v2 = "if ?fixed then ?v1\<lparr>iter := ?it\<lparr>pSize := cnt\<rparr>\<rparr> else ?v1"
    let ?v3 = "mark_seen ?v2"
    have on: "it_on fs (iter ?v3)" using it by (auto simp: mark_seen_def Let_def it_on_def)
    obtain r it' s' m' where d: "decode_field n env noinit full (s, ?m1) wt (iter ?v3) = Some (r, it', (s', m'))"
      "it_on fs it'" "inside s src s'" "r \<longrightarrow> moved s src s'"
      using field_returns [OF pl on ok msgs] by blast
    have "decode_found n env noinit full cnt wt v (s, m) = Some (r, ?v3\<lparr>iter := it'\<rparr>, (s', m'))"
      unfolding decode_found_def Let_def fst_conv snd_conv d(1) if_not_P [OF False] by simp
    with d show ?thesis by auto
  qed
qed

lemma skip_returns:
  assumes "ibuf s src"
  shows "\<exists>r s'. read_only (pb_skip_field s wt) m = Some (r, (s', m)) \<and> inside s src s' \<and> (r \<longrightarrow> moved s src s')"
proof -
  obtain x s' where x: "pb_skip_field s wt = Some (x, s')" "moved s src s'"
    using skip_reader.stays_inside [OF assms] by blast
  then show ?thesis by (cases x) (auto simp: read_only_def read_then_def intro: moved_inside)
qed

lemma unknown_returns:
  assumes pl: "plain k (descs env) fs" and it: "it_on fs (iter v)" and ok: "ibuf s src" and t: "t \<noteq> - 1"
  shows "\<exists>r v' s' m'. decode_unknown n env noinit full t wt v (s, m) = Some (r, v', (s', m')) \<and>
    it_on fs (iter v') \<and> inside s src s' \<and> (r \<longrightarrow> moved s src s')"
proof -
  obtain r s' where sk: "read_only (pb_skip_field s wt) m = Some (r, (s', m))" "inside s src s'"
    "r \<longrightarrow> moved s src s'" using skip_returns [OF ok] by blast
  have ne: "list_all (\<lambda>f. PB_LTYPE (ftype f) \<noteq> PB_LTYPE_EXTENSION) fs"
    using plain_no_extension [OF pl] by (auto simp: list_all_iff)
  have on: "start (iter v) = fs" "pos (iter v) < length fs" using it by (simp_all add: it_on_def)
  then have "steps_to (length fs) (pos (iter v)) (pos (iter v)) \<le> Suc (length fs)" by (simp add: steps_to_def)
  from find_extension_on [OF plain_tags [OF pl] ne on(2) it this] on(1)
  obtain it1 where e: "find_extension_field (iter v) = Some (False, it1)" "it_on fs it1"
    unfolding find_extension_field_def by blast
  have "t < - 1" using t by (simp add: word_order.not_eq_extremum)
  show ?thesis
  proof (cases "t < extension_range_start v")
    case True
    then have "decode_unknown n env noinit full t wt v (s, m) = Some (r, v, (s', m))"
      unfolding decode_unknown_def Let_def by (simp add: sk(1))
    with sk it show ?thesis by auto
  next
    case False
    then have "decode_unknown n env noinit full t wt v (s, m) =
        Some (r, v\<lparr>iter := it1, extension_range_start := - 1\<rparr>, (s', m))"
      unfolding decode_unknown_def Let_def using \<open>t < - 1\<close> by (simp add: sk(1) e(1))
    with sk e(2) show ?thesis by auto
  qed
qed

lemma noinit_loop_returns:
  assumes pl: "plain k (descs env) fs" "k \<le> n"
    and msgs: "\<And>gs. plain (k - 1) (descs env) gs \<Longrightarrow> message_ok noinit gs \<and> message_ok full gs"
  shows "it_on fs (iter v) \<Longrightarrow> ibuf s src \<Longrightarrow> unat (bytes_left s) < rounds \<Longrightarrow>
    \<exists>r v' s' m'. noinit_loop rounds n env noinit full cnt v (s, m) = Some (r, v', (s', m')) \<and>
      it_on fs (iter v') \<and> inside s src s' \<and> (r \<longrightarrow> moved s src s')"
proof (induction rounds arbitrary: v s src m)
  case 0
  then show ?case by simp
next
  case (Suc rounds)
  show ?case
  proof (cases "bytes_left s = 0")
    case True
    with Suc.prems show ?thesis by (auto intro: moved_inside moved_refl)
  next
    case False
    obtain t s1 where tg: "pb_decode_tag s = Some (t, s1)" "moved s src s1" "tag_number t \<noteq> - 1"
      "tag_ok t \<longrightarrow> unat (bytes_left s1) < unat (bytes_left s)"
      using tag_progress [OF Suc.prems(2)] by blast
    show ?thesis
    proof (cases "tag_ok t")
      case no: False
      with False tg Suc.prems(1) show ?thesis by (auto intro: moved_inside)
    next
      case yes: True
      have ok1: "ibuf s1 (rest_of s1)" using Suc.prems(2) tg(2) by (rule moved_ibuf)
      obtain found it1 where f: "pb_field_iter_find (iter v) (tag_number t) = Some (found, it1)" "it_on fs it1"
        using find_on [OF plain_tags [OF pl(1)] Suc.prems(1)] by blast
      let ?body = "if found
          then decode_found n env noinit full cnt (wire_type t) (v\<lparr>iter := it1\<rparr>) (s1, m)
          else decode_unknown n env noinit full (tag_number t) (wire_type t) (v\<lparr>iter := it1\<rparr>) (s1, m)"
      have body: "\<exists>r v1 s2 m2. ?body = Some (r, v1, (s2, m2)) \<and> it_on fs (iter v1) \<and>
          inside s1 (rest_of s1) s2 \<and> (r \<longrightarrow> moved s1 (rest_of s1) s2)"
      proof (cases found)
        case True
        with found_returns [OF pl, of "v\<lparr>iter := it1\<rparr>" s1 "rest_of s1"] f(2) ok1 msgs show ?thesis by simp
      next
        case False
        with unknown_returns [OF pl(1), of "v\<lparr>iter := it1\<rparr>" s1 "rest_of s1"] f(2) ok1 tg(3) show ?thesis by simp
      qed
      then obtain r v1 s2 m2 where b: "?body = Some (r, v1, (s2, m2))" "it_on fs (iter v1)"
        "inside s1 (rest_of s1) s2" "r \<longrightarrow> moved s1 (rest_of s1) s2" by blast
      have ins: "inside s src s2" using moved_inside [OF tg(2)] b(3) by (rule inside_trans)
      have step: "noinit_loop (Suc rounds) n env noinit full cnt v (s, m) =
          (if \<not> r then Some (False, v1, (s2, m2)) else noinit_loop rounds n env noinit full cnt v1 (s2, m2))"
        using False tg(1) yes f(1) b(1) by (cases found) simp_all
      show ?thesis
      proof (cases r)
        case False
        with step ins b(2) show ?thesis by auto
      next
        case True
        have m2: "moved s src s2" using tg(2) b(4) True by (blast intro: moved_trans)
        have "ibuf s2 (rest_of s2)" using Suc.prems(2) m2 by (rule moved_ibuf)
        moreover have "unat (bytes_left s2) < rounds"
          using moved_left [of s1 "rest_of s1" s2] b(4) True tg(4) yes Suc.prems(3) by simp
        ultimately obtain r' v' s' m' where ih:
          "noinit_loop rounds n env noinit full cnt v1 (s2, m2) = Some (r', v', (s', m'))" "it_on fs (iter v')"
          "inside s2 (rest_of s2) s'" "r' \<longrightarrow> moved s2 (rest_of s2) s'"
          using Suc.IH [OF b(2)] by blast
        have "inside s src s'" using ins ih(3) by (rule inside_trans)
        moreover have "r' \<longrightarrow> moved s src s'" using m2 ih(4) by (blast intro: moved_trans)
        ultimately show ?thesis using step True ih(1,2) by auto
      qed
    qed
  qed
qed


lemma plain_messages_ok:
  "plain k (descs env) fs \<Longrightarrow> k < n \<Longrightarrow>
   message_ok (pb_decode_noinit n env) fs \<and> message_ok (pb_decode n env) fs"
proof (induction n arbitrary: k fs)
  case 0
  then show ?case by simp
next
  case (Suc n)
  have kn: "k \<le> n" using Suc.prems(2) by simp
  have k0: "k \<noteq> 0" using Suc.prems(1) by (auto elim: plain_cases)
  have msgs: "message_ok (pb_decode_noinit n env) gs \<and> message_ok (pb_decode n env) gs"
    if "plain (k - 1) (descs env) gs" for gs
    using Suc.IH [OF that] kn k0 by simp
  have noinit: "returns_inside (pb_decode_noinit (Suc n) env (s, m) fs dest) s src" if ok: "ibuf s src" for s src m dest
  proof -
    let ?v0 = "\<lparr>seen0 = 0, seen1 = 0, extension_range_start = 0,
                iter = snd (pb_field_iter_begin fs dest), fixed_count_field = None\<rparr>"
    have "it_on fs (iter ?v0)" using it_on_begin [OF plain_tags [OF Suc.prems(1)]] by simp
    from noinit_loop_returns [OF Suc.prems(1) kn msgs this ok, of "Suc (unat (bytes_left s))" "frame_addr env n"
        "wr32 m (frame_addr env n) 0"]
    obtain r v' s' m' where l: "noinit_loop (Suc (unat (bytes_left s))) n env (pb_decode_noinit n env) (pb_decode n env)
        (frame_addr env n) ?v0 (s, wr32 m (frame_addr env n) 0) = Some (r, v', (s', m'))"
      "inside s src s'" "r \<longrightarrow> moved s src s'" by blast
    show ?thesis
      unfolding pb_decode_noinit_full Let_def fst_conv snd_conv l(1)
      using l(2,3) by (auto simp: returns_inside_def dec_error_def intro: inside_error)
  qed
  have "returns_inside (pb_decode (Suc n) env (s, m) fs dest) s src" if ok: "ibuf s src" for s src m dest
  proof -
    obtain m1 where d: "pb_message_set_to_defaults (Suc n) env fs dest m = Some m1"
      using defaults_total [OF Suc.prems(1), of "Suc n"] kn by auto
    obtain r s2 m2 where r: "pb_decode_noinit (Suc n) env (s, m1) fs dest = Some (r, (s2, m2))"
      "inside s src s2" "r \<longrightarrow> moved s src s2"
      using noinit [OF ok, of m1 dest] by (auto simp only: returns_inside_def)
    obtain m3 where "pb_release (Suc n) env fs dest m2 = Some m3"
      using pb_release_total [OF Suc.prems(1), of "Suc n"] kn by auto
    with d r show ?thesis by (auto simp: pb_decode_def returns_inside_def simp del: pb_decode_noinit.simps)
  qed
  with noinit show ?case by (auto simp: message_ok_def simp del: pb_decode_noinit.simps)
qed


text \<open>C16: \<open>pb_decode\<close> and \<open>pb_decode_delimited\<close> are total and memory-safe readers: for every message of
  statically allocated fields, with submessages, repeated fields and unions of any shape, and for
  every byte string, they return true or false within a fuel just above the nesting depth, never
  read outside the buffer, and on success have only moved forward in it.\<close>

theorem pb_decode_total:
  fixes env :: "'s dec_env"
  assumes "plain k (descs env) fs" and "k < n" and "unat sz \<le> length src"
  shows "(\<exists>ok s' m'. pb_decode n env (pb_istream_from_buffer src sz, m) fs dest = Some (ok, (s', m')) \<and>
      inside (pb_istream_from_buffer src sz) src s' \<and> (ok \<longrightarrow> moved (pb_istream_from_buffer src sz) src s')) \<and>
    (\<exists>ok s' m'. pb_decode_delimited n env (pb_istream_from_buffer src sz, m) fs dest = Some (ok, (s', m')) \<and>
      inside (pb_istream_from_buffer src sz) src s' \<and> (ok \<longrightarrow> moved (pb_istream_from_buffer src sz) src s'))"
proof -
  let ?s = "pb_istream_from_buffer src sz :: 's pb_istream"
  have ok: "ibuf ?s src" using assms(3) by (simp add: ibuf_def pb_istream_from_buffer_def)
  have msg: "message_ok (pb_decode n env) fs" using plain_messages_ok [OF assms(1,2)] by blast
  then have "returns_inside (pb_decode n env (?s, m) fs dest) ?s src" using ok by (simp add: message_ok_def)
  moreover have "returns_inside (pb_decode_delimited n env (?s, m) fs dest) ?s src"
    unfolding pb_decode_delimited_def fst_conv snd_conv by (rule delimited_inside [OF msg ok])
  ultimately show ?thesis unfolding returns_inside_def by blast
qed

definition demo_parent :: "pb_field list" where
  "demo_parent = [demo_byte, \<lparr>tag = 2, ftype = 0x38, data_offset = 7, size_offset = 0xFFFFFFFC,
     data_size = 12, array_size = 0, ptr = 0x40\<rparr>]"

theorem pb_decode_total_witness:
  "(\<exists>ok s' m'. pb_decode 3 demo_dec_env (pb_istream_from_buffer [8, 1, 0x12, 0xff] 4, demo_mem) demo_parent 0x1000 =
        Some (ok, (s', m')) \<and>
      inside (pb_istream_from_buffer [8, 1, 0x12, 0xff] 4) [8, 1, 0x12, 0xff] s' \<and>
      (ok \<longrightarrow> moved (pb_istream_from_buffer [8, 1, 0x12, 0xff] 4) [8, 1, 0x12, 0xff] s')) \<and>
    (\<exists>ok s' m'. pb_decode_delimited 3 demo_dec_env (pb_istream_from_buffer [8, 1, 0x12, 0xff] 4, demo_mem) demo_parent 0x1000 =
        Some (ok, (s', m')) \<and>
      inside (pb_istream_from_buffer [8, 1, 0x12, 0xff] 4) [8, 1, 0x12, 0xff] s' \<and>
      (ok \<longrightarrow> moved (pb_istream_from_buffer [8, 1, 0x12, 0xff] 4) [8, 1, 0x12, 0xff] s'))"
proof -
  have sz: "unat (4 :: u64) \<le> length [8, 1, 0x12, 0xff :: u8]" by simp
  have t: "PB_ATYPE 0x22 = 0" "PB_LTYPE 0x22 = 2" "PB_ATYPE 2 = 0" "PB_LTYPE 2 = 2" "PB_ATYPE 0x38 = 0" "PB_LTYPE 0x38 = 8"
    by code_simp+
  have p: "plain (Suc (Suc 0)) (descs demo_dec_env) demo_parent"
    by (simp add: tags_ok_def demo_parent_def demo_dec_env_def demo_byte_def demo_array_def t
        plain_scalar_def field_wf_def)
  have k: "Suc (Suc 0) < 3" by simp
  show ?thesis by (rule pb_decode_total [OF p k sz])
qed

end
