(* ===== verification/Bssl_Mem.thy ===== *)
theory Bssl_Mem
  imports Prelude "HOL-Library.Multiset"
begin

text \<open>
  BoringSSL's memory and string primitives: \<open>crypto/mem.c\<close> and the byte-order helpers of
  \<open>crypto/internal.h\<close>. The C library's \<open>malloc\<close> is an environment: it may refuse any
  request, and what a fresh block contains is arbitrary. A block is the memory from its first
  byte on, with the size recorded in the prefix and the room that was really allocated.
\<close>

section \<open>Heap blocks\<close>

record heap_env =
  malloc_ok :: "nat \<Rightarrow> bool"
  junk :: "nat \<Rightarrow> u8"

record mem_block =
  blk_size :: nat
  blk_room :: nat
  blk_data :: "nat \<Rightarrow> u8"

definition SIZE_T :: nat where "SIZE_T = 2 ^ 64"

definition OPENSSL_MALLOC_PREFIX :: nat where "OPENSSL_MALLOC_PREFIX = 8"

text \<open>
  \<open>size + OPENSSL_MALLOC_PREFIX\<close> is computed in \<open>size_t\<close> and may wrap. The caller gets a pointer
  past the prefix, so the room behind it is what \<open>malloc\<close> was asked for less the prefix.
\<close>

definition OPENSSL_malloc :: "heap_env \<Rightarrow> nat \<Rightarrow> mem_block option" where
  "OPENSSL_malloc h n =
    (let total = (n + OPENSSL_MALLOC_PREFIX) mod SIZE_T in
     if malloc_ok h total
     then Some \<lparr>blk_size = n, blk_room = total - OPENSSL_MALLOC_PREFIX, blk_data = junk h\<rparr>
     else None)"

definition blk_set :: "mem_block \<Rightarrow> nat \<Rightarrow> u8 \<Rightarrow> mem_block" where
  "blk_set b i v = b\<lparr>blk_data := (blk_data b)(i := v)\<rparr>"

text \<open>\<open>memcpy\<close> of \<open>bs\<close> to offset \<open>i\<close>, and the bytes \<open>[i, j)\<close> of a block.\<close>

definition blk_write :: "mem_block \<Rightarrow> nat \<Rightarrow> u8 list \<Rightarrow> mem_block" where
  "blk_write b i bs =
     b\<lparr>blk_data := (\<lambda>x. if i \<le> x \<and> x < i + length bs then bs ! (x - i) else blk_data b x)\<rparr>"

definition blk_read :: "mem_block \<Rightarrow> nat \<Rightarrow> nat \<Rightarrow> u8 list" where
  "blk_read b i j = map (blk_data b) [i..<j]"

text \<open>The old block is freed only when the new one could be had.\<close>

definition OPENSSL_realloc :: "heap_env \<Rightarrow> mem_block option \<Rightarrow> nat \<Rightarrow> mem_block option" where
  "OPENSSL_realloc h orig new_size =
    (case orig of
      None \<Rightarrow> OPENSSL_malloc h new_size
    | Some b \<Rightarrow>
       (case OPENSSL_malloc h new_size of
         None \<Rightarrow> None
       | Some ret \<Rightarrow>
           let to_copy = (if blk_size b < new_size then blk_size b else new_size)
           in Some (blk_write ret 0 (blk_read b 0 to_copy))))"

definition OPENSSL_memdup :: "heap_env \<Rightarrow> u8 list \<Rightarrow> mem_block option" where
  "OPENSSL_memdup h bs =
    (if length bs = 0 then None
     else case OPENSSL_malloc h (length bs) of
       None \<Rightarrow> None
     | Some b \<Rightarrow> Some (blk_write b 0 bs))"

section \<open>Comparing and hashing\<close>

text \<open>\<open>CRYPTO_memcmp\<close> ORs together the differences of the two buffers, without an early exit.\<close>

fun CRYPTO_memcmp_loop :: "u8 list \<Rightarrow> u8 list \<Rightarrow> u8 \<Rightarrow> u8" where
  "CRYPTO_memcmp_loop (a # as) (b # bs) x = CRYPTO_memcmp_loop as bs (x OR (a XOR b))"
| "CRYPTO_memcmp_loop _ _ x = x"

definition CRYPTO_memcmp :: "u8 list \<Rightarrow> u8 list \<Rightarrow> nat \<Rightarrow> u8" where
  "CRYPTO_memcmp a b n = CRYPTO_memcmp_loop (take n a) (take n b) 0"

text \<open>\<open>memcmp\<close> of the C library: the sign of the first difference, bytes compared unsigned.\<close>

fun OPENSSL_memcmp :: "u8 list \<Rightarrow> u8 list \<Rightarrow> nat \<Rightarrow> int" where
  "OPENSSL_memcmp (a # as) (b # bs) (Suc n) =
     (if a < b then -1 else if b < a then 1 else OPENSSL_memcmp as bs n)"
| "OPENSSL_memcmp _ _ _ = 0"

definition FNV_PRIME :: u32 where "FNV_PRIME = 16777619"
definition FNV_OFFSET :: u32 where "FNV_OFFSET = 2166136261"

definition OPENSSL_hash32 :: "u8 list \<Rightarrow> u32" where
  "OPENSSL_hash32 bs = foldl (\<lambda>h b. (h XOR ucast b) * FNV_PRIME) FNV_OFFSET bs"

section \<open>C strings\<close>

text \<open>
  A C string is given as its bytes before the terminating zero; reading at its end gives the
  zero. \<open>char\<close> is signed on the target, so characters are compared as signed values.
\<close>

fun OPENSSL_strnlen :: "u8 list \<Rightarrow> nat \<Rightarrow> nat" where
  "OPENSSL_strnlen s 0 = 0"
| "OPENSSL_strnlen [] (Suc n) = 0"
| "OPENSSL_strnlen (c # s) (Suc n) = (if c = 0 then 0 else Suc (OPENSSL_strnlen s n))"

definition OPENSSL_strdup :: "heap_env \<Rightarrow> u8 list option \<Rightarrow> mem_block option" where
  "OPENSSL_strdup h s =
    (case s of None \<Rightarrow> None
     | Some s \<Rightarrow>
        (case OPENSSL_malloc h (length s + 1) of
          None \<Rightarrow> None
        | Some b \<Rightarrow> Some (blk_write b 0 (s @ [0]))))"

definition OPENSSL_strndup :: "heap_env \<Rightarrow> u8 list option \<Rightarrow> nat \<Rightarrow> mem_block option" where
  "OPENSSL_strndup h s n =
    (case s of None \<Rightarrow> None
     | Some s \<Rightarrow>
        let n = OPENSSL_strnlen s n; alloc_size = (n + 1) mod SIZE_T in
        if alloc_size < n then None
        else (case OPENSSL_malloc h alloc_size of
               None \<Rightarrow> None
             | Some b \<Rightarrow> Some (blk_set (blk_write b 0 (take n s)) n 0)))"

definition OPENSSL_tolower :: "int \<Rightarrow> int" where
  "OPENSSL_tolower c = (if 65 \<le> c \<and> c \<le> 90 then c + (97 - 65) else c)"

definition char_at :: "u8 list \<Rightarrow> int" where
  "char_at s = (case s of [] \<Rightarrow> 0 | c # _ \<Rightarrow> sint c)"

function OPENSSL_strcasecmp :: "u8 list \<Rightarrow> u8 list \<Rightarrow> int" where
  "OPENSSL_strcasecmp a b =
    (let aa = OPENSSL_tolower (char_at a); bb = OPENSSL_tolower (char_at b) in
     if aa < bb then -1 else if aa > bb then 1 else if aa = 0 then 0
     else OPENSSL_strcasecmp (tl a) (tl b))"
  by pat_completeness auto
termination
  by (relation "measure (\<lambda>(a, b). length a)") (auto simp: char_at_def OPENSSL_tolower_def split: list.splits)

fun OPENSSL_strncasecmp :: "u8 list \<Rightarrow> u8 list \<Rightarrow> nat \<Rightarrow> int" where
  "OPENSSL_strncasecmp a b 0 = 0"
| "OPENSSL_strncasecmp a b (Suc n) =
    (let aa = OPENSSL_tolower (char_at a); bb = OPENSSL_tolower (char_at b) in
     if aa < bb then -1 else if aa > bb then 1 else if aa = 0 then 0
     else OPENSSL_strncasecmp (tl a) (tl b) n)"

text \<open>
  \<open>OPENSSL_strlcpy\<close> into the memory \<open>dst\<close> at offset \<open>d\<close>: the copy loop, then the terminator.
  The first component is the memory after it, the second the length of the source.
\<close>

definition strlen :: "u8 list \<Rightarrow> nat" where
  "strlen s = length (takeWhile (\<lambda>c. c \<noteq> 0) s)"

fun strlcpy_loop :: "(nat \<Rightarrow> u8) \<Rightarrow> nat \<Rightarrow> u8 list \<Rightarrow> nat \<Rightarrow> nat \<Rightarrow> (nat \<Rightarrow> u8) \<times> nat" where
  "strlcpy_loop dst d (c # s) dst_size l =
     (if dst_size > 1 \<and> c \<noteq> 0 then strlcpy_loop (dst(d := c)) (d + 1) s (dst_size - 1) (l + 1)
      else (if dst_size \<noteq> 0 then dst(d := 0) else dst, l + strlen (c # s)))"
| "strlcpy_loop dst d [] dst_size l = (if dst_size \<noteq> 0 then dst(d := 0) else dst, l)"

definition OPENSSL_strlcpy :: "(nat \<Rightarrow> u8) \<Rightarrow> nat \<Rightarrow> u8 list \<Rightarrow> nat \<Rightarrow> (nat \<Rightarrow> u8) \<times> nat" where
  "OPENSSL_strlcpy dst d s dst_size = strlcpy_loop dst d s dst_size 0"

fun OPENSSL_strlcat :: "(nat \<Rightarrow> u8) \<Rightarrow> nat \<Rightarrow> u8 list \<Rightarrow> nat \<Rightarrow> (nat \<Rightarrow> u8) \<times> nat" where
  "OPENSSL_strlcat dst d s 0 = OPENSSL_strlcpy dst d s 0"
| "OPENSSL_strlcat dst d s (Suc dst_size) =
    (if dst d \<noteq> 0 then (let (m, l) = OPENSSL_strlcat dst (d + 1) s dst_size in (m, l + 1))
     else OPENSSL_strlcpy dst d s (Suc dst_size))"

section \<open>Byte order\<close>

definition CRYPTO_bswap2 :: "u16 \<Rightarrow> u16" where
  "CRYPTO_bswap2 x = of_nat (of_le (rev (le_bytes 2 (unat x))))"

definition CRYPTO_bswap4 :: "u32 \<Rightarrow> u32" where
  "CRYPTO_bswap4 x = of_nat (of_le (rev (le_bytes 4 (unat x))))"

definition CRYPTO_bswap8 :: "u64 \<Rightarrow> u64" where
  "CRYPTO_bswap8 x = of_nat (of_le (rev (le_bytes 8 (unat x))))"

section \<open>\<open>qsort\<close>\<close>

text \<open>\<open>qsort\<close> of the C library, as some sort by the comparison function.\<close>

fun qsort_insert :: "('a \<Rightarrow> 'a \<Rightarrow> int) \<Rightarrow> 'a \<Rightarrow> 'a list \<Rightarrow> 'a list" where
  "qsort_insert cmp x [] = [x]"
| "qsort_insert cmp x (y # ys) = (if cmp x y \<le> 0 then x # y # ys else y # qsort_insert cmp x ys)"

fun qsort_by :: "('a \<Rightarrow> 'a \<Rightarrow> int) \<Rightarrow> 'a list \<Rightarrow> 'a list" where
  "qsort_by cmp [] = []"
| "qsort_by cmp (x # xs) = qsort_insert cmp x (qsort_by cmp xs)"

lemma mset_qsort_insert: "mset (qsort_insert cmp x xs) = add_mset x (mset xs)"
  by (induction xs) auto

lemma mset_qsort_by [simp]: "mset (qsort_by cmp xs) = mset xs"
  by (induction xs) (simp_all add: mset_qsort_insert)

lemma length_qsort_by [simp]: "length (qsort_by cmp xs) = length xs"
  by (metis mset_qsort_by size_mset)

lemma set_qsort_insert [simp]: "set (qsort_insert cmp x xs) = insert x (set xs)"
  by (metis mset_qsort_insert set_mset_mset set_mset_add_mset_insert)

text \<open>
  The contract of a comparison function: it orders its arguments. Under it \<open>qsort\<close> sorts, and the
  answers along a sorted list only fall.
\<close>

locale cmp_order =
  fixes cmp :: "'a \<Rightarrow> 'a \<Rightarrow> int"
  assumes flip: "cmp y x < 0 \<longleftrightarrow> 0 < cmp x y"
    and trans: "cmp x y \<le> 0 \<Longrightarrow> cmp y z \<le> 0 \<Longrightarrow> cmp x z \<le> 0"
begin

lemma total: "cmp x y \<le> 0 \<or> cmp y x \<le> 0"
  using flip [of x y] by linarith

lemma trans_less: "cmp x y < 0 \<Longrightarrow> cmp y z \<le> 0 \<Longrightarrow> cmp x z < 0"
  using trans [of y z x] flip [of x z] flip [of x y] flip [of z x] flip [of y x] by linarith

lemma sorted_insert:
  "sorted_wrt (\<lambda>x y. cmp x y \<le> 0) xs \<Longrightarrow> sorted_wrt (\<lambda>x y. cmp x y \<le> 0) (qsort_insert cmp x xs)"
proof (induction xs)
  case (Cons y ys)
  then show ?case using total [of x y] by (auto intro: trans)
qed simp

lemma sorted_qsort: "sorted_wrt (\<lambda>x y. cmp x y \<le> 0) (qsort_by cmp xs)"
  by (induction xs) (simp_all add: sorted_insert)

lemma falling:
  assumes "sorted_wrt (\<lambda>x y. cmp x y \<le> 0) xs" "i \<le> j" "j < length xs"
  shows "cmp p (xs ! i) \<le> 0 \<Longrightarrow> cmp p (xs ! j) \<le> 0" "cmp p (xs ! i) < 0 \<Longrightarrow> cmp p (xs ! j) < 0"
proof -
  have "i = j \<or> cmp (xs ! i) (xs ! j) \<le> 0" using assms sorted_wrt_nth_less [of _ xs i j] by (cases "i = j") auto
  then show "cmp p (xs ! i) \<le> 0 \<Longrightarrow> cmp p (xs ! j) \<le> 0" "cmp p (xs ! i) < 0 \<Longrightarrow> cmp p (xs ! j) < 0"
    using trans trans_less by blast+
qed

end

lemma cmp_order_linorder: "cmp_order (\<lambda>a b. if (a :: 'a::linorder) < b then - 1 else if b < a then 1 else 0)"
proof
  fix x y z :: 'a
  show "(if y < x then - 1 else if x < y then 1 else 0) < (0 :: int) \<longleftrightarrow>
      (0 :: int) < (if x < y then - 1 else if y < x then 1 else 0)"
    by auto
  have le: "(if a < b then - 1 else if b < a then 1 else 0) \<le> (0 :: int) \<longleftrightarrow> a \<le> b" for a b :: 'a by auto
  assume "(if x < y then - 1 else if y < x then 1 else 0) \<le> (0 :: int)"
    "(if y < z then - 1 else if z < y then 1 else 0) \<le> (0 :: int)"
  then show "(if x < z then - 1 else if z < x then 1 else 0) \<le> (0 :: int)" unfolding le by (rule order_trans)
qed

end
