(* ===== verification/Bssl_Cbs.thy ===== *)
theory Bssl_Cbs
  imports Bssl_Mem
begin

text \<open>
  BoringSSL's byte-string reader, \<open>crypto/bytestring/cbs.c\<close>. A \<open>CBS\<close> is the slice of bytes it
  points at, \<open>data[0 .. len)\<close>. Every parser returns its result (None for a return value of 0)
  and the \<open>CBS\<close> as it leaves it: a failing parser may have consumed input, as in the source.
  Out parameters that are left half-written on failure are not part of the result.
\<close>

section \<open>Slices\<close>

type_synonym cbs = "u8 list"
type_synonym 'a cbs_res = "'a option \<times> cbs"

text \<open>\<open>if (!p(cbs)) return 0;\<close> followed by the rest of the function.\<close>

definition cbs_then :: "'a cbs_res \<Rightarrow> ('a \<Rightarrow> cbs \<Rightarrow> 'b cbs_res) \<Rightarrow> 'b cbs_res" where
  "cbs_then r f = (case r of (None, c) \<Rightarrow> (None, c) | (Some v, c) \<Rightarrow> f v c)"

definition CBS_init :: "u8 list \<Rightarrow> cbs" where "CBS_init bs = bs"
definition CBS_data :: "cbs \<Rightarrow> u8 list" where "CBS_data cbs = cbs"
definition CBS_len :: "cbs \<Rightarrow> nat" where "CBS_len cbs = length cbs"

definition cbs_get :: "cbs \<Rightarrow> nat \<Rightarrow> u8 list cbs_res" where
  "cbs_get cbs n = (if length cbs < n then (None, cbs) else (Some (take n cbs), drop n cbs))"

definition CBS_skip :: "cbs \<Rightarrow> nat \<Rightarrow> unit cbs_res" where
  "CBS_skip cbs n = cbs_then (cbs_get cbs n) (\<lambda>_ c. (Some (), c))"

text \<open>\<open>CBS_stow\<close>: the copy made, or None when an allocation failed; an empty slice gives NULL.\<close>

definition CBS_stow :: "heap_env \<Rightarrow> cbs \<Rightarrow> (mem_block option \<times> nat) option" where
  "CBS_stow h cbs =
    (if length cbs = 0 then Some (None, 0)
     else case OPENSSL_memdup h cbs of None \<Rightarrow> None | Some b \<Rightarrow> Some (Some b, length cbs))"

definition CBS_strdup :: "heap_env \<Rightarrow> cbs \<Rightarrow> mem_block option" where
  "CBS_strdup h cbs = OPENSSL_strndup h (Some cbs) (length cbs)"

definition CBS_contains_zero_byte :: "cbs \<Rightarrow> bool" where
  "CBS_contains_zero_byte cbs = list_ex (\<lambda>b. b = 0) cbs"

definition CBS_mem_equal :: "cbs \<Rightarrow> u8 list \<Rightarrow> bool" where
  "CBS_mem_equal cbs bs =
    (if length bs \<noteq> length cbs then False else CRYPTO_memcmp cbs bs (length bs) = 0)"

section \<open>Fixed-width integers\<close>

definition cbs_get_u :: "cbs \<Rightarrow> nat \<Rightarrow> u64 cbs_res" where
  "cbs_get_u cbs n =
    cbs_then (cbs_get cbs n) (\<lambda>d c. (Some (foldl (\<lambda>r b. push_bit 8 r OR ucast b) 0 d), c))"

definition CBS_get_u8 :: "cbs \<Rightarrow> u8 cbs_res" where
  "CBS_get_u8 cbs = cbs_then (cbs_get cbs 1) (\<lambda>v c. (Some (v ! 0), c))"

definition CBS_get_u16 :: "cbs \<Rightarrow> u16 cbs_res" where
  "CBS_get_u16 cbs = cbs_then (cbs_get_u cbs 2) (\<lambda>v c. (Some (ucast v), c))"

definition CBS_get_u16le :: "cbs \<Rightarrow> u16 cbs_res" where
  "CBS_get_u16le cbs = cbs_then (CBS_get_u16 cbs) (\<lambda>v c. (Some (CRYPTO_bswap2 v), c))"

definition CBS_get_u24 :: "cbs \<Rightarrow> u32 cbs_res" where
  "CBS_get_u24 cbs = cbs_then (cbs_get_u cbs 3) (\<lambda>v c. (Some (ucast v), c))"

definition CBS_get_u32 :: "cbs \<Rightarrow> u32 cbs_res" where
  "CBS_get_u32 cbs = cbs_then (cbs_get_u cbs 4) (\<lambda>v c. (Some (ucast v), c))"

definition CBS_get_u32le :: "cbs \<Rightarrow> u32 cbs_res" where
  "CBS_get_u32le cbs = cbs_then (CBS_get_u32 cbs) (\<lambda>v c. (Some (CRYPTO_bswap4 v), c))"

definition CBS_get_u64 :: "cbs \<Rightarrow> u64 cbs_res" where
  "CBS_get_u64 cbs = cbs_get_u cbs 8"

definition CBS_get_u64le :: "cbs \<Rightarrow> u64 cbs_res" where
  "CBS_get_u64le cbs = cbs_then (cbs_get_u cbs 8) (\<lambda>v c. (Some (CRYPTO_bswap8 v), c))"

definition CBS_get_last_u8 :: "cbs \<Rightarrow> u8 cbs_res" where
  "CBS_get_last_u8 cbs =
    (if length cbs = 0 then (None, cbs)
     else (Some (cbs ! (length cbs - 1)), take (length cbs - 1) cbs))"

definition CBS_get_bytes :: "cbs \<Rightarrow> nat \<Rightarrow> cbs cbs_res" where
  "CBS_get_bytes cbs n = cbs_then (cbs_get cbs n) (\<lambda>v c. (Some (CBS_init v), c))"

definition CBS_copy_bytes :: "cbs \<Rightarrow> nat \<Rightarrow> u8 list cbs_res" where
  "CBS_copy_bytes cbs n = cbs_then (cbs_get cbs n) (\<lambda>v c. (Some v, c))"

definition cbs_get_length_prefixed :: "cbs \<Rightarrow> nat \<Rightarrow> cbs cbs_res" where
  "cbs_get_length_prefixed cbs len_len =
    cbs_then (cbs_get_u cbs len_len) (\<lambda>n c. CBS_get_bytes c (unat n))"

definition CBS_get_u8_length_prefixed :: "cbs \<Rightarrow> cbs cbs_res" where
  "CBS_get_u8_length_prefixed cbs = cbs_get_length_prefixed cbs 1"

definition CBS_get_u16_length_prefixed :: "cbs \<Rightarrow> cbs cbs_res" where
  "CBS_get_u16_length_prefixed cbs = cbs_get_length_prefixed cbs 2"

definition CBS_get_u24_length_prefixed :: "cbs \<Rightarrow> cbs cbs_res" where
  "CBS_get_u24_length_prefixed cbs = cbs_get_length_prefixed cbs 3"

section \<open>ASN.1 tags and lengths\<close>

definition CBS_ASN1_TAG_SHIFT :: nat where "CBS_ASN1_TAG_SHIFT = 24"
definition CBS_ASN1_CONSTRUCTED :: u32 where "CBS_ASN1_CONSTRUCTED = push_bit CBS_ASN1_TAG_SHIFT 0x20"
definition CBS_ASN1_TAG_NUMBER_MASK :: u32 where
  "CBS_ASN1_TAG_NUMBER_MASK = push_bit (5 + CBS_ASN1_TAG_SHIFT) 1 - 1"
definition CBS_ASN1_BOOLEAN :: u32 where "CBS_ASN1_BOOLEAN = 0x1"
definition CBS_ASN1_INTEGER :: u32 where "CBS_ASN1_INTEGER = 0x2"
definition CBS_ASN1_BITSTRING :: u32 where "CBS_ASN1_BITSTRING = 0x3"
definition CBS_ASN1_OCTETSTRING :: u32 where "CBS_ASN1_OCTETSTRING = 0x4"

text \<open>
  \<open>parse_base128_integer\<close>: a byte is consumed first, then the value is checked for overflow and
  for a leading \<open>0x80\<close>.
\<close>

fun parse_base128_loop :: "cbs \<Rightarrow> u64 \<Rightarrow> u64 cbs_res" where
  "parse_base128_loop [] v = (None, [])"
| "parse_base128_loop (b # cbs) v =
    (if drop_bit (64 - 7) v \<noteq> 0 then (None, cbs)
     else if v = 0 \<and> b = 0x80 then (None, cbs)
     else let v = push_bit 7 v OR ucast (b AND 0x7f) in
       if b AND 0x80 \<noteq> 0 then parse_base128_loop cbs v else (Some v, cbs))"

definition parse_base128_integer :: "cbs \<Rightarrow> u64 cbs_res" where
  "parse_base128_integer cbs = parse_base128_loop cbs 0"

definition parse_asn1_tag :: "cbs \<Rightarrow> u32 cbs_res" where
  "parse_asn1_tag cbs =
    cbs_then (CBS_get_u8 cbs) (\<lambda>tag_byte c.
      let tag = push_bit CBS_ASN1_TAG_SHIFT (ucast tag_byte AND 0xe0);
          tag_number = (ucast (tag_byte AND 0x1f) :: u32) in
      if tag_number = 0x1f then
        cbs_then (parse_base128_integer c) (\<lambda>v c.
          if v > ucast CBS_ASN1_TAG_NUMBER_MASK \<or> v < 0x1f then (None, c)
          else (Some (tag OR ucast v), c))
      else (Some (tag OR tag_number), c))"

text \<open>
  The element found, header included, with its tag and the length of its header. With \<open>ber_ok\<close>
  an indefinite-length element is its header alone.
\<close>

definition cbs_get_any_asn1_element :: "cbs \<Rightarrow> bool \<Rightarrow> (cbs \<times> u32 \<times> nat) cbs_res" where
  "cbs_get_any_asn1_element cbs ber_ok =
    (case parse_asn1_tag cbs of
      (None, _) \<Rightarrow> (None, cbs)
    | (Some tag, header) \<Rightarrow>
       (case CBS_get_u8 header of
         (None, _) \<Rightarrow> (None, cbs)
       | (Some length_byte, header) \<Rightarrow>
          let header_len = CBS_len cbs - CBS_len header in
          if length_byte AND 0x80 = 0 then
            cbs_then (CBS_get_bytes cbs (unat length_byte + header_len))
              (\<lambda>out c. (Some (out, tag, header_len), c))
          else
            let num_bytes = unat (length_byte AND 0x7f) in
            if ber_ok \<and> tag AND CBS_ASN1_CONSTRUCTED \<noteq> 0 \<and> num_bytes = 0 then
              cbs_then (CBS_get_bytes cbs header_len) (\<lambda>out c. (Some (out, tag, header_len), c))
            else if num_bytes = 0 \<or> num_bytes > 4 then (None, cbs)
            else (case cbs_get_u header num_bytes of
                (None, _) \<Rightarrow> (None, cbs)
              | (Some len64, _) \<Rightarrow>
                  if len64 < 128 then (None, cbs)
                  else if drop_bit ((num_bytes - 1) * 8) len64 = 0 then (None, cbs)
                  else let n = unat len64 in
                    if (n + header_len + num_bytes) mod SIZE_T < n then (None, cbs)
                    else cbs_then (CBS_get_bytes cbs ((n + header_len + num_bytes) mod SIZE_T))
                      (\<lambda>out c. (Some (out, tag, header_len + num_bytes), c)))))"

definition CBS_get_any_asn1_element :: "cbs \<Rightarrow> (cbs \<times> u32 \<times> nat) cbs_res" where
  "CBS_get_any_asn1_element cbs = cbs_get_any_asn1_element cbs False"

definition CBS_get_any_ber_asn1_element :: "cbs \<Rightarrow> (cbs \<times> u32 \<times> nat) cbs_res" where
  "CBS_get_any_ber_asn1_element cbs = cbs_get_any_asn1_element cbs True"

definition CBS_get_any_asn1 :: "cbs \<Rightarrow> (cbs \<times> u32) cbs_res" where
  "CBS_get_any_asn1 cbs =
    cbs_then (CBS_get_any_asn1_element cbs) (\<lambda>(out, tag, header_len) c.
      case CBS_skip out header_len of
        (None, _) \<Rightarrow> (None, c)
      | (Some _, out) \<Rightarrow> (Some (out, tag), c))"

definition cbs_get_asn1 :: "cbs \<Rightarrow> u32 \<Rightarrow> bool \<Rightarrow> cbs cbs_res" where
  "cbs_get_asn1 cbs tag_value skip_header =
    cbs_then (CBS_get_any_asn1_element cbs) (\<lambda>(out, tag, header_len) c.
      if tag \<noteq> tag_value then (None, c)
      else if skip_header then
        (case CBS_skip out header_len of (None, _) \<Rightarrow> (None, c) | (Some _, out) \<Rightarrow> (Some out, c))
      else (Some out, c))"

definition CBS_get_asn1 :: "cbs \<Rightarrow> u32 \<Rightarrow> cbs cbs_res" where
  "CBS_get_asn1 cbs tag_value = cbs_get_asn1 cbs tag_value True"

definition CBS_get_asn1_element :: "cbs \<Rightarrow> u32 \<Rightarrow> cbs cbs_res" where
  "CBS_get_asn1_element cbs tag_value = cbs_get_asn1 cbs tag_value False"

definition CBS_peek_asn1_tag :: "cbs \<Rightarrow> u32 \<Rightarrow> bool" where
  "CBS_peek_asn1_tag cbs tag_value =
    (if CBS_len cbs < 1 then False
     else case parse_asn1_tag cbs of (None, _) \<Rightarrow> False | (Some t, _) \<Rightarrow> tag_value = t)"

section \<open>ASN.1 values\<close>

fun asn1_uint64_loop :: "u8 list \<Rightarrow> u64 \<Rightarrow> u64 option" where
  "asn1_uint64_loop [] out = Some out"
| "asn1_uint64_loop (b # bs) out =
    (if drop_bit 56 out \<noteq> 0 then None
     else asn1_uint64_loop bs (push_bit 8 out OR ucast b))"

definition CBS_get_asn1_uint64 :: "cbs \<Rightarrow> u64 cbs_res" where
  "CBS_get_asn1_uint64 cbs =
    cbs_then (CBS_get_asn1 cbs CBS_ASN1_INTEGER) (\<lambda>bytes c.
      if CBS_len bytes = 0 then (None, c)
      else if bytes ! 0 AND 0x80 \<noteq> 0 then (None, c)
      else if bytes ! 0 = 0 \<and> CBS_len bytes > 1 \<and> bytes ! 1 AND 0x80 = 0 then (None, c)
      else (asn1_uint64_loop bytes 0, c))"

text \<open>An \<open>int64_t\<close> is its 64-bit pattern, which \<open>sint\<close> reads.\<close>

definition CBS_get_asn1_int64 :: "cbs \<Rightarrow> u64 cbs_res" where
  "CBS_get_asn1_int64 cbs =
    cbs_then (CBS_get_asn1 cbs CBS_ASN1_INTEGER) (\<lambda>bytes c.
      let n = CBS_len bytes in
      if n = 0 \<or> n > 8 then (None, c)
      else if n > 1 \<and> bytes ! 0 = 0 \<and> bytes ! 1 AND 0x80 = 0 then (None, c)
      else if n > 1 \<and> bytes ! 0 = 0xff \<and> bytes ! 1 AND 0x80 \<noteq> 0 then (None, c)
      else
        let is_negative = bytes ! 0 AND 0x80 \<noteq> 0;
            u = replicate 8 (if is_negative then 0xff else 0);
            u = fold (\<lambda>i u. u[i := bytes ! (n - i - 1)]) [0..<n] u in
        (Some (of_nat (of_le u)), c))"

definition CBS_get_asn1_bool :: "cbs \<Rightarrow> bool cbs_res" where
  "CBS_get_asn1_bool cbs =
    cbs_then (CBS_get_asn1 cbs CBS_ASN1_BOOLEAN) (\<lambda>bytes c.
      if CBS_len bytes \<noteq> 1 then (None, c)
      else if bytes ! 0 \<noteq> 0 \<and> bytes ! 0 \<noteq> 0xff then (None, c)
      else (Some (bytes ! 0 \<noteq> 0), c))"

text \<open>Some None: the element is absent, and nothing was consumed.\<close>

definition CBS_get_optional_asn1 :: "cbs \<Rightarrow> u32 \<Rightarrow> cbs option cbs_res" where
  "CBS_get_optional_asn1 cbs tag =
    (if CBS_peek_asn1_tag cbs tag
     then cbs_then (CBS_get_asn1 cbs tag) (\<lambda>out c. (Some (Some out), c))
     else (Some None, cbs))"

text \<open>The string, empty when absent, and whether it was present.\<close>

definition CBS_get_optional_asn1_octet_string :: "cbs \<Rightarrow> u32 \<Rightarrow> (cbs \<times> bool) cbs_res" where
  "CBS_get_optional_asn1_octet_string cbs tag =
    cbs_then (CBS_get_optional_asn1 cbs tag) (\<lambda>ch c. case ch of
      None \<Rightarrow> (Some (CBS_init [], False), c)
    | Some child \<Rightarrow>
        (case CBS_get_asn1 child CBS_ASN1_OCTETSTRING of
          (None, _) \<Rightarrow> (None, c)
        | (Some out, child) \<Rightarrow>
            if CBS_len child \<noteq> 0 then (None, c) else (Some (out, True), c)))"

definition CBS_get_optional_asn1_uint64 :: "cbs \<Rightarrow> u32 \<Rightarrow> u64 \<Rightarrow> u64 cbs_res" where
  "CBS_get_optional_asn1_uint64 cbs tag default_value =
    cbs_then (CBS_get_optional_asn1 cbs tag) (\<lambda>ch c. case ch of
      None \<Rightarrow> (Some default_value, c)
    | Some child \<Rightarrow>
        (case CBS_get_asn1_uint64 child of
          (None, _) \<Rightarrow> (None, c)
        | (Some out, child) \<Rightarrow> if CBS_len child \<noteq> 0 then (None, c) else (Some out, c)))"

definition CBS_get_optional_asn1_bool :: "cbs \<Rightarrow> u32 \<Rightarrow> int \<Rightarrow> int cbs_res" where
  "CBS_get_optional_asn1_bool cbs tag default_value =
    cbs_then (CBS_get_optional_asn1 cbs tag) (\<lambda>ch c. case ch of
      None \<Rightarrow> (Some default_value, c)
    | Some child \<Rightarrow>
        (case CBS_get_asn1 child CBS_ASN1_BOOLEAN of
          (None, _) \<Rightarrow> (None, c)
        | (Some child2, child) \<Rightarrow>
            if CBS_len child2 \<noteq> 1 \<or> CBS_len child \<noteq> 0 then (None, c)
            else let boolean = CBS_data child2 ! 0 in
              if boolean = 0 then (Some 0, c)
              else if boolean = 0xff then (Some 1, c)
              else (None, c)))"

definition CBS_is_valid_asn1_bitstring :: "cbs \<Rightarrow> bool" where
  "CBS_is_valid_asn1_bitstring cbs =
    (case CBS_get_u8 cbs of
      (None, _) \<Rightarrow> False
    | (Some num_unused_bits, c) \<Rightarrow>
        if num_unused_bits > 7 then False
        else if num_unused_bits = 0 then True
        else (case CBS_get_last_u8 c of
            (None, _) \<Rightarrow> False
          | (Some last_byte, _) \<Rightarrow>
              unat last_byte AND (2 ^ unat num_unused_bits - 1) = 0))"

definition CBS_asn1_bitstring_has_bit :: "cbs \<Rightarrow> u32 \<Rightarrow> bool" where
  "CBS_asn1_bitstring_has_bit cbs bit_pos =
    (if \<not> CBS_is_valid_asn1_bitstring cbs then False
     else
       let byte_num = unat (drop_bit 3 bit_pos + 1);
           bit_num = 7 - unat (bit_pos AND 7) in
       byte_num < CBS_len cbs \<and> unat (CBS_data cbs ! byte_num) AND 2 ^ bit_num \<noteq> 0)"

end
