(* ===== verification/Bssl_Der.thy ===== *)
theory Bssl_Der
  imports Bssl_Cbs
begin

text \<open>
  What the ASN.1 reader of \<open>cbs.c\<close> accepts. The reference is the encoding of X.690 written
  forwards: the identifier octets of a tag, the minimal length octets, the contents. The parser
  accepts exactly the elements of that encoding, so DER has one form for each element.
\<close>

section \<open>Big-endian values\<close>

definition of_be :: "u8 list \<Rightarrow> nat" where "of_be bs = of_le (rev bs)"

definition be_bytes :: "nat \<Rightarrow> nat \<Rightarrow> u8 list" where "be_bytes n w = rev (le_bytes n w)"

lemma of_le_snoc: "of_le (bs @ [b]) = of_le bs + 256 ^ length bs * unat b"
  by (induction bs) (simp_all add: algebra_simps)

lemma of_be_simps [simp]: "of_be [] = 0" "of_be (bs @ [b]) = of_be bs * 256 + unat b"
  by (simp_all add: of_be_def)

lemma of_be_Cons: "of_be (b # bs) = unat b * 256 ^ length bs + of_be bs"
  by (simp add: of_be_def of_le_snoc)

lemma of_be_bound: "of_be bs < 256 ^ length bs"
  using of_le_bound [of "rev bs"] by (simp add: of_be_def)

lemma length_be_bytes [simp]: "length (be_bytes n w) = n"
  by (simp add: be_bytes_def)

lemma of_be_be_bytes: "of_be (be_bytes n w) = w mod 256 ^ n"
  by (simp add: of_be_def be_bytes_def of_le_le_bytes)

lemma be_bytes_of_be: "be_bytes (length bs) (of_be bs) = bs"
  using le_bytes_of_le [of "rev bs"] by (simp add: of_be_def be_bytes_def)

lemma be_bytes_Suc: "be_bytes (Suc n) w = be_bytes n (w div 256) @ [of_nat (w mod 256)]"
  by (simp add: be_bytes_def)

lemma shift_or_byte:
  assumes "unat (r :: u64) < 2 ^ 56"
  shows "unat (push_bit 8 r OR ucast (b :: u8)) = unat r * 256 + unat b"
proof -
  have "unat (ucast b OR push_bit 8 r) = unat (ucast b :: u64) + unat r * 2 ^ 8"
    by (rule unat_or_shift) (use assms in \<open>simp_all add: unat_ucast_8_64\<close>)
  then show ?thesis by (simp add: unat_ucast_8_64 or.commute)
qed

lemma foldl_be:
  "length bs \<le> 8 \<Longrightarrow> unat (foldl (\<lambda>r b. push_bit 8 r OR ucast b) (0 :: u64) bs) = of_be bs"
proof (induction bs rule: rev_induct)
  case Nil
  then show ?case by simp
next
  case (snoc b bs)
  have "of_be bs < 256 ^ length bs" by (rule of_be_bound)
  also have "\<dots> \<le> 256 ^ 7" using snoc.prems by (intro power_increasing) simp_all
  finally have "of_be bs < 2 ^ 56" by simp
  with snoc show ?case by (simp add: shift_or_byte)
qed

lemma cbs_get_split:
  "cbs_get cbs n = (if length cbs < n then (None, cbs) else (Some (take n cbs), drop n cbs))"
  by (simp add: cbs_get_def)

lemma cbs_get_append [simp]: "length bs = n \<Longrightarrow> cbs_get (bs @ rest) n = (Some bs, rest)"
  by (simp add: cbs_get_def)

lemma cbs_get_u_short: "length cbs < n \<Longrightarrow> cbs_get_u cbs n = (None, cbs)"
  by (simp add: cbs_get_u_def cbs_get_def cbs_then_def)

lemma cbs_get_u_append:
  assumes "length bs = n" "n \<le> 8"
  shows "cbs_get_u (bs @ rest) n = (Some (of_nat (of_be bs)), rest)"
proof -
  let ?v = "foldl (\<lambda>r b. push_bit 8 r OR ucast b) (0 :: u64) bs"
  have "of_nat (unat ?v) = ?v" by simp
  then show ?thesis using foldl_be [of bs] assms by (simp add: cbs_get_u_def cbs_then_def)
qed

lemma cbs_get_u_cases:
  assumes "n \<le> 8"
  obtains (short) "length cbs < n" "cbs_get_u cbs n = (None, cbs)"
    | (got) bs rest where "cbs = bs @ rest" "length bs = n"
        "cbs_get_u cbs n = (Some (of_nat (of_be bs)), rest)"
proof (cases "length cbs < n")
  case True
  then show thesis using short cbs_get_u_short by blast
next
  case False
  then have "cbs = take n cbs @ drop n cbs" "length (take n cbs) = n" by simp_all
  then show thesis using got cbs_get_u_append [OF _ assms] by metis
qed

lemma CBS_get_u8_Cons [simp]: "CBS_get_u8 (b # bs) = (Some b, bs)"
  by (simp add: CBS_get_u8_def cbs_get_def cbs_then_def)

lemma CBS_get_u8_Nil [simp]: "CBS_get_u8 [] = (None, [])"
  by (simp add: CBS_get_u8_def cbs_get_def cbs_then_def)

lemma CBS_get_bytes_append [simp]: "length bs = n \<Longrightarrow> CBS_get_bytes (bs @ rest) n = (Some bs, rest)"
  by (simp add: CBS_get_bytes_def cbs_then_def CBS_init_def)

lemma CBS_skip_append [simp]: "length bs = n \<Longrightarrow> CBS_skip (bs @ rest) n = (Some (), rest)"
  by (simp add: CBS_skip_def cbs_then_def)

lemma CBS_get_bytes_cases:
  obtains (short) "length cbs < n" "CBS_get_bytes cbs n = (None, cbs)"
    | (got) bs rest where "cbs = bs @ rest" "length bs = n" "CBS_get_bytes cbs n = (Some bs, rest)"
proof (cases "length cbs < n")
  case True
  then show thesis using short by (simp add: CBS_get_bytes_def cbs_get_def cbs_then_def)
next
  case False
  then have "cbs = take n cbs @ drop n cbs" "length (take n cbs) = n" by simp_all
  then show thesis using got CBS_get_bytes_append by metis
qed

section \<open>Base-128 integers\<close>

text \<open>The digits most significant first; all but the last carry the continuation bit.\<close>

fun base128_high :: "nat \<Rightarrow> u8 list" where
  "base128_high n = (if n = 0 then [] else base128_high (n div 128) @ [of_nat (n mod 128) OR 0x80])"

definition base128 :: "nat \<Rightarrow> u8 list" where
  "base128 n = base128_high (n div 128) @ [of_nat (n mod 128)]"

declare base128_high.simps [simp del]

lemma unat_digit: "unat (of_nat (n mod 128) :: u8) = n mod 128"
proof -
  have "n mod 128 < 128" by simp
  then have "n mod 128 < 256" by linarith
  then show ?thesis by (simp add: unat_of_nat)
qed

lemma unat_high_digit: "unat (of_nat (n mod 128) OR 0x80 :: u8) = n mod 128 + 128"
  using byte_or_80 [of "of_nat (n mod 128)"] unat_digit [of n] by (simp add: word_less_nat_alt)

lemma shift_or_digit:
  assumes "unat (v :: u64) < 2 ^ 57"
  shows "unat (push_bit 7 v OR ucast ((b :: u8) AND 0x7f)) = unat v * 128 + unat b mod 128"
proof -
  have m: "unat (ucast (b AND 0x7f) :: u64) = unat b mod 128"
    by (simp only: unat_ucast_8_64 unat_and_7F)
  have "unat (ucast (b AND 0x7f) OR push_bit 7 v) = unat (ucast (b AND 0x7f) :: u64) + unat v * 2 ^ 7"
    by (rule unat_or_shift) (use assms in \<open>simp_all only: m, simp_all\<close>)
  then show ?thesis by (simp only: m) (simp add: or.commute)
qed

lemma drop_57: "(drop_bit 57 (v :: u64) = 0) = (unat v < 2 ^ 57)"
proof -
  have "(drop_bit 57 v = 0) = (unat (drop_bit 57 v) = 0)" by (simp only: unat_eq_0)
  also have "\<dots> = (unat v < 2 ^ 57)" by (simp add: unat_drop_bit div_eq_0_iff)
  finally show ?thesis .
qed

lemma word_eq_of_unat: "unat (w :: 'a::len word) = n \<Longrightarrow> w = of_nat n"
  by auto

text \<open>The value of a run of digits, read into an accumulator.\<close>

definition digits :: "nat \<Rightarrow> u8 list \<Rightarrow> nat" where
  "digits v bs = foldl (\<lambda>a b. a * 128 + unat b mod 128) v bs"

lemma digits_simps [simp]:
  "digits v [] = v"
  "digits v (b # bs) = digits (v * 128 + unat b mod 128) bs"
  "digits v (bs @ [b]) = digits v bs * 128 + unat b mod 128"
  by (simp_all add: digits_def)

lemma digits_ge: "v \<le> digits v bs"
proof (induction bs arbitrary: v)
  case Nil
  then show ?case by simp
next
  case (Cons b bs)
  have "v \<le> v * 128 + unat b mod 128" by simp
  then show ?case using Cons [of "v * 128 + unat b mod 128"] by simp
qed

text \<open>A run of digits: all but the last have the high bit, and the first is no leading zero.\<close>

definition high :: "u8 list \<Rightarrow> bool" where
  "high hs \<longleftrightarrow> (\<forall>b \<in> set hs. 128 \<le> unat b) \<and> (hs \<noteq> [] \<longrightarrow> hd hs \<noteq> 0x80)"

lemma byte_80: "(b :: u8) = 0x80 \<longleftrightarrow> unat b = 128"
  by (auto simp: word_unat_eq_iff)

lemma high_byte_mod: "128 \<le> unat (b :: u8) \<Longrightarrow> unat b mod 128 = unat b - 128"
proof -
  assume "128 \<le> unat b"
  moreover have "unat b - 128 < 128" using unat_lt_u8 [of b] by linarith
  ultimately show ?thesis by (simp add: le_mod_geq)
qed

lemma byte_of_digit: "128 \<le> unat (b :: u8) \<Longrightarrow> of_nat (unat b mod 128) OR 0x80 = b"
proof (rule unsigned_word_eqI [where 'a = nat])
  assume a: "128 \<le> unat b"
  have "unat (of_nat (unat b mod 128) OR 0x80 :: u8) = unat b mod 128 + 128" by (rule unat_high_digit)
  also have "\<dots> = unat b" using a high_byte_mod [OF a] by linarith
  finally show "unat (of_nat (unat b mod 128) OR 0x80 :: u8) = unat b" .
qed

lemma digits_pos: "high hs \<Longrightarrow> hs \<noteq> [] \<Longrightarrow> 0 < digits 0 hs"
proof -
  assume h: "high hs" "hs \<noteq> []"
  then obtain b bs where hs: "hs = b # bs" by (cases hs) auto
  with h have "128 \<le> unat b" "unat b \<noteq> 128" by (auto simp: high_def byte_80)
  then have "0 < unat b mod 128" by (simp add: high_byte_mod)
  also have "unat b mod 128 \<le> digits (unat b mod 128) bs" by (rule digits_ge)
  finally show ?thesis by (simp add: hs)
qed

lemma high_snoc: "high (hs @ [b]) \<longleftrightarrow> high hs \<and> 128 \<le> unat b \<and> (hs = [] \<longrightarrow> b \<noteq> 0x80)"
  by (auto simp: high_def hd_append)

lemma base128_high_digits: "high hs \<Longrightarrow> base128_high (digits 0 hs) = hs"
proof (induction hs rule: rev_induct)
  case Nil
  then show ?case by (simp add: base128_high.simps)
next
  case (snoc b hs)
  then have h: "high hs" "128 \<le> unat b" by (simp_all add: high_snoc)
  have "0 < digits 0 (hs @ [b])" using snoc.prems by (intro digits_pos) simp_all
  with h snoc.IH show ?case
    by (subst base128_high.simps) (simp add: byte_of_digit)
qed

lemma high_base128_high: "high (base128_high n)"
proof (induction n rule: base128_high.induct)
  case (1 n)
  show ?case
  proof (cases "n = 0")
    case True
    then show ?thesis by (simp add: base128_high.simps high_def)
  next
    case False
    have "base128_high (n div 128) = [] \<Longrightarrow> n mod 128 \<noteq> 0"
      using False by (subst (asm) base128_high.simps) (auto split: if_splits)
    with 1 False show ?thesis
      by (subst base128_high.simps) (auto simp: high_snoc unat_high_digit byte_80)
  qed
qed

lemma digits_base128_high: "digits 0 (base128_high n) = n"
proof (induction n rule: base128_high.induct)
  case (1 n)
  then show ?case
    by (cases "n = 0") (simp add: base128_high.simps, simp add: base128_high.simps [of n] unat_high_digit)
qed

text \<open>Forwards: a run of digits is read as its value.\<close>

lemma parse_digits:
  assumes "\<forall>b \<in> set hs. 128 \<le> unat b" "unat l < 128" "digits (unat v) (hs @ [l]) < 2 ^ 64"
    "v = 0 \<longrightarrow> hd (hs @ [l]) \<noteq> 0x80"
  shows "parse_base128_loop (hs @ l # rest) v = (Some (of_nat (digits (unat v) (hs @ [l]))), rest)"
  using assms
proof (induction hs arbitrary: v)
  case Nil
  then have v: "unat v < 2 ^ 57" by simp
  have "unat (push_bit 7 v OR ucast (l AND 0x7f)) = unat v * 128 + unat l mod 128"
    by (rule shift_or_digit [OF v])
  then have "push_bit 7 v OR ucast (l AND 0x7f) = (of_nat (unat v * 128 + unat l mod 128) :: u64)"
    by (rule word_eq_of_unat)
  with Nil v show ?case by (auto simp: Let_def drop_57 byte_and_80)
next
  case (Cons b hs)
  let ?v = "push_bit 7 v OR ucast (b AND 0x7f) :: u64"
  have "digits (unat v * 128 + unat b mod 128) (hs @ [l]) < 2 ^ 64" using Cons.prems by simp
  then have "unat v * 128 + unat b mod 128 < 2 ^ 64" using digits_ge le_less_trans by blast
  then have v: "unat v < 2 ^ 57" by simp
  have v': "unat ?v = unat v * 128 + unat b mod 128" by (rule shift_or_digit [OF v])
  have "?v \<noteq> 0"
  proof
    assume "?v = 0"
    then have "unat v * 128 + unat b mod 128 = 0" using v' by simp
    then have "unat v = 0" "unat b mod 128 = 0" by simp_all
    moreover have "128 \<le> unat b" using Cons.prems by simp
    ultimately have "v = 0" "unat b = 128" by (simp_all add: unat_eq_0 high_byte_mod)
    with Cons.prems show False by (simp add: byte_80)
  qed
  then have "parse_base128_loop (hs @ l # rest) ?v = (Some (of_nat (digits (unat ?v) (hs @ [l]))), rest)"
    using Cons.prems v' by (intro Cons.IH) simp_all
  moreover have "\<not> (v = 0 \<and> b = 0x80)" using Cons.prems by auto
  ultimately show ?case using v Cons.prems v' by (simp add: Let_def drop_57 byte_and_80 not_less)
qed

text \<open>Backwards: whatever is accepted is a run of digits.\<close>

lemma parse_digits_only:
  assumes "parse_base128_loop cbs v = (Some w, rest)"
  shows "\<exists>hs l. cbs = hs @ l # rest \<and> (\<forall>b \<in> set hs. 128 \<le> unat b) \<and> unat l < 128 \<and>
    unat w = digits (unat v) (hs @ [l]) \<and> (v = 0 \<longrightarrow> hd (hs @ [l]) \<noteq> 0x80)"
  using assms
proof (induction cbs v rule: parse_base128_loop.induct)
  case (1 v)
  then show ?case by simp
next
  case (2 b cbs v)
  let ?v = "push_bit 7 v OR ucast (b AND 0x7f) :: u64"
  have v: "unat v < 2 ^ 57" and nz: "\<not> (v = 0 \<and> b = 0x80)"
    using "2.prems" by (auto simp: drop_57 split: if_splits)
  have v': "unat ?v = unat v * 128 + unat b mod 128" by (rule shift_or_digit [OF v])
  show ?case
  proof (cases "unat b < 128")
    case True
    then have "?v = w" "cbs = rest" using "2.prems" v nz by (simp_all add: Let_def drop_57 byte_and_80 split: if_splits)
    with v' True nz show ?thesis by (intro exI [of _ "[]"] exI [of _ b]) auto
  next
    case False
    then have "parse_base128_loop cbs ?v = (Some w, rest)"
      using "2.prems" v nz by (simp add: Let_def drop_57 byte_and_80 split: if_splits)
    then obtain hs l where "cbs = hs @ l # rest" "\<forall>b \<in> set hs. 128 \<le> unat b" "unat l < 128"
        "unat w = digits (unat ?v) (hs @ [l])"
      using "2.IH" [OF _ nz refl] v False by (auto simp: drop_57 byte_and_80)
    with False nz v' show ?thesis by (intro exI [of _ "b # hs"] exI [of _ l]) auto
  qed
qed

lemma base128_eq_digits: "base128 n = base128_high (n div 128) @ [of_nat (n mod 128)]"
  by (rule base128_def)

lemma parse_base128_encoded:
  assumes "n < 2 ^ 64"
  shows "parse_base128_integer (base128 n @ rest) = (Some (of_nat n), rest)"
proof -
  let ?hs = "base128_high (n div 128)" and ?l = "of_nat (n mod 128) :: u8"
  have d: "digits 0 (?hs @ [?l]) = n" by (simp add: digits_base128_high unat_digit)
  have h: "high ?hs" by (rule high_base128_high)
  then have "hd (?hs @ [?l]) \<noteq> 0x80"
    using unat_digit [of n] by (cases "?hs") (auto simp: high_def byte_80)
  then have "parse_base128_loop (?hs @ ?l # rest) 0 = (Some (of_nat (digits (unat (0 :: u64)) (?hs @ [?l]))), rest)"
    using h d assms by (intro parse_digits) (simp_all add: high_def unat_digit)
  then show ?thesis
    by (simp only: parse_base128_integer_def base128_def append_assoc append_Cons append_Nil unsigned_0 d)
qed

lemma parse_base128_only:
  assumes "parse_base128_integer cbs = (Some w, rest)"
  shows "cbs = base128 (unat w) @ rest"
proof -
  obtain hs l where c: "cbs = hs @ l # rest" "\<forall>b \<in> set hs. 128 \<le> unat b" "unat l < 128"
      "unat w = digits 0 (hs @ [l])" "hd (hs @ [l]) \<noteq> 0x80"
    using parse_digits_only [OF assms [unfolded parse_base128_integer_def]] by auto
  then have h: "high hs" by (cases hs) (auto simp: high_def)
  have "unat w div 128 = digits 0 hs" "unat w mod 128 = unat l"
    using c(3,4) by simp_all
  then show ?thesis using c(1) base128_high_digits [OF h] by (simp add: base128_def)
qed

section \<open>Identifier octets\<close>

text \<open>
  A tag holds the class and constructed bits in its upper three bits and the number in the lower
  29. Numbers from 31 on take the high-tag-number form.
\<close>

definition tag_class :: "u32 \<Rightarrow> nat" where "tag_class t = unat t div 2 ^ 29"
definition tag_number :: "u32 \<Rightarrow> nat" where "tag_number t = unat t mod 2 ^ 29"

definition tag_octets :: "u32 \<Rightarrow> u8 list" where
  "tag_octets t =
    (if tag_number t < 31 then [of_nat (tag_class t * 32 + tag_number t)]
     else of_nat (tag_class t * 32 + 31) # base128 (tag_number t))"

lemma tag_split: "unat t = tag_class t * 2 ^ 29 + tag_number t"
  by (simp add: tag_class_def tag_number_def div_mult_mod_eq)

lemma tag_class_lt: "tag_class t < 8"
  using unat_lt_u32 [of t] by (simp only: tag_class_def) (simp add: less_mult_imp_div_less)

lemma tag_number_lt: "tag_number t < 2 ^ 29"
  by (simp add: tag_number_def)

lemma tag_of_parts:
  "c < 8 \<Longrightarrow> n < 2 ^ 29 \<Longrightarrow> tag_class (of_nat (c * 2 ^ 29 + n)) = c \<and> tag_number (of_nat (c * 2 ^ 29 + n)) = n"
proof -
  assume c: "c < 8" and n: "n < 2 ^ 29"
  then have "c * 2 ^ 29 + n < 2 ^ 32" by simp
  then have "unat (of_nat (c * 2 ^ 29 + n) :: u32) = c * 2 ^ 29 + n"
    by (intro unat_of_nat_eq) simp
  then show ?thesis using n by (simp add: tag_class_def tag_number_def)
qed

lemma nat_and_high:
  assumes "(n :: nat) < 2 ^ (k + m)"
  shows "n AND push_bit k (mask m) = n div 2 ^ k * 2 ^ k"
proof -
  have "n AND push_bit k (mask m) = push_bit k (drop_bit k n AND mask m)"
    by (rule bit_eqI) (auto simp: bit_and_iff bit_push_bit_iff bit_drop_bit_eq)
  also have "drop_bit k n AND mask m = take_bit m (drop_bit k n)"
    by (simp add: take_bit_eq_mask)
  also have "\<dots> = drop_bit k n" using assms
    by (intro take_bit_nat_eq_self) (simp add: drop_bit_eq_div power_add less_mult_imp_div_less mult.commute)
  finally show ?thesis by (simp add: push_bit_eq_mult drop_bit_eq_div)
qed

lemma nat_and_e0: "(n :: nat) < 256 \<Longrightarrow> n AND 0xe0 = n div 32 * 32"
  using nat_and_high [of n 5 3] by (simp add: push_bit_eq_mult mask_eq_exp_minus_1)

lemma and_1f: "(b :: 'a::len word) AND 0x1f = take_bit 5 b"
  by (simp add: take_bit_eq_mask mask_eq_exp_minus_1)

lemma unat_and_1f: "unat ((b :: 'a::len word) AND 0x1f) = unat b mod 32"
  by (simp only: and_1f unat_take_bit) simp

lemma unat_tag_bits:
  "unat (push_bit 24 (ucast (b :: u8) AND 0xe0) :: u32) = unat b div 32 * 2 ^ 29"
proof -
  have e: "unat (ucast b AND 0xe0 :: u32) = unat b div 32 * 32"
    using nat_and_e0 [OF unat_lt_u8 [of b]] by (simp add: unsigned_and_eq unat_ucast_8_32)
  have "unat b div 32 < 8" using unat_lt_u8 [of b] by linarith
  then show ?thesis using unat_push_bit [of "ucast b AND 0xe0 :: u32" 24] by (simp add: e)
qed

lemma tag_or:
  assumes "n < 2 ^ 29"
  shows "push_bit 24 (ucast (b :: u8) AND 0xe0) OR (of_nat n :: u32) = of_nat (unat b div 32 * 2 ^ 29 + n)"
proof -
  have n: "unat (of_nat n :: u32) = n" using assms by (intro unat_of_nat_eq) simp
  have "unat (push_bit 24 (ucast b AND 0xe0) OR (of_nat n :: u32)) = n OR push_bit 29 (unat b div 32)"
    by (simp only: unsigned_or_eq unat_tag_bits n) (simp add: push_bit_eq_mult or.commute)
  also have "\<dots> = unat b div 32 * 2 ^ 29 + n" using nat_or_shift [OF assms] by simp
  finally show ?thesis by (rule word_eq_of_unat)
qed

lemma identifier_octet:
  assumes "c < 8" and "n < 32"
  shows "unat (of_nat (c * 32 + n) :: u8) = c * 32 + n"
proof -
  have "c * 32 + n < 256" using assms by linarith
  then show ?thesis by (intro unat_of_nat_eq) simp
qed

lemma word_lt_unat: "(a :: 'a::len word) < b \<longleftrightarrow> unat a < unat b"
  by (rule word_less_nat_alt)

lemma parse_tag_low:
  assumes "unat b mod 32 \<noteq> 31"
  shows "parse_asn1_tag (b # rest) = (Some (of_nat (unat b div 32 * 2 ^ 29 + unat b mod 32)), rest)"
proof -
  have u: "unat (ucast (b AND 0x1f) :: u32) = unat b mod 32"
    by (simp only: unat_ucast_8_32 unat_and_1f)
  then have e: "(ucast (b AND 0x1f) :: u32) = of_nat (unat b mod 32)" by (rule word_eq_of_unat)
  have "(ucast (b AND 0x1f) :: u32) \<noteq> 0x1f"
  proof
    assume "(ucast (b AND 0x1f) :: u32) = 0x1f"
    then have "unat (ucast (b AND 0x1f) :: u32) = unat (0x1f :: u32)" by (rule arg_cong)
    with u assms show False by simp
  qed
  moreover have "push_bit 24 (ucast b AND 0xe0) OR (of_nat (unat b mod 32) :: u32) =
      of_nat (unat b div 32 * 2 ^ 29 + unat b mod 32)"
    by (rule tag_or) (rule less_trans [of _ 32], simp_all)
  ultimately show ?thesis
    unfolding parse_asn1_tag_def cbs_then_def CBS_get_u8_Cons Let_def prod.case option.case CBS_ASN1_TAG_SHIFT_def
    by (simp only: if_False e)
qed

lemma tag_number_mask: "unat (ucast CBS_ASN1_TAG_NUMBER_MASK :: u64) = 2 ^ 29 - 1"
  by (simp add: CBS_ASN1_TAG_NUMBER_MASK_def CBS_ASN1_TAG_SHIFT_def)

lemma parse_tag_high:
  assumes "unat b mod 32 = 31"
  shows "parse_asn1_tag (b # rest) =
    (case parse_base128_integer rest of
      (None, c) \<Rightarrow> (None, c)
    | (Some v, c) \<Rightarrow> if unat v \<ge> 2 ^ 29 \<or> unat v < 31 then (None, c)
        else (Some (of_nat (unat b div 32 * 2 ^ 29 + unat v)), c))"
proof -
  have "unat (ucast (b AND 0x1f) :: u32) = unat b mod 32"
    by (simp only: unat_ucast_8_32 unat_and_1f)
  then have "unat (ucast (b AND 0x1f) :: u32) = unat (0x1f :: u32)" using assms by simp
  then have e: "(ucast (b AND 0x1f) :: u32) = 0x1f" by (simp only: word_unat_eq_iff)
  have g: "v > ucast CBS_ASN1_TAG_NUMBER_MASK \<longleftrightarrow> unat v \<ge> 2 ^ 29" for v :: u64
    by (simp only: word_lt_unat tag_number_mask) auto
  have l: "v < 0x1f \<longleftrightarrow> unat v < 31" for v :: u64 by (simp add: word_lt_unat)
  have o: "unat v < 2 ^ 29 \<Longrightarrow> push_bit 24 (ucast b AND 0xe0) OR (ucast v :: u32) =
      of_nat (unat b div 32 * 2 ^ 29 + unat v)" for v :: u64
    using tag_or [of "unat v" b] by simp
  obtain r c where p: "parse_base128_integer rest = (r, c)" by fastforce
  show ?thesis
  proof (cases r)
    case None
    then show ?thesis using p
      unfolding parse_asn1_tag_def cbs_then_def CBS_get_u8_Cons Let_def prod.case option.case CBS_ASN1_TAG_SHIFT_def
      by (simp add: e)
  next
    case (Some v)
    then have "parse_asn1_tag (b # rest) = (if unat v \<ge> 2 ^ 29 \<or> unat v < 31 then (None, c)
        else (Some (push_bit 24 (ucast b AND 0xe0) OR (ucast v :: u32)), c))"
      using p unfolding parse_asn1_tag_def cbs_then_def CBS_get_u8_Cons Let_def prod.case option.case CBS_ASN1_TAG_SHIFT_def
      by (simp only: e g l if_True refl prod.case option.case)
    then show ?thesis using p Some o [of v] by (cases "unat v < 2 ^ 29") (simp_all only: prod.case option.case, simp_all)
  qed
qed

lemma length_base128: "base128 n \<noteq> []" by (simp add: base128_def)

text \<open>The parser of tags reads exactly the identifier octets.\<close>

lemma parse_tag_octets: "parse_asn1_tag (tag_octets t @ rest) = (Some t, rest)"
proof -
  have c: "tag_class t < 8" and n: "tag_number t < 2 ^ 29" by (rule tag_class_lt, rule tag_number_lt)
  have t: "of_nat (tag_class t * 2 ^ 29 + tag_number t) = t" by (simp only: tag_split [symmetric] of_nat_unat ucast_id)
  show ?thesis
  proof (cases "tag_number t < 31")
    case True
    let ?b = "of_nat (tag_class t * 32 + tag_number t) :: u8"
    have "unat ?b = tag_class t * 32 + tag_number t" using c True by (intro identifier_octet) simp_all
    then have "unat ?b div 32 = tag_class t" "unat ?b mod 32 = tag_number t" using True by simp_all
    then show ?thesis using True parse_tag_low [of ?b rest] t by (simp add: tag_octets_def del: of_nat_add of_nat_mult)
  next
    case False
    let ?b = "of_nat (tag_class t * 32 + 31) :: u8"
    have "unat ?b = tag_class t * 32 + 31" using c by (intro identifier_octet) simp_all
    then have b: "unat ?b div 32 = tag_class t" "unat ?b mod 32 = 31" by simp_all
    have p: "parse_base128_integer (base128 (tag_number t) @ rest) = (Some (of_nat (tag_number t)), rest)"
      using n by (intro parse_base128_encoded) simp
    have "unat (of_nat (tag_number t) :: u64) = tag_number t" using n by (intro unat_of_nat_eq) simp
    then show ?thesis using False parse_tag_high [OF b(2), of "base128 (tag_number t) @ rest"] t p b(1) n
      by (simp add: tag_octets_def del: of_nat_add of_nat_mult)
  qed
qed

lemma parse_tag_only:
  assumes "parse_asn1_tag cbs = (Some t, rest)"
  shows "cbs = tag_octets t @ rest"
proof (cases cbs)
  case Nil
  with assms show ?thesis by (simp add: parse_asn1_tag_def cbs_then_def)
next
  case (Cons b bs)
  have c: "unat b div 32 < 8" using unat_lt_u8 [of b] by linarith
  have d: "unat b div 32 * 32 + unat b mod 32 = unat b" by (rule div_mult_mod_eq)
  show ?thesis
  proof (cases "unat b mod 32 = 31")
    case False
    have m: "unat b mod 32 < 31" using False mod_less_divisor [of 32 "unat b"] by linarith
    then have p: "tag_class t = unat b div 32" "tag_number t = unat b mod 32" and r: "bs = rest"
      using assms Cons parse_tag_low [OF False, of bs] tag_of_parts [OF c, of "unat b mod 32"]
      by (simp_all del: of_nat_add of_nat_mult)
    then show ?thesis using m Cons d by (simp add: tag_octets_def del: of_nat_add of_nat_mult)
  next
    case True
    then obtain v where v: "parse_base128_integer bs = (Some v, rest)" "unat v < 2 ^ 29" "31 \<le> unat v"
        "t = of_nat (unat b div 32 * 2 ^ 29 + unat v)"
      using assms Cons parse_tag_high [OF True, of bs] by (auto split: prod.splits option.splits if_splits)
    then have p: "tag_class t = unat b div 32" "tag_number t = unat v"
      using tag_of_parts [OF c v(2)] by simp_all
    then show ?thesis using Cons d True v parse_base128_only [OF v(1)]
      by (simp add: tag_octets_def del: of_nat_add of_nat_mult)
  qed
qed

section \<open>Length octets\<close>

fun be_len :: "nat \<Rightarrow> nat" where
  "be_len n = (if n = 0 then 0 else Suc (be_len (n div 256)))"

declare be_len.simps [simp del]

definition length_octets :: "nat \<Rightarrow> u8 list" where
  "length_octets n =
    (if n < 128 then [of_nat n] else of_nat (128 + be_len n) # be_bytes (be_len n) n)"

lemma be_len_eq: "256 ^ k \<le> n \<Longrightarrow> n < 256 ^ Suc k \<Longrightarrow> be_len n = Suc k"
proof (induction k arbitrary: n)
  case 0
  then show ?case by (simp add: be_len.simps)
next
  case (Suc k)
  have "256 ^ k \<le> n div 256" using Suc.prems(1) by (simp add: less_eq_div_iff_mult_less_eq mult.commute)
  moreover have "n div 256 < 256 ^ Suc k" using Suc.prems(2) by (simp add: less_mult_imp_div_less mult.commute)
  ultimately have "be_len (n div 256) = Suc k" by (rule Suc.IH)
  moreover have "n \<noteq> 0" using Suc.prems(1) by (metis not_le zero_less_numeral zero_less_power)
  ultimately show ?case by (subst be_len.simps) simp
qed

lemma be_len_bounds: "n \<noteq> 0 \<Longrightarrow> 256 ^ (be_len n - 1) \<le> n \<and> n < 256 ^ be_len n"
proof (induction n rule: be_len.induct)
  case (1 n)
  show ?case
  proof (cases "n div 256 = 0")
    case True
    then have "n < 256" by (simp add: div_eq_0_iff)
    then show ?thesis using 1 True by (simp add: be_len.simps [of n] be_len.simps [of 0])
  next
    case False
    then have ih: "256 ^ (be_len (n div 256) - 1) \<le> n div 256" "n div 256 < 256 ^ be_len (n div 256)"
      using 1 by auto
    then have "256 ^ (be_len (n div 256) - 1) * 256 \<le> n div 256 * 256" by simp
    also have "\<dots> \<le> n" by simp
    finally have l: "256 ^ (be_len (n div 256) - 1) * 256 \<le> n" .
    have "be_len (n div 256) \<noteq> 0" using False by (simp add: be_len.simps [of "n div 256"])
    then have "256 ^ be_len (n div 256) = 256 ^ (be_len (n div 256) - 1) * (256 :: nat)"
      by (metis power_minus_mult neq0_conv)
    with l have "256 ^ be_len (n div 256) \<le> n" by simp
    moreover have "n < 256 ^ be_len (n div 256) * 256" using ih(2) by (simp add: div_less_iff_less_mult)
    ultimately show ?thesis using "1.prems" by (simp add: be_len.simps [of n] mult.commute)
  qed
qed

lemma be_len_le: "n < 256 ^ k \<Longrightarrow> be_len n \<le> k"
proof (cases "n = 0")
  case False
  assume "n < 256 ^ k"
  then have "256 ^ (be_len n - 1) < (256 :: nat) ^ k" using be_len_bounds [OF False] by linarith
  then have "be_len n - 1 < k" by simp
  then show ?thesis by simp
qed (simp add: be_len.simps)

section \<open>Elements\<close>

definition der_element :: "u32 \<Rightarrow> u8 list \<Rightarrow> u8 list" where
  "der_element t body = tag_octets t @ length_octets (length body) @ body"

lemma length_base128_high: "n < 128 ^ k \<Longrightarrow> length (base128_high n) \<le> k"
proof (induction k arbitrary: n)
  case 0
  then show ?case by (simp add: base128_high.simps)
next
  case (Suc k)
  then have "length (base128_high (n div 128)) \<le> k" by (intro Suc.IH) (simp add: div_less_iff_less_mult mult.commute)
  then show ?case by (subst base128_high.simps) simp
qed

lemma length_tag_octets: "1 \<le> length (tag_octets t)" "length (tag_octets t) \<le> 6"
proof -
  have "tag_number t < 2 ^ 29" by (rule tag_number_lt)
  then have "tag_number t div 128 < 128 ^ 4" by (simp add: div_less_iff_less_mult)
  from length_base128_high [OF this] show "1 \<le> length (tag_octets t)" "length (tag_octets t) \<le> 6"
    by (simp_all add: tag_octets_def base128_def)
qed

lemma be_len_ge_128:
  assumes "128 \<le> n" "n < 2 ^ 32"
  shows "be_len n \<noteq> 0" "be_len n \<le> 4" "256 ^ (be_len n - 1) \<le> n" "n < 256 ^ be_len n"
proof -
  have n: "n \<noteq> 0" using assms by simp
  show "be_len n \<noteq> 0" using n by (simp add: be_len.simps [of n])
  show "be_len n \<le> 4" by (rule be_len_le) (use assms in simp)
  show "256 ^ (be_len n - 1) \<le> n" "n < 256 ^ be_len n" by (simp_all only: be_len_bounds [OF n])
qed

lemma drop_bytes: "(drop_bit (8 * k) (v :: u64) = 0) \<longleftrightarrow> unat v < 256 ^ k"
proof -
  have "(drop_bit (8 * k) v = 0) = (unat (drop_bit (8 * k) v) = 0)" by (simp only: unat_eq_0)
  also have "\<dots> = (unat v < 2 ^ (8 * k))" by (simp add: unat_drop_bit div_eq_0_iff)
  also have "(2 :: nat) ^ (8 * k) = 256 ^ k" by (simp add: power_mult)
  finally show ?thesis .
qed

lemma long_form_byte:
  assumes "k \<le> 127"
  shows "unat (of_nat (128 + k) :: u8) = 128 + k" "(of_nat (128 + k) :: u8) AND 0x80 \<noteq> 0"
    "unat ((of_nat (128 + k) :: u8) AND 0x7f) = k"
proof -
  show u: "unat (of_nat (128 + k) :: u8) = 128 + k" using assms by (intro unat_of_nat_eq) simp
  show "(of_nat (128 + k) :: u8) AND 0x80 \<noteq> 0" by (simp only: byte_and_80 u)
  show "unat ((of_nat (128 + k) :: u8) AND 0x7f) = k" using assms by (simp only: unat_and_7F u) simp
qed

text \<open>The element parser after the tag and the first length octet.\<close>

lemma element_step:
  assumes "parse_asn1_tag cbs = (Some t, lb # h)"
  shows "cbs_get_any_asn1_element cbs ber_ok =
    (let hl = length cbs - length h; k = unat lb mod 128 in
     if unat lb < 128 then
       cbs_then (CBS_get_bytes cbs (unat lb + hl)) (\<lambda>out c. (Some (out, t, hl), c))
     else if ber_ok \<and> t AND CBS_ASN1_CONSTRUCTED \<noteq> 0 \<and> k = 0 then
       cbs_then (CBS_get_bytes cbs hl) (\<lambda>out c. (Some (out, t, hl), c))
     else if k = 0 \<or> k > 4 then (None, cbs)
     else case cbs_get_u h k of
         (None, _) \<Rightarrow> (None, cbs)
       | (Some v, _) \<Rightarrow>
          if unat v < 128 \<or> unat v < 256 ^ (k - 1) then (None, cbs)
          else if (unat v + hl + k) mod SIZE_T < unat v then (None, cbs)
          else cbs_then (CBS_get_bytes cbs ((unat v + hl + k) mod SIZE_T))
            (\<lambda>out c. (Some (out, t, hl + k), c)))"
proof -
  have k: "unat (lb AND 0x7f) = unat lb mod 128" by (rule unat_and_7F)
  have l: "v < (128 :: u64) \<longleftrightarrow> unat v < 128" for v by (simp add: word_lt_unat)
  have d: "drop_bit ((j - 1) * 8) (v :: u64) = 0 \<longleftrightarrow> unat v < 256 ^ (j - 1)" for j v
    by (simp only: drop_bytes mult.commute [of "j - 1" 8])
  show ?thesis
    unfolding cbs_get_any_asn1_element_def assms CBS_get_u8_Cons Let_def prod.case option.case CBS_len_def
      byte_and_80 k l d
    by (auto split: prod.splits option.splits)
qed

lemma element_encoded:
  assumes "length body < 2 ^ 32"
  shows "cbs_get_any_asn1_element (der_element t body @ rest) ber_ok =
    (Some (der_element t body, t, length (der_element t body) - length body), rest)"
proof -
  let ?n = "length body" and ?cbs = "der_element t body @ rest"
  have cbs: "?cbs = tag_octets t @ length_octets ?n @ body @ rest" by (simp add: der_element_def)
  show ?thesis
  proof (cases "?n < 128")
    case True
    let ?lb = "of_nat ?n :: u8"
    have u: "unat ?lb = ?n" using True by (intro unat_of_nat_eq) simp
    have p: "parse_asn1_tag ?cbs = (Some t, ?lb # body @ rest)"
      unfolding cbs by (subst parse_tag_octets) (simp add: True length_octets_def)
    have "length ?cbs - length (body @ rest) = length (der_element t body) - ?n"
      using True by (simp add: der_element_def length_octets_def)
    moreover have "?n + (length (der_element t body) - ?n) = length (der_element t body)"
      by (simp add: der_element_def)
    ultimately show ?thesis
      by (simp only: element_step [OF p] Let_def u True if_True)
         (simp add: cbs_then_def)
  next
    case False
    let ?k = "be_len ?n"
    let ?lb = "of_nat (128 + ?k) :: u8"
    have k: "?k \<noteq> 0" "?k \<le> 4" "256 ^ (?k - 1) \<le> ?n" "?n < 256 ^ ?k"
      using be_len_ge_128 [of ?n] False assms by simp_all
    have lb: "unat ?lb = 128 + ?k" by (rule long_form_byte) (use k in simp)
    have m: "(128 + ?k) mod 128 = ?k" using k by simp
    have p: "parse_asn1_tag ?cbs = (Some t, ?lb # be_bytes ?k ?n @ body @ rest)"
      unfolding cbs by (subst parse_tag_octets) (simp add: False length_octets_def del: of_nat_add)
    have v: "cbs_get_u (be_bytes ?k ?n @ body @ rest) ?k = (Some (of_nat ?n), body @ rest)"
      using cbs_get_u_append [of "be_bytes ?k ?n" ?k] k by (simp add: of_be_be_bytes)
    have un: "unat (of_nat ?n :: u64) = ?n" using assms by (intro unat_of_nat_eq) simp
    let ?hl = "length ?cbs - length (be_bytes ?k ?n @ body @ rest)"
    have hl: "?hl + ?k = length (der_element t body) - ?n"
      using False by (simp add: der_element_def length_octets_def)
    have hl6: "?hl \<le> 7" using length_tag_octets [of t] False by (simp add: der_element_def length_octets_def)
    have tot: "?n + ?hl + ?k = length (der_element t body)" using hl by (simp add: der_element_def)
    have "?n + ?hl + ?k < SIZE_T" using assms hl6 k by (simp add: SIZE_T_def)
    then have md: "(?n + ?hl + ?k) mod SIZE_T = length (der_element t body)" using tot by simp
    have g: "\<not> length (der_element t body) < ?n" by (simp add: der_element_def)
    have a: "\<not> 128 + ?k < 128" "\<not> (?k = 0 \<or> 4 < ?k)" "\<not> (?n < 128 \<or> ?n < 256 ^ (?k - 1))" "\<not> (ber_ok \<and> t AND CBS_ASN1_CONSTRUCTED \<noteq> 0 \<and> ?k = 0)"
      using k False by auto
    show ?thesis
      by (simp only: element_step [OF p] Let_def m lb a if_False v un md g hl prod.case option.case)
         (simp add: cbs_then_def)
  qed
qed

lemma get_bytes_then:
  "cbs_then (CBS_get_bytes cbs n) (\<lambda>out c. (Some (g out), c)) = (Some r, rest) \<longleftrightarrow>
   (\<exists>out. cbs = out @ rest \<and> length out = n \<and> r = g out)"
proof (cases rule: CBS_get_bytes_cases [of cbs n])
  case short
  then show ?thesis by (auto simp: cbs_then_def)
next
  case (got bs c)
  then show ?thesis by (auto simp: cbs_then_def)
qed

lemma append_prefix:
  assumes "pre @ h = e @ rest" "length e = length pre + n"
  obtains body where "e = pre @ body" "h = body @ rest" "length body = n"
proof -
  from assms(1) obtain us where "pre = e @ us \<and> us @ h = rest \<or> pre @ us = e \<and> h = us @ rest"
    by (auto simp: append_eq_append_conv2)
  then show thesis using assms(2) that by auto
qed

text \<open>Every element the DER parser returns has the reference form.\<close>

lemma element_tag:
  assumes "cbs_get_any_asn1_element cbs ber_ok = (Some x, rest)"
  obtains t lb h where "parse_asn1_tag cbs = (Some t, lb # h)"
proof -
  obtain r h where p: "parse_asn1_tag cbs = (r, h)" by fastforce
  show thesis
  proof (cases r)
    case None
    with p assms show thesis by (simp add: cbs_get_any_asn1_element_def)
  next
    case (Some t)
    with p assms that show thesis by (cases h) (simp_all add: cbs_get_any_asn1_element_def)
  qed
qed

lemma element_only:
  assumes "cbs_get_any_asn1_element cbs False = (Some (e, t, hl), rest)"
  shows "\<exists>body. length body < 2 ^ 32 \<and> e = der_element t body \<and>
    hl = length e - length body \<and> cbs = e @ rest"
proof -
  obtain t' lb h where p: "parse_asn1_tag cbs = (Some t', lb # h)" using assms by (rule element_tag)
  then have cbs: "cbs = tag_octets t' @ lb # h" by (rule parse_tag_only)
  define k where "k = unat lb mod 128"
  define l where "l = length cbs - length h"
  have l: "l = length (tag_octets t') + 1" by (simp add: l_def cbs)
  note step = element_step [OF p, of False, unfolded Let_def, folded k_def l_def]
  show ?thesis
  proof (cases "unat lb < 128")
    case True
    have "cbs_then (CBS_get_bytes cbs (unat lb + l)) (\<lambda>out c. (Some (out, t', l), c)) = (Some (e, t, hl), rest)"
      using assms True by (simp add: step)
    then have c: "cbs = e @ rest" "length e = unat lb + l" "t = t'" "hl = l" by (auto simp: get_bytes_then)
    have "(tag_octets t' @ [lb]) @ h = e @ rest" using c cbs by simp
    then obtain body where "e = (tag_octets t' @ [lb]) @ body" "length body = unat lb"
      by (rule append_prefix) (use c l in simp_all)
    then show ?thesis using c True l
      by (intro exI [of _ body]) (simp add: der_element_def length_octets_def)
  next
    case False
    have k: "unat lb = 128 + k" using False unat_lt_u8 [of lb] by (simp only: k_def high_byte_mod not_less)
    have nk: "k \<noteq> 0" "k \<le> 4" using assms False by (auto simp: step split: if_splits)
    then have s: "(case cbs_get_u h k of (None, _) \<Rightarrow> (None, cbs)
       | (Some v, _) \<Rightarrow>
          if unat v < 128 \<or> unat v < 256 ^ (k - 1) then (None, cbs)
          else if (unat v + l + k) mod SIZE_T < unat v then (None, cbs)
          else cbs_then (CBS_get_bytes cbs ((unat v + l + k) mod SIZE_T))
            (\<lambda>out c. (Some (out, t', l + k), c))) = (Some (e, t, hl), rest)"
      using assms False by (simp add: step)
    show ?thesis
    proof (rule cbs_get_u_cases [of k h])
      show "k \<le> 8" using nk by simp
    next
      assume "length h < k" and short: "cbs_get_u h k = (None, h)"
      with s show ?thesis by simp
    next
      fix bs h' assume got: "h = bs @ h'" "length bs = k" "cbs_get_u h k = (Some (of_nat (of_be bs)), h')"
      let ?n = "of_be bs"
      have "?n < 256 ^ k" using of_be_bound [of bs] got by simp
      also have "(256 :: nat) ^ k \<le> 256 ^ 4" using nk by (intro power_increasing) simp_all
      finally have n32: "?n < 2 ^ 32" by simp
      then have un: "unat (of_nat ?n :: u64) = ?n" by (intro unat_of_nat_eq) simp
      have "?n + l + k < SIZE_T" using n32 nk l length_tag_octets [of t'] by (simp add: SIZE_T_def)
      then have md: "(?n + l + k) mod SIZE_T = ?n + l + k" by simp
      have big: "128 \<le> ?n" "256 ^ (k - 1) \<le> ?n" using s got(3) by (auto simp: un split: if_splits)
      then have "cbs_then (CBS_get_bytes cbs (?n + l + k)) (\<lambda>out c. (Some (out, t', l + k), c)) = (Some (e, t, hl), rest)"
        using s got(3) by (simp add: un md)
      then have c: "cbs = e @ rest" "length e = ?n + l + k" "t = t'" "hl = l + k" by (auto simp: get_bytes_then)
      have "(tag_octets t' @ lb # bs) @ h' = e @ rest" using c cbs got(1) by simp
      then obtain body where e: "e = (tag_octets t' @ lb # bs) @ body" "length body = ?n"
        by (rule append_prefix) (use c l got(2) in simp_all)
      have "Suc (k - 1) = k" using nk by simp
      then have "be_len ?n = k" using be_len_eq [OF big(2)] of_be_bound [of bs] got(2) by simp
      moreover have "of_nat (128 + k) = lb" using k word_eq_of_unat by metis
      moreover have "be_bytes k ?n = bs" using be_bytes_of_be [of bs] got(2) by simp
      ultimately have "length_octets ?n = lb # bs" using big by (simp add: length_octets_def)
      then have "e = der_element t' body" using e by (simp add: der_element_def)
      then show ?thesis using c e n32 l got(2) by (intro exI [of _ body]) simp
    qed
  qed
qed

lemma element_shrinks:
  assumes "cbs_get_any_asn1_element cbs ber_ok = (Some x, rest)"
  shows "length rest < length cbs"
proof -
  obtain t lb h where p: "parse_asn1_tag cbs = (Some t, lb # h)" using assms by (rule element_tag)
  then have "cbs = tag_octets t @ lb # h" by (rule parse_tag_only)
  then have l: "0 < length cbs - length h" by simp
  have g: "cbs_then (CBS_get_bytes cbs n) (\<lambda>out c. (Some (f out), c)) = (Some x, rest) \<Longrightarrow> 0 < n \<Longrightarrow>
      length rest < length cbs" for n f
    by (auto simp: get_bytes_then)
  show ?thesis using assms l
    by (auto simp: element_step [OF p] Let_def split: if_splits prod.splits option.splits intro!: g)
qed

text \<open>C17: the DER parser accepts exactly the canonical encodings: it succeeds on an input iff the input
  starts with identifier octets, minimal length octets and as many content octets as they say, and
  then it returns that element, its tag and its header length, and leaves the rest.
\<close>

theorem der_parser_accepts_canonical:
  "CBS_get_any_asn1_element cbs = (Some (e, t, hl), rest) \<longleftrightarrow>
   (\<exists>body. length body < 2 ^ 32 \<and> e = der_element t body \<and> hl = length e - length body \<and> cbs = e @ rest)"
  unfolding CBS_get_any_asn1_element_def using element_only element_encoded by metis

end
