(* ===== verification/Bssl_Cbb.thy ===== *)
theory Bssl_Cbb
  imports Bssl_Der
begin

text \<open>
  BoringSSL's byte-string builder, \<open>crypto/bytestring/cbb.c\<close> and \<open>asn1_compat.c\<close>. All the \<open>CBB\<close>s of one
  builder share its buffer, \<open>base\<close>, and form a chain: each has at most one pending child, which
  the model nests in it. A handle is therefore the shared buffer (None for a null \<open>base\<close>) with
  the \<open>CBB\<close> it is for, and \<open>in_child\<close> runs an operation on the pending child. A \<open>CBB\<close> that was
  flushed is in the chain no more, which is what its null \<open>base\<close> says in the source.
\<close>

section \<open>The builder\<close>

record cbb_buffer_st =
  buf :: "mem_block option"
  len :: nat
  cap :: nat
  can_resize :: bool
  error :: bool

datatype cbb_st = CBB (child: "cbb_st option") (offset: nat) (pending_len_len: nat)
  (pending_is_asn1: bool) (is_child: bool)

type_synonym cbb = "cbb_buffer_st option \<times> cbb_st"
type_synonym cbb_res = "bool \<times> cbb"

definition base :: "cbb \<Rightarrow> cbb_buffer_st option" where "base cbb = fst cbb"

text \<open>\<open>a && b\<close> of two operations.\<close>

definition cbb_then :: "cbb_res \<Rightarrow> (cbb \<Rightarrow> cbb_res) \<Rightarrow> cbb_res" where
  "cbb_then r f = (case r of (ok, s) \<Rightarrow> if ok then f s else (False, s))"

definition set_child :: "cbb_st \<Rightarrow> cbb_st option \<Rightarrow> cbb_st" where
  "set_child c ch = CBB ch (offset c) (pending_len_len c) (pending_is_asn1 c) (is_child c)"

definition in_child :: "(cbb \<Rightarrow> cbb_res) \<Rightarrow> cbb \<Rightarrow> cbb_res" where
  "in_child f s = (case child (snd s) of
      None \<Rightarrow> (False, s)
    | Some c \<Rightarrow> (case f (fst s, c) of (ok, (b, c)) \<Rightarrow> (ok, (b, set_child (snd s) (Some c)))))"

definition CBB_zero :: cbb where
  "CBB_zero = (None, CBB None 0 0 False False)"

text \<open>\<open>sizeof(struct cbb_buffer_st)\<close> and \<open>sizeof(CBS)\<close> on the target.\<close>

definition SIZEOF_CBB_BUFFER :: nat where "SIZEOF_CBB_BUFFER = 32"
definition SIZEOF_CBS :: nat where "SIZEOF_CBS = 16"

definition cbb_init :: "heap_env \<Rightarrow> cbb \<Rightarrow> mem_block option \<Rightarrow> nat \<Rightarrow> cbb_res" where
  "cbb_init h cbb b n =
    (case OPENSSL_malloc h SIZEOF_CBB_BUFFER of
      None \<Rightarrow> (False, cbb)
    | Some _ \<Rightarrow> (True, (Some \<lparr>buf = b, len = 0, cap = n, can_resize = True, error = False\<rparr>,
        case snd cbb of CBB ch off pll asn1 _ \<Rightarrow> CBB ch off pll asn1 False)))"

definition CBB_init :: "heap_env \<Rightarrow> nat \<Rightarrow> cbb_res" where
  "CBB_init h initial_capacity =
    (case OPENSSL_malloc h initial_capacity of
      None \<Rightarrow> if initial_capacity > 0 then (False, CBB_zero) else cbb_init h CBB_zero None initial_capacity
    | Some b \<Rightarrow> cbb_init h CBB_zero (Some b) initial_capacity)"

definition CBB_init_fixed :: "heap_env \<Rightarrow> mem_block \<Rightarrow> nat \<Rightarrow> cbb_res" where
  "CBB_init_fixed h b n =
    cbb_then (cbb_init h CBB_zero (Some b) n)
      (\<lambda>s. (True, (map_option (\<lambda>b. b\<lparr>can_resize := False\<rparr>) (fst s), snd s)))"

text \<open>Freed memory is not tracked; a child may not be cleaned up.\<close>

definition CBB_cleanup :: "cbb \<Rightarrow> cbb" where
  "CBB_cleanup cbb = (if is_child (snd cbb) then cbb else (None, snd cbb))"

section \<open>The shared buffer\<close>

text \<open>The third component is where \<open>*out\<close> points, as an offset into the buffer.\<close>

definition cbb_buffer_reserve ::
    "heap_env \<Rightarrow> cbb_buffer_st option \<Rightarrow> nat \<Rightarrow> bool \<times> cbb_buffer_st option \<times> nat" where
  "cbb_buffer_reserve h bs n =
    (case bs of
      None \<Rightarrow> (False, None, 0)
    | Some b \<Rightarrow>
       let newlen = (len b + n) mod SIZE_T; err = (False, Some (b\<lparr>error := True\<rparr>), 0) in
       if newlen < len b then err
       else if newlen > cap b then
         (if \<not> can_resize b then err
          else
            let newcap = (cap b * 2) mod SIZE_T;
                newcap = (if newcap < cap b \<or> newcap < newlen then newlen else newcap) in
            (case OPENSSL_realloc h (buf b) newcap of
              None \<Rightarrow> err
            | Some newbuf \<Rightarrow> (True, Some (b\<lparr>buf := Some newbuf, cap := newcap\<rparr>), len b)))
       else (True, Some b, len b))"

definition cbb_buffer_add ::
    "heap_env \<Rightarrow> cbb_buffer_st option \<Rightarrow> nat \<Rightarrow> bool \<times> cbb_buffer_st option \<times> nat" where
  "cbb_buffer_add h bs n =
    (case cbb_buffer_reserve h bs n of
      (False, bs, out) \<Rightarrow> (False, bs, out)
    | (True, bs, out) \<Rightarrow> (True, map_option (\<lambda>b. b\<lparr>len := (len b + n) mod SIZE_T\<rparr>) bs, out))"

text \<open>Stores into the buffer: single bytes, and \<open>memcpy\<close>.\<close>

definition base_set :: "cbb_buffer_st \<Rightarrow> nat \<Rightarrow> u8 \<Rightarrow> cbb_buffer_st" where
  "base_set b i v = b\<lparr>buf := map_option (\<lambda>m. blk_set m i v) (buf b)\<rparr>"

definition base_write :: "cbb_buffer_st \<Rightarrow> nat \<Rightarrow> u8 list \<Rightarrow> cbb_buffer_st" where
  "base_write b i bs = b\<lparr>buf := map_option (\<lambda>m. blk_write m i bs) (buf b)\<rparr>"

definition base_read :: "cbb_buffer_st \<Rightarrow> nat \<Rightarrow> nat \<Rightarrow> u8 list" where
  "base_read b i j = (case buf b of None \<Rightarrow> [] | Some m \<Rightarrow> blk_read m i j)"

text \<open>
  The loop that writes an integer backwards from its last byte; it returns what is left of the
  value, which the callers compare with zero.
\<close>

fun put_be :: "cbb_buffer_st \<Rightarrow> nat \<Rightarrow> nat \<Rightarrow> u64 \<Rightarrow> cbb_buffer_st \<times> u64" where
  "put_be b pos 0 v = (b, v)"
| "put_be b pos (Suc i) v = put_be (base_set b (pos + i) (ucast v)) pos i (drop_bit 8 v)"

definition cbb_buffer_add_u ::
    "heap_env \<Rightarrow> cbb_buffer_st option \<Rightarrow> u64 \<Rightarrow> nat \<Rightarrow> bool \<times> cbb_buffer_st option" where
  "cbb_buffer_add_u h bs v len_len =
    (if len_len = 0 then (True, bs)
     else (case cbb_buffer_add h bs len_len of
        (True, Some b, out) \<Rightarrow>
          (case put_be b out len_len v of (b, v) \<Rightarrow>
            if v \<noteq> 0 then (False, Some (b\<lparr>error := True\<rparr>)) else (True, Some b))
      | (_, bs, _) \<Rightarrow> (False, bs)))"

section \<open>Flushing length prefixes\<close>

text \<open>The ASN.1 length form: its size, its first byte, and what remains to be written.\<close>

definition asn1_length_form :: "nat \<Rightarrow> (nat \<times> u8 \<times> nat) option" where
  "asn1_length_form n =
    (if n > 0xfffffffe then None
     else if n > 0xffffff then Some (5, 0x80 OR 4, n)
     else if n > 0xffff then Some (4, 0x80 OR 3, n)
     else if n > 0xff then Some (3, 0x80 OR 2, n)
     else if n > 0x7f then Some (2, 0x80 OR 1, n)
     else Some (1, of_nat n, 0))"

text \<open>
  The prefix of the pending child \<open>c\<close>, whose contents start at \<open>child_start\<close>: for ASN.1 the
  contents are moved along when the length needs more than the one byte that was kept for it.
\<close>

definition flush_prefix ::
    "heap_env \<Rightarrow> cbb_buffer_st \<Rightarrow> cbb_st \<Rightarrow> nat \<Rightarrow> bool \<times> cbb_buffer_st \<times> cbb_st" where
  "flush_prefix h b c child_start =
    (let n = len b - child_start in
     let (ok, b, c, n) =
       (if pending_is_asn1 c then
          (case asn1_length_form n of
            None \<Rightarrow> (False, b, c, n)
          | Some (len_len, initial_length_byte, rest) \<Rightarrow>
             let (ok, b) =
               (if len_len \<noteq> 1 then
                  (case cbb_buffer_add h (Some b) (len_len - 1) of
                    (True, Some b, _) \<Rightarrow>
                      (True, base_write b (child_start + (len_len - 1))
                         (base_read b child_start (child_start + rest)))
                  | (_, Some b, _) \<Rightarrow> (False, b)
                  | (_, None, _) \<Rightarrow> (False, b))
                else (True, b))
             in if ok then
               (True, base_set b (offset c) initial_length_byte,
                CBB (child c) (offset c + 1) (len_len - 1) True (is_child c), rest)
             else (False, b, c, n))
        else (True, b, c, n))
     in if \<not> ok then (False, b, c)
        else (case put_be b (offset c) (pending_len_len c) (of_nat n) of
          (b, v) \<Rightarrow> (v = 0, b, c)))"

function (sequential) CBB_flush_st ::
    "heap_env \<Rightarrow> cbb_buffer_st option \<Rightarrow> cbb_st \<Rightarrow> bool \<times> cbb_buffer_st option \<times> cbb_st" where
  "CBB_flush_st h None t = (False, None, t)"
| "CBB_flush_st h (Some b) (CBB None off pll asn1 isc) =
    (if error b then (False, Some b, CBB None off pll asn1 isc)
     else (True, Some b, CBB None off pll asn1 isc))"
| "CBB_flush_st h (Some b) (CBB (Some c) off pll asn1 isc) =
    (let self = (\<lambda>ch. CBB ch off pll asn1 isc) in
     if error b then (False, Some b, self (Some c))
     else if pending_len_len c = 0 then (True, Some b, self (Some c))
     else
       let child_start = (offset c + pending_len_len c) mod SIZE_T in
       (case CBB_flush_st h (Some b) c of
         (ok, None, c) \<Rightarrow> (False, None, self (Some c))
       | (ok, Some b, c) \<Rightarrow>
          if \<not> ok \<or> child_start < offset c \<or> len b < child_start
          then (False, Some (b\<lparr>error := True\<rparr>), self (Some c))
          else (case flush_prefix h b c child_start of
              (True, b, c) \<Rightarrow> (True, Some b, self None)
            | (False, b, c) \<Rightarrow> (False, Some (b\<lparr>error := True\<rparr>), self (Some c)))))"
  by pat_completeness auto
termination by (relation "measure (\<lambda>(h, b, t). size t)") auto

definition CBB_flush :: "heap_env \<Rightarrow> cbb \<Rightarrow> cbb_res" where
  "CBB_flush h cbb = CBB_flush_st h (fst cbb) (snd cbb)"

text \<open>The result and length of the finished buffer. \<open>want\<close>: both out parameters are given.\<close>

definition CBB_finish :: "heap_env \<Rightarrow> bool \<Rightarrow> cbb \<Rightarrow> (mem_block option \<times> nat) option \<times> cbb" where
  "CBB_finish h want cbb =
    (if is_child (snd cbb) then (None, cbb)
     else (case CBB_flush h cbb of
        (True, (Some b, t)) \<Rightarrow>
          if can_resize b \<and> \<not> want then (None, (Some b, t))
          else (Some (buf b, len b), CBB_cleanup (Some (b\<lparr>buf := None\<rparr>), t))
      | (_, cbb) \<Rightarrow> (None, cbb)))"

text \<open>The two accessors assert that no child is pending; None is a failed assertion.\<close>

definition CBB_len :: "cbb \<Rightarrow> nat option" where
  "CBB_len cbb =
    (case (fst cbb, child (snd cbb)) of
      (Some b, None) \<Rightarrow>
        if offset (snd cbb) + pending_len_len (snd cbb) \<le> len b
        then Some (len b - offset (snd cbb) - pending_len_len (snd cbb)) else None
    | _ \<Rightarrow> None)"

definition CBB_data :: "cbb \<Rightarrow> u8 list option" where
  "CBB_data cbb =
    (case (fst cbb, child (snd cbb)) of
      (Some b, None) \<Rightarrow> Some (base_read b (offset (snd cbb) + pending_len_len (snd cbb)) (len b))
    | _ \<Rightarrow> None)"

section \<open>Adding values\<close>

definition cbb_add_u :: "heap_env \<Rightarrow> cbb \<Rightarrow> u64 \<Rightarrow> nat \<Rightarrow> cbb_res" where
  "cbb_add_u h cbb v n = cbb_then (CBB_flush h cbb)
     (\<lambda>s. case cbb_buffer_add_u h (fst s) v n of (ok, b) \<Rightarrow> (ok, (b, snd s)))"

definition CBB_add_u8 :: "heap_env \<Rightarrow> cbb \<Rightarrow> u8 \<Rightarrow> cbb_res" where
  "CBB_add_u8 h cbb v = cbb_add_u h cbb (ucast v) 1"

definition CBB_add_u16 :: "heap_env \<Rightarrow> cbb \<Rightarrow> u16 \<Rightarrow> cbb_res" where
  "CBB_add_u16 h cbb v = cbb_add_u h cbb (ucast v) 2"

definition CBB_add_u16le :: "heap_env \<Rightarrow> cbb \<Rightarrow> u16 \<Rightarrow> cbb_res" where
  "CBB_add_u16le h cbb v = CBB_add_u16 h cbb (CRYPTO_bswap2 v)"

definition CBB_add_u24 :: "heap_env \<Rightarrow> cbb \<Rightarrow> u32 \<Rightarrow> cbb_res" where
  "CBB_add_u24 h cbb v = cbb_add_u h cbb (ucast v) 3"

definition CBB_add_u32 :: "heap_env \<Rightarrow> cbb \<Rightarrow> u32 \<Rightarrow> cbb_res" where
  "CBB_add_u32 h cbb v = cbb_add_u h cbb (ucast v) 4"

definition CBB_add_u32le :: "heap_env \<Rightarrow> cbb \<Rightarrow> u32 \<Rightarrow> cbb_res" where
  "CBB_add_u32le h cbb v = CBB_add_u32 h cbb (CRYPTO_bswap4 v)"

definition CBB_add_u64 :: "heap_env \<Rightarrow> cbb \<Rightarrow> u64 \<Rightarrow> cbb_res" where
  "CBB_add_u64 h cbb v = cbb_add_u h cbb v 8"

definition CBB_add_u64le :: "heap_env \<Rightarrow> cbb \<Rightarrow> u64 \<Rightarrow> cbb_res" where
  "CBB_add_u64le h cbb v = CBB_add_u64 h cbb (CRYPTO_bswap8 v)"

definition CBB_add_bytes :: "heap_env \<Rightarrow> cbb \<Rightarrow> u8 list \<Rightarrow> cbb_res" where
  "CBB_add_bytes h cbb bs = cbb_then (CBB_flush h cbb)
     (\<lambda>s. case cbb_buffer_add h (fst s) (length bs) of
        (True, b, dest) \<Rightarrow> (True, (map_option (\<lambda>b. base_write b dest bs) b, snd s))
      | (False, b, _) \<Rightarrow> (False, (b, snd s)))"

text \<open>The offset handed out is where the caller may write.\<close>

definition CBB_add_space :: "heap_env \<Rightarrow> cbb \<Rightarrow> nat \<Rightarrow> bool \<times> nat \<times> cbb" where
  "CBB_add_space h cbb n =
    (case CBB_flush h cbb of
      (False, s) \<Rightarrow> (False, 0, s)
    | (True, s) \<Rightarrow> (case cbb_buffer_add h (fst s) n of (ok, b, out) \<Rightarrow> (ok, out, (b, snd s))))"

definition CBB_reserve :: "heap_env \<Rightarrow> cbb \<Rightarrow> nat \<Rightarrow> bool \<times> nat \<times> cbb" where
  "CBB_reserve h cbb n =
    (case CBB_flush h cbb of
      (False, s) \<Rightarrow> (False, 0, s)
    | (True, s) \<Rightarrow> (case cbb_buffer_reserve h (fst s) n of (ok, b, out) \<Rightarrow> (ok, out, (b, snd s))))"

text \<open>\<open>CBB_did_write\<close> dereferences \<open>base\<close> without a check: None.\<close>

definition CBB_did_write :: "cbb \<Rightarrow> nat \<Rightarrow> cbb_res option" where
  "CBB_did_write cbb n =
    (case fst cbb of
      None \<Rightarrow> None
    | Some b \<Rightarrow> Some (
        let newlen = (len b + n) mod SIZE_T in
        if child (snd cbb) \<noteq> None \<or> newlen < len b \<or> newlen > cap b then (False, cbb)
        else (True, (Some (b\<lparr>len := newlen\<rparr>), snd cbb))))"

definition CBB_discard_child :: "cbb \<Rightarrow> cbb" where
  "CBB_discard_child cbb =
    (case child (snd cbb) of
      None \<Rightarrow> cbb
    | Some c \<Rightarrow> (map_option (\<lambda>b. b\<lparr>len := offset c\<rparr>) (fst cbb), set_child (snd cbb) None))"

section \<open>Length-prefixed and ASN.1 contents\<close>

definition cbb_add_length_prefixed :: "heap_env \<Rightarrow> cbb \<Rightarrow> nat \<Rightarrow> cbb_res" where
  "cbb_add_length_prefixed h cbb len_len =
    cbb_then (CBB_flush h cbb) (\<lambda>s. case fst s of
      None \<Rightarrow> (False, s)
    | Some b \<Rightarrow>
       let off = len b in
       (case cbb_buffer_add h (Some b) len_len of
         (True, b, prefix_bytes) \<Rightarrow>
           (True, (map_option (\<lambda>b. base_write b prefix_bytes (replicate len_len 0)) b,
             set_child (snd s) (Some (CBB None off len_len False True))))
       | (False, b, _) \<Rightarrow> (False, (b, snd s))))"

definition CBB_add_u8_length_prefixed :: "heap_env \<Rightarrow> cbb \<Rightarrow> cbb_res" where
  "CBB_add_u8_length_prefixed h cbb = cbb_add_length_prefixed h cbb 1"

definition CBB_add_u16_length_prefixed :: "heap_env \<Rightarrow> cbb \<Rightarrow> cbb_res" where
  "CBB_add_u16_length_prefixed h cbb = cbb_add_length_prefixed h cbb 2"

definition CBB_add_u24_length_prefixed :: "heap_env \<Rightarrow> cbb \<Rightarrow> cbb_res" where
  "CBB_add_u24_length_prefixed h cbb = cbb_add_length_prefixed h cbb 3"

function base128_len_loop :: "u64 \<Rightarrow> nat" where
  "base128_len_loop copy = (if copy > 0 then 1 + base128_len_loop (drop_bit 7 copy) else 0)"
  by pat_completeness auto
termination
  by (relation "measure unat") (auto simp: unat_drop_bit word_less_nat_alt intro!: div_less_dividend)

declare base128_len_loop.simps [simp del]

fun base128_put :: "heap_env \<Rightarrow> cbb \<Rightarrow> u64 \<Rightarrow> nat \<Rightarrow> cbb_res" where
  "base128_put h cbb v 0 = (True, cbb)"
| "base128_put h cbb v (Suc i) =
    cbb_then
      (CBB_add_u8 h cbb
        (let byte = ucast (drop_bit (7 * i) v AND 0x7f) in if i \<noteq> 0 then byte OR 0x80 else byte))
      (\<lambda>s. base128_put h s v i)"

definition add_base128_integer :: "heap_env \<Rightarrow> cbb \<Rightarrow> u64 \<Rightarrow> cbb_res" where
  "add_base128_integer h cbb v =
    (let len_len = base128_len_loop v; len_len = (if len_len = 0 then 1 else len_len) in
     base128_put h cbb v len_len)"

definition CBB_add_asn1 :: "heap_env \<Rightarrow> cbb \<Rightarrow> u32 \<Rightarrow> cbb_res" where
  "CBB_add_asn1 h cbb tag =
    cbb_then (CBB_flush h cbb) (\<lambda>s.
      let tag_bits = (ucast (drop_bit CBS_ASN1_TAG_SHIFT tag) AND 0xe0 :: u8);
          tag_number = tag AND CBS_ASN1_TAG_NUMBER_MASK in
      cbb_then
        (if tag_number \<ge> 0x1f
         then cbb_then (CBB_add_u8 h s (tag_bits OR 0x1f)) (\<lambda>s. add_base128_integer h s (ucast tag_number))
         else CBB_add_u8 h s (tag_bits OR ucast tag_number))
        (\<lambda>s. case fst s of
          None \<Rightarrow> (False, s)
        | Some b \<Rightarrow>
           let off = len b in
           cbb_then (CBB_add_u8 h s 0)
             (\<lambda>s. (True, (fst s, set_child (snd s) (Some (CBB None off 1 True True)))))))"

text \<open>The loop of \<open>CBB_add_asn1_uint64\<close> over the byte positions, on the child.\<close>

fun asn1_uint64_put :: "heap_env \<Rightarrow> cbb \<Rightarrow> u64 \<Rightarrow> bool \<Rightarrow> nat list \<Rightarrow> bool \<times> bool \<times> cbb" where
  "asn1_uint64_put h s v started [] = (True, started, s)"
| "asn1_uint64_put h s v started (i # is) =
    (let byte = (ucast (drop_bit (8 * (7 - i)) v AND 0xff) :: u8) in
     if \<not> started \<and> byte = 0 then asn1_uint64_put h s v started is
     else
       (case (if \<not> started \<and> byte AND 0x80 \<noteq> 0 then in_child (\<lambda>c. CBB_add_u8 h c 0) s else (True, s)) of
         (False, s) \<Rightarrow> (False, started, s)
       | (True, s) \<Rightarrow>
           (case in_child (\<lambda>c. CBB_add_u8 h c byte) s of
             (False, s) \<Rightarrow> (False, True, s)
           | (True, s) \<Rightarrow> asn1_uint64_put h s v True is)))"

definition CBB_add_asn1_uint64 :: "heap_env \<Rightarrow> cbb \<Rightarrow> u64 \<Rightarrow> cbb_res" where
  "CBB_add_asn1_uint64 h cbb v =
    cbb_then (CBB_add_asn1 h cbb CBS_ASN1_INTEGER) (\<lambda>s.
      case asn1_uint64_put h s v False [0..<8] of
        (False, _, s) \<Rightarrow> (False, s)
      | (True, started, s) \<Rightarrow>
          cbb_then (if \<not> started then in_child (\<lambda>c. CBB_add_u8 h c 0) s else (True, s)) (CBB_flush h))"

text \<open>An \<open>int64_t\<close> is its bit pattern; \<open>u.bytes\<close> are its little-endian bytes.\<close>

fun int64_start :: "u8 list \<Rightarrow> nat \<Rightarrow> nat" where
  "int64_start bytes 0 = 0"
| "int64_start bytes (Suc start) =
    (if bytes ! Suc start = 0xff \<and> bytes ! start AND 0x80 \<noteq> 0 then int64_start bytes start
     else Suc start)"

fun put_bytes_down :: "heap_env \<Rightarrow> cbb \<Rightarrow> u8 list \<Rightarrow> cbb_res" where
  "put_bytes_down h s [] = (True, s)"
| "put_bytes_down h s (b # bs) = cbb_then (in_child (\<lambda>c. CBB_add_u8 h c b) s) (\<lambda>s. put_bytes_down h s bs)"

definition CBB_add_asn1_int64 :: "heap_env \<Rightarrow> cbb \<Rightarrow> u64 \<Rightarrow> cbb_res" where
  "CBB_add_asn1_int64 h cbb v =
    (if sint v \<ge> 0 then CBB_add_asn1_uint64 h cbb v
     else
       let bytes = le_bytes 8 (unat v); start = int64_start bytes 7 in
       cbb_then (CBB_add_asn1 h cbb CBS_ASN1_INTEGER) (\<lambda>s.
         cbb_then (put_bytes_down h s (map (\<lambda>i. bytes ! i) (rev [0..<Suc start]))) (CBB_flush h)))"

definition CBB_add_asn1_octet_string :: "heap_env \<Rightarrow> cbb \<Rightarrow> u8 list \<Rightarrow> cbb_res" where
  "CBB_add_asn1_octet_string h cbb bs =
    cbb_then (CBB_add_asn1 h cbb CBS_ASN1_OCTETSTRING) (\<lambda>s.
      cbb_then (in_child (\<lambda>c. CBB_add_bytes h c bs) s) (CBB_flush h))"

definition CBB_add_asn1_bool :: "heap_env \<Rightarrow> cbb \<Rightarrow> int \<Rightarrow> cbb_res" where
  "CBB_add_asn1_bool h cbb v =
    cbb_then (CBB_add_asn1 h cbb CBS_ASN1_BOOLEAN) (\<lambda>s.
      cbb_then (in_child (\<lambda>c. CBB_add_u8 h c (if v \<noteq> 0 then 0xff else 0)) s) (CBB_flush h))"

section \<open>Sorting a SET OF\<close>

definition compare_set_of_element :: "cbs \<Rightarrow> cbs \<Rightarrow> int" where
  "compare_set_of_element a b =
    (let a_len = CBS_len a; b_len = CBS_len b; min_len = (if a_len < b_len then a_len else b_len);
         ret = OPENSSL_memcmp (CBS_data a) (CBS_data b) min_len in
     if ret \<noteq> 0 then ret
     else if a_len = b_len then 0
     else if a_len < b_len then -1 else 1)"

text \<open>The children of the contents, None when they do not parse.\<close>

function set_of_children :: "cbs \<Rightarrow> cbs list option" where
  "set_of_children cbs =
    (if CBS_len cbs \<noteq> 0 then
       (case CBS_get_any_asn1_element cbs of
         (None, _) \<Rightarrow> None
       | (Some (c, _, _), cbs) \<Rightarrow> map_option (\<lambda>cs. c # cs) (set_of_children cbs))
     else Some [])"
  by pat_completeness auto
termination
  by (relation "measure length")
     (auto simp: CBS_get_any_asn1_element_def dest!: element_shrinks sym [where t = "cbs_get_any_asn1_element _ _"])

declare set_of_children.simps [simp del]

fun add_all :: "heap_env \<Rightarrow> cbb \<Rightarrow> cbs list \<Rightarrow> cbb_res" where
  "add_all h s [] = (True, s)"
| "add_all h s (c # cs) = cbb_then (CBB_add_bytes h s (CBS_data c)) (\<lambda>s. add_all h s cs)"

text \<open>
  The children are counted first and parsed again from the copy; both passes see the same
  bytes, so one parse stands for the two. None is a failed assertion of the accessors.
\<close>

definition CBB_flush_asn1_set_of :: "heap_env \<Rightarrow> cbb \<Rightarrow> cbb_res option" where
  "CBB_flush_asn1_set_of h cbb =
    (case CBB_flush h cbb of
      (False, s) \<Rightarrow> Some (False, s)
    | (True, s) \<Rightarrow>
       (case (CBB_data s, CBB_len s) of
         (Some contents, Some buf_len) \<Rightarrow>
           (case set_of_children (CBS_init contents) of
             None \<Rightarrow> Some (False, s)
           | Some children \<Rightarrow>
              let num_children = length children in
              if num_children < 2 then Some (True, s)
              else if num_children > (SIZE_T - 1) div SIZEOF_CBS then Some (False, s)
              else if OPENSSL_memdup h contents = None
                      \<or> OPENSSL_malloc h (num_children * SIZEOF_CBS) = None then Some (False, s)
              else
                let sorted = qsort_by compare_set_of_element children;
                    s = (map_option (\<lambda>b. b\<lparr>len := offset (snd s) + pending_len_len (snd s)\<rparr>) (fst s), snd s)
                in Some (add_all h s sorted))
       | _ \<Rightarrow> None))"

section \<open>\<open>asn1_compat.c\<close>\<close>

text \<open>
  \<open>CBB_finish_i2d\<close> into a caller's buffer: \<open>outp\<close> is None for a null pointer, Some None for a
  pointer to a null pointer, and otherwise the memory the caller's pointer points at with its
  position. The result is the number of bytes or -1, and what \<open>*outp\<close> is afterwards: its
  block and the position of the pointer in it.
\<close>

definition INT_MAX :: int where "INT_MAX = 2147483647"

definition CBB_finish_i2d ::
    "heap_env \<Rightarrow> cbb \<Rightarrow> (mem_block \<times> nat) option option \<Rightarrow>
     int \<times> (mem_block option \<times> nat) option option \<times> cbb" where
  "CBB_finish_i2d h cbb outp =
    (let same = map_option (map_option (\<lambda>(m, p). (Some m, p))) outp in
     case CBB_finish h True cbb of
       (None, cbb) \<Rightarrow> (-1, same, CBB_cleanup cbb)
     | (Some (der, der_len), cbb) \<Rightarrow>
         if int der_len > INT_MAX then (-1, same, cbb)
         else (int der_len,
           (case outp of
             None \<Rightarrow> None
           | Some None \<Rightarrow> Some (Some (der, 0))
           | Some (Some (m, p)) \<Rightarrow>
               Some (Some (Some (blk_write m p (case der of None \<Rightarrow> [] | Some d \<Rightarrow> blk_read d 0 der_len)),
                 p + der_len))), cbb))"

end
