(* ===== verification/Bssl_Cbb_Props.thy ===== *)
theory Bssl_Cbb_Props
  imports Bssl_Cbb
begin

text \<open>
  What the builder promises. Its abstract state is a \<open>builder\<close>: the bytes written so far and, if a
  length prefix is pending, the builder of the contents. Flushing closes it into a byte string;
  every other operation flushes and appends. The shared buffer never outgrows its capacity.
\<close>

section \<open>The buffer\<close>

definition byte_at :: "cbb_buffer_st \<Rightarrow> nat \<Rightarrow> u8" where
  "byte_at b i = (case buf b of None \<Rightarrow> 0 | Some m \<Rightarrow> blk_data m i)"

definition contents :: "cbb_buffer_st \<Rightarrow> u8 list" where
  "contents b = map (byte_at b) [0..<len b]"

definition buffer_ok :: "cbb_buffer_st \<Rightarrow> bool" where
  "buffer_ok b \<longleftrightarrow> len b \<le> cap b \<and> cap b < SIZE_T \<and>
    (case buf b of None \<Rightarrow> cap b = 0 | Some m \<Rightarrow> blk_size m = cap b)"

text \<open>
  What an operation may do to the buffer: a fixed one keeps its block and is written only below
  its capacity; one that can grow is moved to a fresh block at most.
\<close>

definition confined :: "heap_env \<Rightarrow> cbb_buffer_st \<Rightarrow> cbb_buffer_st \<Rightarrow> bool" where
  "confined h b b' \<longleftrightarrow> buffer_ok b' \<and> can_resize b' = can_resize b \<and> cap b \<le> cap b' \<and>
    (\<not> can_resize b \<longrightarrow> cap b' = cap b) \<and>
    (\<forall>i \<ge> cap b'. byte_at b' i = byte_at b i \<or> can_resize b \<and> byte_at b' i = junk h i)"

text \<open>Space for \<open>n\<close> bytes is there, or can be had.\<close>

definition has_room :: "heap_env \<Rightarrow> cbb_buffer_st \<Rightarrow> nat \<Rightarrow> bool" where
  "has_room h b n \<longleftrightarrow> n < SIZE_T \<and> (n \<le> cap b \<or> can_resize b \<and> (\<forall>k. malloc_ok h k))"

lemma length_contents [simp]: "length (contents b) = len b"
  by (simp add: contents_def)

lemma confined_refl: "buffer_ok b \<Longrightarrow> confined h b b"
  by (simp add: confined_def)

lemma confined_trans: "confined h a b \<Longrightarrow> confined h b c \<Longrightarrow> confined h a c"
  unfolding confined_def by (metis order_trans)

lemma confined_ok: "confined h b b' \<Longrightarrow> buffer_ok b'"
  by (simp add: confined_def)

lemma has_room_confined: "has_room h b n \<Longrightarrow> confined h b b' \<Longrightarrow> has_room h b' n"
  by (auto simp: has_room_def confined_def)

lemma has_room_less: "has_room h b n \<Longrightarrow> k \<le> n \<Longrightarrow> has_room h b k"
  by (auto simp: has_room_def)

lemma confined_error [simp]: "confined h b (b'\<lparr>error := e\<rparr>) = confined h b b'"
  by (simp add: confined_def buffer_ok_def byte_at_def cong: option.case_cong)

lemma contents_error [simp]: "contents (b\<lparr>error := e\<rparr>) = contents b"
  by (simp add: contents_def byte_at_def)

lemma buf_set_simps [simp]:
  "len (base_set b i v) = len b" "cap (base_set b i v) = cap b" "error (base_set b i v) = error b"
  "can_resize (base_set b i v) = can_resize b"
  by (simp_all add: base_set_def)

lemma buf_write_simps [simp]:
  "len (base_write b i bs) = len b" "cap (base_write b i bs) = cap b" "error (base_write b i bs) = error b"
  "can_resize (base_write b i bs) = can_resize b"
  by (simp_all add: base_write_def)

lemma buf_set_ok [simp]: "buffer_ok (base_set b i v) = buffer_ok b"
  by (simp add: buffer_ok_def base_set_def blk_set_def split: option.split)

lemma buf_write_ok [simp]: "buffer_ok (base_write b i bs) = buffer_ok b"
  by (simp add: buffer_ok_def base_write_def blk_write_def split: option.split)

lemma byte_buf_set: "buffer_ok b \<Longrightarrow> i < cap b \<Longrightarrow> byte_at (base_set b i v) j = (if j = i then v else byte_at b j)"
  by (auto simp: byte_at_def base_set_def blk_set_def buffer_ok_def split: option.split)

lemma byte_buf_write:
  "buffer_ok b \<Longrightarrow> i + length bs \<le> cap b \<Longrightarrow>
   byte_at (base_write b i bs) j = (if i \<le> j \<and> j < i + length bs then bs ! (j - i) else byte_at b j)"
  by (auto simp: byte_at_def base_write_def blk_write_def buffer_ok_def split: option.split)

lemma confined_set: "confined h b b' \<Longrightarrow> i < cap b' \<Longrightarrow> confined h b (base_set b' i v)"
  by (simp add: confined_def byte_buf_set)

lemma confined_write: "confined h b b' \<Longrightarrow> i + length bs \<le> cap b' \<Longrightarrow> confined h b (base_write b' i bs)"
  by (simp add: confined_def byte_buf_write)

lemma confined_len: "confined h b b' \<Longrightarrow> n \<le> cap b' \<Longrightarrow> confined h b (b'\<lparr>len := n\<rparr>)"
  by (simp add: confined_def buffer_ok_def byte_at_def cong: option.case_cong)

lemma size_t_overflow: "a < SIZE_T \<Longrightarrow> n < SIZE_T \<Longrightarrow> (a + n) mod SIZE_T < a \<longleftrightarrow> SIZE_T \<le> a + n"
  by (auto simp: mod_if)

text \<open>Growing the buffer keeps the bytes in it.\<close>

lemma malloc_cases:
  obtains (fail) "OPENSSL_malloc h n = None" "\<not> (\<forall>k. malloc_ok h k)"
    | (got) m where "OPENSSL_malloc h n = Some m" "blk_size m = n" "blk_data m = junk h"
  by (cases "malloc_ok h ((n + OPENSSL_MALLOC_PREFIX) mod SIZE_T)") (auto simp: OPENSSL_malloc_def Let_def)

lemma realloc_cases:
  assumes "buffer_ok b" "cap b \<le> n"
  obtains (fail) "OPENSSL_realloc h (buf b) n = None" "\<not> (\<forall>k. malloc_ok h k)"
    | (got) m where "OPENSSL_realloc h (buf b) n = Some m" "blk_size m = n"
        "\<And>i. blk_data m i = (if i < cap b then byte_at b i else junk h i)"
proof (cases rule: malloc_cases [of h n])
  case fail
  then show thesis using that by (cases "buf b") (auto simp: OPENSSL_realloc_def)
next
  case (got m)
  show thesis
  proof (cases "buf b")
    case None
    then show thesis using got assms that(2) by (simp add: OPENSSL_realloc_def buffer_ok_def)
  next
    case (Some mb)
    then have "blk_size mb = cap b" using assms by (simp add: buffer_ok_def)
    then have "OPENSSL_realloc h (buf b) n = Some (blk_write m 0 (blk_read mb 0 (cap b)))"
      using got Some assms by (cases "cap b < n") (simp_all add: OPENSSL_realloc_def)
    then show thesis using got Some that(2)
      by (simp add: blk_write_def blk_read_def byte_at_def)
  qed
qed

lemma reserve_spec:
  assumes ok: "buffer_ok b" and n: "n < SIZE_T" and r: "cbb_buffer_reserve h (Some b) n = (res, bs', out)"
  obtains (no) b' where "\<not> res" "bs' = Some b'" "error b'" "confined h b b'" "\<not> has_room h b (len b + n)"
    | (yes) b' where "res" "bs' = Some b'" "out = len b" "confined h b b'" "len b' = len b" "error b' = error b"
        "len b + n \<le> cap b'" "\<And>i. i < cap b \<Longrightarrow> byte_at b' i = byte_at b i"
proof -
  have lb: "len b \<le> cap b" "cap b < SIZE_T" using ok by (simp_all add: buffer_ok_def)
  have err: "confined h b (b\<lparr>error := True\<rparr>)" by (simp add: confined_refl ok)
  consider (over) "SIZE_T \<le> len b + n" | (fits) "len b + n < SIZE_T" "len b + n \<le> cap b"
    | (full) "len b + n < SIZE_T" "cap b < len b + n" "\<not> can_resize b"
    | (grow) "len b + n < SIZE_T" "cap b < len b + n" "can_resize b" by linarith
  then show thesis
  proof cases
    case over
    then have "(len b + n) mod SIZE_T < len b" using lb n by (simp add: size_t_overflow)
    with r have e: "\<not> res" "bs' = Some (b\<lparr>error := True\<rparr>)" by (auto simp: cbb_buffer_reserve_def Let_def)
    show thesis by (rule no [OF e _ err]) (use over in \<open>simp_all add: has_room_def\<close>)
  next
    case fits
    then show thesis using r ok yes [of b] by (simp add: cbb_buffer_reserve_def Let_def confined_refl)
  next
    case full
    with r have e: "\<not> res" "bs' = Some (b\<lparr>error := True\<rparr>)" by (auto simp: cbb_buffer_reserve_def Let_def)
    show thesis by (rule no [OF e _ err]) (use full in \<open>simp_all add: has_room_def\<close>)
  next
    case grow
    define newcap where "newcap = (if (cap b * 2) mod SIZE_T < cap b \<or> (cap b * 2) mod SIZE_T < len b + n
        then len b + n else (cap b * 2) mod SIZE_T)"
    have nc: "cap b \<le> newcap" "len b + n \<le> newcap" "newcap < SIZE_T"
      using grow by (simp_all add: newcap_def SIZE_T_def)
    have m: "(len b + n) mod SIZE_T = len b + n" using grow by simp
    have r': "(case OPENSSL_realloc h (buf b) newcap of
          None \<Rightarrow> (False, Some (b\<lparr>error := True\<rparr>), 0)
        | Some newbuf \<Rightarrow> (True, Some (b\<lparr>buf := Some newbuf, cap := newcap\<rparr>), len b)) = (res, bs', out)"
      using r grow
      unfolding cbb_buffer_reserve_def Let_def option.case m newcap_def [symmetric] by simp
    show thesis
    proof (cases rule: realloc_cases [OF ok nc(1), of h])
      case 1
      with r' have e: "\<not> res" "bs' = Some (b\<lparr>error := True\<rparr>)" by auto
      show thesis by (rule no [OF e _ err]) (use grow 1 in \<open>simp_all add: has_room_def\<close>)
    next
      case (2 m)
      let ?b = "b\<lparr>buf := Some m, cap := newcap\<rparr>"
      have byt: "byte_at ?b i = (if i < cap b then byte_at b i else junk h i)" for i
        by (simp add: byte_at_def [of ?b] 2)
      have "buffer_ok ?b" using lb nc 2 by (simp add: buffer_ok_def)
      then have "confined h b ?b" using nc grow by (auto simp: confined_def byt)
      then show thesis using r' 2 nc yes [of ?b] by (simp add: byt)
    qed
  qed
qed

lemma contents_eqI:
  "len b' = n \<Longrightarrow> length xs = n \<Longrightarrow> (\<And>i. i < n \<Longrightarrow> byte_at b' i = xs ! i) \<Longrightarrow> contents b' = xs"
  by (auto simp: contents_def intro: nth_equalityI)

lemma nth_contents [simp]: "i < len b \<Longrightarrow> contents b ! i = byte_at b i"
  by (simp add: contents_def)

text \<open>Adding space: the old contents stay, the new bytes are whatever was there.\<close>

lemma add_spec:
  assumes ok: "buffer_ok b" and n: "n < SIZE_T" and r: "cbb_buffer_add h (Some b) n = (res, bs', out)"
  obtains (no) b' where "\<not> res" "bs' = Some b'" "error b'" "confined h b b'" "\<not> has_room h b (len b + n)"
    | (yes) b' xs where "res" "bs' = Some b'" "out = len b" "confined h b b'" "len b' = len b + n" "error b' = error b"
        "contents b' = contents b @ xs" "length xs = n"
proof -
  obtain res0 bs0 out0 where r0: "cbb_buffer_reserve h (Some b) n = (res0, bs0, out0)" by (cases "cbb_buffer_reserve h (Some b) n")
  show thesis
  proof (cases rule: reserve_spec [OF ok n r0])
    case (1 b')
    with r r0 have e: "\<not> res" "bs' = Some b'" by (auto simp: cbb_buffer_add_def)
    show thesis by (rule no [OF e 1(3-5)])
  next
    case (2 b')
    let ?b = "b'\<lparr>len := len b + n\<rparr>"
    have l: "len b \<le> cap b" using ok by (simp add: buffer_ok_def)
    have "len b + n < SIZE_T" using 2 confined_ok [OF 2(4)] by (auto simp: buffer_ok_def)
    then have "bs' = Some ?b" "res" "out = len b" using 2 r r0 by (auto simp: cbb_buffer_add_def)
    moreover obtain xs where xs: "xs = map (byte_at b') [len b..<len b + n]" and "length xs = n" by simp
    moreover have "contents ?b = contents b @ xs" unfolding xs
      by (rule contents_eqI [of _ "len b + n"])
        (use 2 l in \<open>auto simp: nth_append byte_at_def [of ?b] simp flip: byte_at_def\<close>)
    ultimately show thesis using 2 by (intro yes [of ?b xs]) (simp_all add: confined_len)
  qed
qed

lemma contents_buf_set:
  "buffer_ok b \<Longrightarrow> i < len b \<Longrightarrow> contents (base_set b i v) = (contents b)[i := v]"
  by (rule contents_eqI [of _ "len b"]) (auto simp: byte_buf_set buffer_ok_def nth_list_update)

lemma contents_buf_write:
  "buffer_ok b \<Longrightarrow> i + length bs \<le> len b \<Longrightarrow>
   contents (base_write b i bs) = take i (contents b) @ bs @ drop (i + length bs) (contents b)"
  by (rule contents_eqI [of _ "len b"]) (auto simp: byte_buf_write buffer_ok_def nth_append)

text \<open>The backwards loop writes the low bytes of the value, most significant first.\<close>

lemma put_be_spec:
  assumes "buffer_ok b" "contents b = pre @ ph @ post" "length ph = n"
  shows "\<exists>b'. put_be b (length pre) n v = (b', drop_bit (8 * n) v) \<and>
    contents b' = pre @ be_bytes n (unat v) @ post \<and> len b' = len b \<and> cap b' = cap b \<and>
    error b' = error b \<and> buffer_ok b' \<and> (\<forall>h b0. confined h b0 b \<longrightarrow> confined h b0 b')"
  using assms
proof (induction n arbitrary: b v ph post)
  case 0
  then show ?case by (simp add: be_bytes_def)
next
  case (Suc n)
  then obtain ph' x where ph: "ph = ph' @ [x]" "length ph' = n" by (cases ph rule: rev_cases) auto
  let ?b = "base_set b (length pre + n) (ucast v)"
  have l: "length pre + n < len b" using Suc.prems(2,3) ph by (metis add_less_cancel_left length_append length_contents lessI less_le_trans le_add1 add.assoc)
  have c: "length pre + n < cap b" using l Suc.prems(1) by (simp add: buffer_ok_def)
  have "contents ?b = pre @ ph' @ ucast v # post"
    using Suc.prems ph l by (simp add: contents_buf_set list_update_append)
  from Suc.IH [OF _ this ph(2), of "drop_bit 8 v"] Suc.prems(1)
  obtain b' where b': "put_be ?b (length pre) n (drop_bit 8 v) = (b', drop_bit (8 * n) (drop_bit 8 v))"
    "contents b' = pre @ be_bytes n (unat (drop_bit 8 v)) @ ucast v # post" "len b' = len b" "cap b' = cap b"
    "error b' = error b" "buffer_ok b'" "\<forall>h b0. confined h b0 ?b \<longrightarrow> confined h b0 b'"
    by auto
  have "(ucast v :: u8) = of_nat (unat v mod 256)"
    by (rule unsigned_word_eqI [where 'a = nat]) (simp add: unat_ucast_mod unat_of_nat)
  then have "be_bytes n (unat (drop_bit 8 v)) @ ucast v # post = be_bytes (Suc n) (unat v) @ post"
    by (simp add: be_bytes_Suc unat_drop_bit)
  with b' c show ?case by (intro exI [of _ b']) (auto simp: add.commute intro: confined_set)
qed

lemma contents_buf_read:
  "buffer_ok b \<Longrightarrow> j \<le> len b \<Longrightarrow> base_read b i j = drop i (take j (contents b))"
  by (cases "buf b")
     (auto simp: base_read_def blk_read_def contents_def byte_at_def buffer_ok_def take_map drop_map)

section \<open>Builders\<close>

text \<open>
  The abstract state: the bytes written, and the builder of the contents that a pending prefix
  of \<open>n\<close> bytes waits for, in the fixed form or as an ASN.1 length.
\<close>

datatype builder = Closed "u8 list" | Open "u8 list" nat bool builder

fun builds :: "cbb_st \<Rightarrow> nat \<Rightarrow> u8 list \<Rightarrow> builder \<Rightarrow> bool" where
  "builds t start bs (Closed own) \<longleftrightarrow> child t = None \<and> bs = own"
| "builds t start bs (Open own n asn1 bld) \<longleftrightarrow> 0 < n \<and> n \<le> 8 \<and> (asn1 \<longrightarrow> n = 1) \<and>
    (\<exists>c ph rest. child t = Some c \<and> offset c = start + length own \<and> pending_len_len c = n \<and>
      pending_is_asn1 c = asn1 \<and> bs = own @ ph @ rest \<and> length ph = n \<and>
      builds c (start + length own + n) rest bld)"

definition prefix_octets :: "nat \<Rightarrow> bool \<Rightarrow> nat \<Rightarrow> u8 list option" where
  "prefix_octets n asn1 k =
    (if asn1 then (if k \<le> 0xfffffffe then Some (length_octets k) else None)
     else if k < 256 ^ n then Some (be_bytes n k) else None)"

fun close :: "builder \<Rightarrow> u8 list option" where
  "close (Closed own) = Some own"
| "close (Open own n asn1 bld) =
    (case close bld of None \<Rightarrow> None
     | Some body \<Rightarrow> map_option (\<lambda>p. own @ p @ body) (prefix_octets n asn1 (length body)))"

lemma asn1_length_form_eq:
  assumes "n \<le> 0xfffffffe"
  shows "asn1_length_form n =
    (if n < 128 then Some (1, of_nat n, 0) else Some (be_len n + 1, of_nat (128 + be_len n), n))"
proof -
  have k: "256 ^ k \<le> n \<Longrightarrow> n < 256 ^ Suc k \<Longrightarrow> be_len n = Suc k" for k by (rule be_len_eq)
  consider "n < 128" | "128 \<le> n" "n \<le> 0xff" | "0xff < n" "n \<le> 0xffff" | "0xffff < n" "n \<le> 0xffffff"
    | "0xffffff < n" by linarith
  then show ?thesis
    using assms k [of 0] k [of 1] k [of 2] k [of 3] by cases (simp_all add: asn1_length_form_def)
qed

text \<open>Writing the prefix of a child whose contents \<open>body\<close> are complete.\<close>

lemma flush_prefix_spec:
  assumes ok: "buffer_ok b" "\<not> error b" and c: "contents b = pre @ ph @ body" "length ph = n"
    and cc: "offset c = length pre" "pending_len_len c = n" "pending_is_asn1 c = asn1" "asn1 \<longrightarrow> n = 1" "n \<le> 8"
    and r: "flush_prefix h b c (length pre + n) = (res, b', c')"
  shows "confined h b b' \<and>
    (res \<longrightarrow> \<not> error b' \<and> (\<exists>p. prefix_octets n asn1 (length body) = Some p \<and> contents b' = pre @ p @ body)) \<and>
    (\<forall>p. prefix_octets n asn1 (length body) = Some p \<longrightarrow> has_room h b (length pre + length p + length body) \<longrightarrow> res)"
proof -
  let ?k = "length body"
  have l: "len b = length pre + n + ?k" using c by (metis length_contents length_append add.assoc)
  then have n: "len b - (length pre + n) = ?k" by simp
  have lc: "len b \<le> cap b" "cap b < SIZE_T" using ok by (simp_all add: buffer_ok_def)
  then have k64: "unat (of_nat ?k :: u64) = ?k" using l by (intro unat_of_nat_eq) (simp add: SIZE_T_def)
  have zero: "drop_bit (8 * j) (of_nat ?k :: u64) = 0 \<longleftrightarrow> ?k < 256 ^ j" for j
    by (simp only: drop_bytes k64)
  show ?thesis
  proof (cases asn1)
    case False
    obtain b1 where b1: "put_be b (length pre) n (of_nat ?k) = (b1, drop_bit (8 * n) (of_nat ?k))"
        "contents b1 = pre @ be_bytes n ?k @ body" "error b1 = error b" "confined h b b1"
      using put_be_spec [OF ok(1) c, of "of_nat ?k"] confined_refl [OF ok(1)] k64 by auto
    then show ?thesis using r False cc ok
      by (auto simp: flush_prefix_def Let_def n prefix_octets_def zero)
  next
    case True
    with cc have n1: "n = 1" "pending_len_len c = 1" "offset c = length pre" by simp_all
    have n2: "len b - Suc (length pre) = ?k" using n n1 by simp
    show ?thesis
    proof (cases "?k \<le> 0xfffffffe")
      case big: False
      then have "asn1_length_form ?k = None" by (simp add: asn1_length_form_def)
      with r True cc big have "res = False" "b' = b" by (simp_all add: flush_prefix_def n n2 Let_def)
      then show ?thesis using big True ok by (simp add: prefix_octets_def confined_refl)
    next
      case small: True
      note form = asn1_length_form_eq [OF small]
      show ?thesis
      proof (cases "?k < 128")
        case short: True
        have p: "length pre < len b" using l n1 by simp
        let ?b = "base_set b (length pre) (of_nat ?k)"
        have "res = True" "b' = ?b"
          using r short True cc by (simp_all add: flush_prefix_def n n2 Let_def form)
        moreover obtain x where "ph = [x]" using c(2) n1 by (cases ph) auto
        then have "contents ?b = pre @ [of_nat ?k] @ body" using p c ok by (simp add: contents_buf_set)
        ultimately show ?thesis using short True p lc ok small
          by (simp add: prefix_octets_def length_octets_def confined_set confined_refl)
      next
        case long: False
        let ?e = "be_len ?k"
        have k: "?e \<noteq> 0" "?e \<le> 4" "?k < 256 ^ ?e" using be_len_ge_128 [of ?k] long small by auto
        then have e: "?e < SIZE_T" by (simp add: SIZE_T_def)
        have p: "prefix_octets n asn1 ?k = Some (of_nat (128 + ?e) # be_bytes ?e ?k)"
          using True long small by (simp add: prefix_octets_def length_octets_def)
        have rm: "length pre + length (of_nat (128 + ?e) # be_bytes ?e ?k) + ?k = len b + ?e"
          using l n1 by simp
        obtain res1 bs1 out where a: "cbb_buffer_add h (Some b) ?e = (res1, bs1, out)"
          by (cases "cbb_buffer_add h (Some b) ?e")
        show ?thesis
        proof (rule add_spec [OF ok(1) e a])
          fix b1 assume no: "\<not> res1" "bs1 = Some b1" "error b1" "confined h b b1" "\<not> has_room h b (len b + ?e)"
          then have "res = False" "b' = b1"
            using r long True cc a k by (simp_all add: flush_prefix_def n n2 Let_def form)
          moreover have "\<not> has_room h b (length pre + length q + ?k)" if "prefix_octets n asn1 ?k = Some q" for q
            using that no(5) by (metis p rm option.inject)
          ultimately show ?thesis using no(4) by blast
        next
          fix b1 xs assume yes: "res1" "bs1 = Some b1" "confined h b b1" "len b1 = len b + ?e"
            "error b1 = error b" "contents b1 = contents b @ xs" "length xs = ?e"
          let ?b2 = "base_write b1 (length pre + n + ?e) (base_read b1 (length pre + n) (length pre + n + ?k))"
          let ?b3 = "base_set ?b2 (length pre) (of_nat (128 + ?e))"
          have ok1: "buffer_ok b1" using yes(3) by (rule confined_ok)
          have rd: "base_read b1 (length pre + n) (length pre + n + ?k) = body"
            using yes l c by (simp add: contents_buf_read [OF ok1])
          obtain x where ph: "ph = [x]" using c(2) n1 by (cases ph) auto
          have c2: "contents ?b2 = pre @ [x] @ take ?e (body @ xs) @ body"
            using yes l c ph n1 unfolding rd by (subst contents_buf_write [OF ok1]) simp_all
          have c3: "contents ?b3 = pre @ [of_nat (128 + ?e)] @ take ?e (body @ xs) @ body"
            using c2 yes l n1 ok1 by (subst contents_buf_set) simp_all
          have lt: "length pre < cap b1" using yes(4) l n1 ok1 by (simp add: buffer_ok_def)
          have cf: "confined h b ?b3"
            using yes l lt ok1 unfolding rd by (intro confined_set confined_write) (auto simp: buffer_ok_def)
          have c3': "contents ?b3 = (pre @ [of_nat (128 + ?e)]) @ take ?e (body @ xs) @ body" using c3 by simp
          have "length (take ?e (body @ xs)) = ?e" using yes by simp
          from put_be_spec [OF confined_ok [OF cf] c3' this, of "of_nat ?k"] cf
          obtain b4 where b4: "put_be ?b3 (length pre + 1) ?e (of_nat ?k) = (b4, drop_bit (8 * ?e) (of_nat ?k))"
              "contents b4 = pre @ of_nat (128 + ?e) # be_bytes ?e ?k @ body" "error b4 = error b" "confined h b b4"
            using k64 yes(5) by auto
          have "res = True" "b' = b4"
            using r long True cc a yes k b4(1) zero [of ?e] by (simp_all add: flush_prefix_def n n2 Let_def form)
          then show ?thesis using b4 p ok by simp
        qed
      qed
    qed
  qed
qed

text \<open>What a flush does to a builder, on the \<open>CBB\<close> whose bytes follow \<open>pre\<close> in the buffer.\<close>

definition same_slot :: "cbb_st \<Rightarrow> cbb_st \<Rightarrow> bool" where
  "same_slot c c' \<longleftrightarrow> offset c' = offset c \<and> pending_len_len c' = pending_len_len c \<and>
    pending_is_asn1 c' = pending_is_asn1 c \<and> is_child c' = is_child c"

lemma flush_st_spec:
  assumes "buffer_ok b" "\<not> error b" "contents b = pre @ bs" "builds t (length pre) bs bld"
    and "CBB_flush_st h (Some b) t = (res, bs', t')"
  shows "\<exists>b'. bs' = Some b' \<and> confined h b b' \<and> same_slot t t' \<and>
    (if res then \<not> error b' \<and> child t' = None \<and> (\<exists>body. close bld = Some body \<and> contents b' = pre @ body)
     else error b') \<and>
    (\<forall>body. close bld = Some body \<longrightarrow> has_room h b (length pre + length body) \<longrightarrow> res)"
  using assms
proof (induction bld arbitrary: t pre bs b res bs' t')
  case (Closed own)
  then show ?case by (cases t) (auto simp: same_slot_def confined_refl)
next
  case (Open own n asn1 bld)
  from Open.prems(4) obtain c ph rest where t: "child t = Some c" "offset c = length pre + length own"
      "pending_len_len c = n" "pending_is_asn1 c = asn1" "bs = own @ ph @ rest" "length ph = n"
      "builds c (length pre + length own + n) rest bld" and n: "0 < n" "n \<le> 8" "asn1 \<longrightarrow> n = 1"
    by auto
  then obtain off pll as isc where tt: "t = CBB (Some c) off pll as isc" by (cases t) auto
  let ?pre = "pre @ own @ ph"
  obtain res1 bs1 c1 where r1: "CBB_flush_st h (Some b) c = (res1, bs1, c1)"
    by (cases "CBB_flush_st h (Some b) c")
  have pre: "contents b = ?pre @ rest" using Open.prems(3) t by simp
  have ln: "length ?pre = length pre + length own + n" using t by simp
  from Open.IH [OF Open.prems(1,2) pre _ r1] t ln
  obtain b1 where b1: "bs1 = Some b1" "confined h b b1" "same_slot c c1"
      "if res1 then \<not> error b1 \<and> child c1 = None \<and> (\<exists>body. close bld = Some body \<and> contents b1 = ?pre @ body) else error b1"
      "\<forall>body. close bld = Some body \<longrightarrow> has_room h b (length ?pre + length body) \<longrightarrow> res1"
    by (auto simp: add.assoc)
  have "len b = length ?pre + length rest" using arg_cong [OF pre, of length] by simp
  then have fit: "offset c + pending_len_len c < SIZE_T"
    using Open.prems(1) t by (simp add: buffer_ok_def)
  have p64: "length pre + (length own + n) < SIZE_T" using fit t by simp
  show ?case
  proof (cases res1)
    case False
    then have "res = False" "bs' = Some (b1\<lparr>error := True\<rparr>)" "t' = CBB (Some c1) off pll as isc"
      using Open.prems(2,5) r1 b1(1) t n by (simp_all add: tt Let_def)
    moreover have "\<not> has_room h b (length pre + length body)" if "close (Open own n asn1 bld) = Some body" for body
    proof
      assume rm: "has_room h b (length pre + length body)"
      from that obtain body0 p where "close bld = Some body0" "body = own @ p @ body0" "prefix_octets n asn1 (length body0) = Some p"
        by (auto split: option.splits)
      moreover have "n \<le> length p" if "prefix_octets n asn1 (length body0) = Some p" for p
        using that n by (auto simp: prefix_octets_def length_octets_def split: if_splits)
      ultimately have "has_room h b (length ?pre + length body0)"
        using ln by (intro has_room_less [OF rm]) simp
      with b1(5) False \<open>close bld = Some body0\<close> show False by blast
    qed
    ultimately show ?thesis using b1(2) by (auto simp: tt same_slot_def)
  next
    case True
    with b1 obtain body where body: "close bld = Some body" "contents b1 = ?pre @ body" "\<not> error b1" by auto
    have l1: "len b1 = length ?pre + length body" using arg_cong [OF body(2), of length] by simp
    have sc: "offset c1 = length (pre @ own)" "pending_len_len c1 = n" "pending_is_asn1 c1 = asn1"
      using b1(3) t by (simp_all add: same_slot_def)
    obtain res2 b2 c2 where r2: "flush_prefix h b1 c1 (length (pre @ own) + n) = (res2, b2, c2)"
      by (cases "flush_prefix h b1 c1 (length (pre @ own) + n)")
    have body': "contents b1 = (pre @ own) @ ph @ body" using body by simp
    note fp = flush_prefix_spec [OF confined_ok [OF b1(2)] body(3) body' t(6) sc n(3,2) r2]
    have "(res, bs', t') = (if res2 then (True, Some b2, CBB None off pll as isc)
        else (False, Some (b2\<lparr>error := True\<rparr>), CBB (Some c2) off pll as isc))"
      using Open.prems(2,5) r1 b1(1) t n True l1 ln r2 p64 sc(1)
      by (auto simp: tt Let_def add.assoc)
    then show ?thesis using fp b1(2) body(1) has_room_confined [OF _ b1(2)]
      by (auto simp: tt same_slot_def add.assoc split: if_splits intro: confined_trans)
  qed
qed

section \<open>Operations on builders\<close>

text \<open>
  \<open>holds s pre bld\<close>: the handle \<open>s\<close> stands for the builder \<open>bld\<close>, whose bytes follow \<open>pre\<close> in the
  buffer. \<open>extent\<close> is the space a builder takes there.
\<close>

definition holds :: "cbb \<Rightarrow> u8 list \<Rightarrow> builder \<Rightarrow> bool" where
  "holds s pre bld \<longleftrightarrow> (\<exists>b bs. fst s = Some b \<and> buffer_ok b \<and> \<not> error b \<and> contents b = pre @ bs \<and>
    builds (snd s) (length pre) bs bld)"

fun extent :: "builder \<Rightarrow> nat" where
  "extent (Closed own) = length own"
| "extent (Open own n asn1 bld) = length own + n + extent bld"

definition valid :: "cbb \<Rightarrow> u8 list \<Rightarrow> bool" where
  "valid s pre \<longleftrightarrow> (\<exists>b. fst s = Some b \<and> error b) \<or> (\<exists>bld. holds s pre bld)"

text \<open>
  The outcome of an operation whose abstract effect is \<open>tgt\<close>: on success the handle stands for it;
  it does succeed when the effect exists and there is room; and a failure leaves the handle
  standing for a builder or the buffer marked as failed.
\<close>

definition outcome :: "heap_env \<Rightarrow> cbb \<Rightarrow> cbb_res \<Rightarrow> u8 list \<Rightarrow> builder option \<Rightarrow> bool" where
  "outcome h s r pre tgt \<longleftrightarrow> (\<exists>b b'. fst s = Some b \<and> fst (snd r) = Some b' \<and> confined h b b' \<and>
    same_slot (snd s) (snd (snd r)) \<and> valid (snd r) pre \<and>
    (fst r \<longrightarrow> (\<exists>bld'. tgt = Some bld' \<and> holds (snd r) pre bld')) \<and>
    (\<forall>bld'. tgt = Some bld' \<longrightarrow> has_room h b (length pre + extent bld') \<longrightarrow> fst r))"

definition refines :: "heap_env \<Rightarrow> (cbb \<Rightarrow> cbb_res) \<Rightarrow> (builder \<Rightarrow> builder option) \<Rightarrow> bool" where
  "refines h op tr \<longleftrightarrow> (\<forall>s pre bld. holds s pre bld \<longrightarrow> outcome h s (op s) pre (tr bld))"

definition a_write :: "u8 list option \<Rightarrow> builder \<Rightarrow> builder option" where
  "a_write out bld = (case (close bld, out) of (Some body, Some e) \<Rightarrow> Some (Closed (body @ e)) | _ \<Rightarrow> None)"

definition a_open :: "u8 list \<Rightarrow> nat \<Rightarrow> bool \<Rightarrow> builder \<Rightarrow> builder option" where
  "a_open pre n asn1 bld = map_option (\<lambda>body. Open (body @ pre) n asn1 (Closed [])) (close bld)"

fun a_child :: "(builder \<Rightarrow> builder option) \<Rightarrow> builder \<Rightarrow> builder option" where
  "a_child tr (Closed own) = None"
| "a_child tr (Open own n asn1 bld) = map_option (Open own n asn1) (tr bld)"

lemma same_slot_refl [simp]: "same_slot t t"
  by (simp add: same_slot_def)

lemma same_slot_trans: "same_slot a b \<Longrightarrow> same_slot b c \<Longrightarrow> same_slot a c"
  by (simp add: same_slot_def)

lemma same_slot_set_child [simp]: "same_slot t (set_child t' ch) = same_slot t t'"
  by (simp add: same_slot_def set_child_def)

lemma child_set_child [simp]: "child (set_child t ch) = ch"
  by (simp add: set_child_def)

lemma holds_Closed:
  "holds (Some b, t) pre (Closed own) \<longleftrightarrow> buffer_ok b \<and> \<not> error b \<and> contents b = pre @ own \<and> child t = None"
  by (auto simp: holds_def)

text \<open>The pending child of an open builder, and back.\<close>

lemma holds_Open:
  assumes "holds (Some b, t) pre (Open own n asn1 bld)"
  obtains c ph where "child t = Some c" "holds (Some b, c) (pre @ own @ ph) bld" "length ph = n"
    "offset c = length pre + length own" "pending_len_len c = n" "pending_is_asn1 c = asn1"
    "0 < n" "n \<le> 8" "asn1 \<longrightarrow> n = 1"
  using assms by (auto simp: holds_def add.assoc)

lemma holds_OpenI:
  assumes "holds (Some b, c) (pre @ own @ ph) bld" "length ph = n" "offset c = length pre + length own"
    "pending_len_len c = n" "pending_is_asn1 c = asn1" "0 < n" "n \<le> 8" "asn1 \<longrightarrow> n = 1" "child t = Some c"
  shows "holds (Some b, t) pre (Open own n asn1 bld)"
  using assms by (auto simp: holds_def add.assoc)

lemma holds_valid: "holds s pre bld \<Longrightarrow> valid s pre"
  by (auto simp: valid_def)

fun wf :: "builder \<Rightarrow> bool" where
  "wf (Closed own) = True"
| "wf (Open own n asn1 bld) = ((asn1 \<longrightarrow> n = 1) \<and> wf bld)"

lemma builds_wf: "builds t start bs bld \<Longrightarrow> wf bld"
  by (induction bld arbitrary: t start bs) auto

lemma holds_wf: "holds s pre bld \<Longrightarrow> wf bld"
  by (auto simp: holds_def intro: builds_wf)

lemma length_prefix_octets: "prefix_octets n asn1 k = Some p \<Longrightarrow> asn1 \<longrightarrow> n = 1 \<Longrightarrow> n \<le> length p"
  by (auto simp: prefix_octets_def length_octets_def split: if_splits)

lemma close_extent: "wf bld \<Longrightarrow> close bld = Some body \<Longrightarrow> extent bld \<le> length body"
proof (induction bld arbitrary: body)
  case (Open own n asn1 bld)
  then obtain body0 p where "close bld = Some body0" "prefix_octets n asn1 (length body0) = Some p" "body = own @ p @ body0"
    by (auto split: option.splits)
  with Open length_prefix_octets [of n asn1 "length body0" p] show ?case by fastforce
qed simp

lemma refinesD: "refines h op tr \<Longrightarrow> holds s pre bld \<Longrightarrow> outcome h s (op s) pre (tr bld)"
  unfolding refines_def by blast

text \<open>Operations in sequence.\<close>

lemma outcome_then:
  assumes o1: "outcome h s r pre t1"
    and 2: "\<And>s1 bld1. r = (True, s1) \<Longrightarrow> t1 = Some bld1 \<Longrightarrow> holds s1 pre bld1 \<Longrightarrow> outcome h s1 (op2 s1) pre t2"
    and grow: "\<And>b2. t2 = Some b2 \<Longrightarrow> \<exists>b1. t1 = Some b1 \<and> extent b1 \<le> extent b2"
  shows "outcome h s (cbb_then r op2) pre t2"
proof -
  obtain ok s1 where r: "r = (ok, s1)" by (cases r)
  from o1 r obtain b b1 where b: "fst s = Some b" "fst s1 = Some b1" "confined h b b1" "same_slot (snd s) (snd s1)" "valid s1 pre"
    and yes: "ok \<Longrightarrow> \<exists>bld1. t1 = Some bld1 \<and> holds s1 pre bld1"
    and must: "\<And>bld1. t1 = Some bld1 \<Longrightarrow> has_room h b (length pre + extent bld1) \<Longrightarrow> ok"
    by (auto simp: outcome_def)
  show ?thesis
  proof (cases ok)
    case False
    have "\<not> has_room h b (length pre + extent b2)" if "t2 = Some b2" for b2
      using grow [OF that] must False has_room_less by (metis add_le_cancel_left)
    with False b r show ?thesis by (auto simp: outcome_def cbb_then_def)
  next
    case True
    with yes obtain bld1 where t1: "t1 = Some bld1" "holds s1 pre bld1" by blast
    with 2 True r have "outcome h s1 (op2 s1) pre t2" by simp
    with t1 True b r show ?thesis
      by (auto simp: outcome_def cbb_then_def intro: confined_trans same_slot_trans dest: has_room_confined)
  qed
qed

lemma refines_then:
  assumes 1: "refines h op1 tr1" and 2: "refines h op2 tr2"
    and grow: "\<And>bld b1 b2. wf bld \<Longrightarrow> tr1 bld = Some b1 \<Longrightarrow> tr2 b1 = Some b2 \<Longrightarrow> extent b1 \<le> extent b2"
  shows "refines h (\<lambda>s. cbb_then (op1 s) op2) (\<lambda>bld. Option.bind (tr1 bld) tr2)"
  unfolding refines_def
proof (intro allI impI)
  fix s pre bld assume hs: "holds s pre bld"
  show "outcome h s (cbb_then (op1 s) op2) pre (Option.bind (tr1 bld) tr2)"
    by (rule outcome_then [OF refinesD [OF 1 hs]])
       (auto simp: bind_eq_Some_conv intro: refinesD [OF 2] grow [OF holds_wf [OF hs]])
qed

lemma refines_in_child:
  assumes "refines h op tr"
  shows "refines h (in_child op) (a_child tr)"
  unfolding refines_def
proof (intro allI impI)
  fix s pre bld assume hs: "holds s pre bld"
  then obtain b t where s: "s = (Some b, t)" by (cases s) (auto simp: holds_def)
  show "outcome h s (in_child op s) pre (a_child tr bld)"
  proof (cases bld)
    case (Closed own)
    with hs have "in_child op s = (False, s)" "buffer_ok b" by (auto simp: s holds_Closed in_child_def)
    with hs Closed show ?thesis by (auto simp: outcome_def s confined_refl intro: holds_valid)
  next
    case (Open own n asn1 bld0)
    from hs obtain c ph where c: "child t = Some c" "holds (Some b, c) (pre @ own @ ph) bld0" "length ph = n"
        "offset c = length pre + length own" "pending_len_len c = n" "pending_is_asn1 c = asn1"
        "0 < n" "n \<le> 8" "asn1 \<longrightarrow> n = 1"
      unfolding s Open by (rule holds_Open)
    obtain ok b1' c1 where r: "op (Some b, c) = (ok, (b1', c1))" by (cases "op (Some b, c)") auto
    from assms c(2) have "outcome h (Some b, c) (op (Some b, c)) (pre @ own @ ph) (tr bld0)" by (rule refinesD)
    then obtain b1 where o: "b1' = Some b1" "confined h b b1" "same_slot c c1" "valid (Some b1, c1) (pre @ own @ ph)"
      and yes: "ok \<Longrightarrow> \<exists>bld'. tr bld0 = Some bld' \<and> holds (Some b1, c1) (pre @ own @ ph) bld'"
      and must: "\<And>bld'. tr bld0 = Some bld' \<Longrightarrow> has_room h b (length (pre @ own @ ph) + extent bld') \<Longrightarrow> ok"
      by (auto simp: outcome_def r)
    have up: "holds (Some b1, set_child t (Some c1)) pre (Open own n asn1 bld')"
      if "holds (Some b1, c1) (pre @ own @ ph) bld'" for bld'
      using that c o(3) by (intro holds_OpenI [of b1 c1]) (simp_all add: same_slot_def)
    have "valid (Some b1, set_child t (Some c1)) pre"
      using o(4) up by (auto simp: valid_def)
    then show ?thesis using o yes must up c(1,3)
      by (auto simp: outcome_def s r in_child_def Open add.assoc)
  qed
qed

lemma flush_refines: "refines h (CBB_flush h) (a_write (Some []))"
  unfolding refines_def
proof (intro allI impI)
  fix s pre bld assume "holds s pre bld"
  then obtain b t bs where s: "s = (Some b, t)" and b: "buffer_ok b" "\<not> error b" "contents b = pre @ bs"
      "builds t (length pre) bs bld"
    by (cases s) (auto simp: holds_def)
  obtain ok bs' t' where r: "CBB_flush_st h (Some b) t = (ok, bs', t')" by (cases "CBB_flush_st h (Some b) t")
  from flush_st_spec [OF b r] obtain b' where b': "bs' = Some b'" "confined h b b'" "same_slot t t'"
     "if ok then \<not> error b' \<and> child t' = None \<and> (\<exists>body. close bld = Some body \<and> contents b' = pre @ body) else error b'"
     "\<forall>body. close bld = Some body \<longrightarrow> has_room h b (length pre + length body) \<longrightarrow> ok" by blast
  have ok': "buffer_ok b'" using b'(2) by (rule confined_ok)
  show "outcome h s (CBB_flush h s) pre (a_write (Some []) bld)"
  proof (cases ok)
    case True
    with b' obtain body where body: "close bld = Some body" "contents b' = pre @ body" "\<not> error b'" "child t' = None" by auto
    then have "holds (Some b', t') pre (Closed body)" using ok' by (simp add: holds_Closed)
    with True body b' show ?thesis
      by (auto simp: outcome_def CBB_flush_def s r a_write_def intro: holds_valid)
  next
    case False
    with b' show ?thesis
      by (auto simp: outcome_def CBB_flush_def s r a_write_def valid_def split: option.splits)
  qed
qed

text \<open>An operation on a flushed \<open>CBB\<close>, after the flush that every operation starts with.\<close>

lemma refines_after_flush:
  assumes op: "\<And>s pre own. holds s pre (Closed own) \<Longrightarrow> outcome h s (op s) pre (tr own)"
    and grow: "\<And>own b2. tr own = Some b2 \<Longrightarrow> length own \<le> extent b2"
  shows "refines h (\<lambda>s. cbb_then (CBB_flush h s) op) (\<lambda>bld. Option.bind (close bld) tr)"
proof -
  let ?tr2 = "\<lambda>b. case b of Closed own \<Rightarrow> tr own | _ \<Rightarrow> None"
  let ?op = "\<lambda>s. if child (snd s) = None then op s else (False, s)"
  have e: "(\<lambda>bld. Option.bind (close bld) tr) = (\<lambda>bld. Option.bind (a_write (Some []) bld) ?tr2)"
    by (rule ext) (simp add: a_write_def split: option.split)
  have "refines h ?op ?tr2"
    unfolding refines_def
  proof (intro allI impI)
    fix s pre bld assume hs: "holds s pre bld"
    show "outcome h s (?op s) pre (?tr2 bld)"
    proof (cases bld)
      case (Closed own)
      with hs have "child (snd s) = None" by (auto simp: holds_def)
      with op hs Closed show ?thesis by simp
    next
      case (Open own n asn1 bld0)
      with hs have "child (snd s) \<noteq> None" by (auto simp: holds_def)
      with hs Open show ?thesis by (auto simp: outcome_def holds_def confined_refl intro: holds_valid [OF hs])
    qed
  qed
  then have "refines h (\<lambda>s. cbb_then (CBB_flush h s) ?op) (\<lambda>bld. Option.bind (a_write (Some []) bld) ?tr2)"
  proof (rule refines_then [OF flush_refines])
    fix bld b1 b2 assume "a_write (Some []) bld = Some b1" "?tr2 b1 = Some b2"
    then show "extent b1 \<le> extent b2" using grow by (auto simp: a_write_def split: option.splits)
  qed
  then have r: "refines h (\<lambda>s. cbb_then (CBB_flush h s) ?op) (\<lambda>bld. Option.bind (close bld) tr)" by (simp add: e)
  show ?thesis
    unfolding refines_def
  proof (intro allI impI)
    fix s pre bld assume hs: "holds s pre bld"
    obtain ok s1 where f: "CBB_flush h s = (ok, s1)" by (cases "CBB_flush h s")
    have "cbb_then (CBB_flush h s) ?op = cbb_then (CBB_flush h s) op"
    proof (cases ok)
      case True
      with f have "child (snd s1) = None"
        using refinesD [OF flush_refines hs, of h] by (auto simp: outcome_def a_write_def holds_def split: option.splits)
      with f True show ?thesis by (simp add: cbb_then_def)
    next
      case False
      with f show ?thesis by (simp add: cbb_then_def)
    qed
    with refinesD [OF r hs] show "outcome h s (cbb_then (CBB_flush h s) op) pre (Option.bind (close bld) tr)" by simp
  qed
qed

lemma a_write_bind: "a_write out = (\<lambda>bld. Option.bind (close bld) (\<lambda>own. map_option (\<lambda>e. Closed (own @ e)) out))"
  by (rule ext) (simp add: a_write_def split: option.split)

lemma a_open_bind: "a_open p n asn1 = (\<lambda>bld. Option.bind (close bld) (\<lambda>own. Some (Open (own @ p) n asn1 (Closed []))))"
  by (rule ext) (simp add: a_open_def map_option_case bind_split split: option.split)

lemma same_slot_child_None: "child t = None \<Longrightarrow> child t' = None \<Longrightarrow> same_slot t t' \<Longrightarrow> t' = t"
  by (cases t; cases t') (simp add: same_slot_def)

text \<open>Adding \<open>n\<close> bytes of space to a flushed builder.\<close>

lemma add_space_holds:
  assumes hs: "holds (Some b, t) pre (Closed own)" and n: "n < SIZE_T"
    and r: "cbb_buffer_add h (Some b) n = (ok, bs', out)"
  obtains (no) b' where "\<not> ok" "bs' = Some b'" "error b'" "confined h b b'" "\<not> has_room h b (length (pre @ own) + n)"
    | (yes) b' xs where "ok" "bs' = Some b'" "out = length (pre @ own)" "confined h b b'" "length xs = n"
        "contents b' = pre @ own @ xs" "len b' = length (pre @ own) + n" "holds (Some b', t) pre (Closed (own @ xs))"
proof -
  from hs have b: "buffer_ok b" "\<not> error b" "contents b = pre @ own" "child t = None" by (auto simp: holds_Closed)
  have l: "len b = length (pre @ own)" using arg_cong [OF b(3), of length] by simp
  show thesis
  proof (rule add_spec [OF b(1) n r])
    fix b' assume "\<not> ok" "bs' = Some b'" "error b'" "confined h b b'" "\<not> has_room h b (len b + n)"
    then show thesis using no l by simp
  next
    fix b' xs assume y: "ok" "bs' = Some b'" "out = len b" "confined h b b'" "len b' = len b + n"
      "error b' = error b" "contents b' = contents b @ xs" "length xs = n"
    then have "holds (Some b', t) pre (Closed (own @ xs))" using b confined_ok [OF y(4)] by (simp add: holds_Closed)
    then show thesis using y b l yes by simp
  qed
qed

lemma add_bytes_refines:
  assumes "length bs < SIZE_T"
  shows "refines h (\<lambda>s. CBB_add_bytes h s bs) (a_write (Some bs))"
  unfolding CBB_add_bytes_def a_write_bind
proof (rule refines_after_flush)
  fix s pre own assume hs: "holds s pre (Closed own)"
  then obtain b t where s: "s = (Some b, t)" by (cases s) (auto simp: holds_def)
  obtain ok bs' out where r: "cbb_buffer_add h (Some b) (length bs) = (ok, bs', out)" by (cases "cbb_buffer_add h (Some b) (length bs)")
  let ?op = "case cbb_buffer_add h (fst s) (length bs) of
        (True, b, dest) \<Rightarrow> (True, (map_option (\<lambda>b. base_write b dest bs) b, snd s))
      | (False, b, _) \<Rightarrow> (False, (b, snd s))"
  show "outcome h s ?op pre (map_option (\<lambda>e. Closed (own @ e)) (Some bs))"
  proof (rule add_space_holds [OF hs [unfolded s] assms r])
    fix b' assume "\<not> ok" "bs' = Some b'" "error b'" "confined h b b'" "\<not> has_room h b (length (pre @ own) + length bs)"
    then show ?thesis using r by (auto simp: outcome_def s valid_def add.assoc)
  next
    fix b' xs assume y: "ok" "bs' = Some b'" "out = length (pre @ own)" "confined h b b'" "length xs = length bs"
      "contents b' = pre @ own @ xs" "len b' = length (pre @ own) + length bs" "holds (Some b', t) pre (Closed (own @ xs))"
    let ?b = "base_write b' (length (pre @ own)) bs"
    have ok': "buffer_ok b'" using y(4) by (rule confined_ok)
    have "contents ?b = pre @ own @ bs" using y ok' by (subst contents_buf_write) simp_all
    then have h': "holds (Some ?b, t) pre (Closed (own @ bs))" using y(8) ok' by (simp add: holds_Closed)
    have "confined h b ?b" using y ok' by (intro confined_write) (auto simp: buffer_ok_def)
    then show ?thesis using r y h' by (auto simp: outcome_def s intro: holds_valid)
  qed
qed simp

lemma add_u_refines:
  assumes "0 < n" "n \<le> 8"
  shows "refines h (\<lambda>s. cbb_add_u h s v n) (a_write (if unat v < 256 ^ n then Some (be_bytes n (unat v)) else None))"
  unfolding cbb_add_u_def a_write_bind
proof (rule refines_after_flush)
  let ?out = "if unat v < 256 ^ n then Some (be_bytes n (unat v)) else None"
  fix s pre own assume hs: "holds s pre (Closed own)"
  then obtain b t where s: "s = (Some b, t)" by (cases s) (auto simp: holds_def)
  have n: "n < SIZE_T" using assms by (simp add: SIZE_T_def)
  obtain ok bs' out where r: "cbb_buffer_add h (Some b) n = (ok, bs', out)" by (cases "cbb_buffer_add h (Some b) n")
  have zero: "drop_bit (8 * n) v = 0 \<longleftrightarrow> unat v < 256 ^ n" by (rule drop_bytes)
  let ?op = "case cbb_buffer_add_u h (fst s) v n of (ok, b) \<Rightarrow> (ok, (b, snd s))"
  show "outcome h s ?op pre (map_option (\<lambda>e. Closed (own @ e)) ?out)"
  proof (rule add_space_holds [OF hs [unfolded s] n r])
    fix b' assume "\<not> ok" "bs' = Some b'" "error b'" "confined h b b'" "\<not> has_room h b (length (pre @ own) + n)"
    then show ?thesis using r assms by (auto simp: outcome_def s valid_def add.assoc cbb_buffer_add_u_def split: if_splits)
  next
    fix b' xs assume y: "ok" "bs' = Some b'" "out = length (pre @ own)" "confined h b b'" "length xs = n"
      "contents b' = pre @ own @ xs" "len b' = length (pre @ own) + n" "holds (Some b', t) pre (Closed (own @ xs))"
    have ok': "buffer_ok b'" using y(4) by (rule confined_ok)
    have "contents b' = (pre @ own) @ xs @ []" using y by simp
    from put_be_spec [OF ok' this y(5), of v] y(4,8)
    obtain b2 where b2: "put_be b' (length (pre @ own)) n v = (b2, drop_bit (8 * n) v)"
        "contents b2 = pre @ own @ be_bytes n (unat v)" "\<not> error b2" "buffer_ok b2" "confined h b b2"
      by (auto simp: holds_Closed)
    then have "holds (Some b2, t) pre (Closed (own @ be_bytes n (unat v)))" using y(8) by (simp add: holds_Closed)
    then show ?thesis using r y b2 assms zero
      by (auto simp: outcome_def s cbb_buffer_add_u_def valid_def intro: holds_valid)
  qed
qed (auto split: if_splits)

lemma add_length_prefixed_refines:
  assumes "0 < n" "n \<le> 8"
  shows "refines h (\<lambda>s. cbb_add_length_prefixed h s n) (a_open [] n False)"
  unfolding cbb_add_length_prefixed_def a_open_bind
proof (rule refines_after_flush)
  fix s pre own assume hs: "holds s pre (Closed own)"
  then obtain b t where s: "s = (Some b, t)" by (cases s) (auto simp: holds_def)
  have n: "n < SIZE_T" using assms by (simp add: SIZE_T_def)
  have l: "len b = length (pre @ own)" using hs unfolding s holds_Closed by (metis length_contents)
  obtain ok bs' out where r: "cbb_buffer_add h (Some b) n = (ok, bs', out)" by (cases "cbb_buffer_add h (Some b) n")
  let ?op = "case fst s of None \<Rightarrow> (False, s)
    | Some b \<Rightarrow> let off = len b in (case cbb_buffer_add h (Some b) n of
         (True, b, prefix_bytes) \<Rightarrow>
           (True, (map_option (\<lambda>b. base_write b prefix_bytes (replicate n 0)) b,
             set_child (snd s) (Some (CBB None off n False True))))
       | (False, b, _) \<Rightarrow> (False, (b, snd s)))"
  show "outcome h s ?op pre (Some (Open (own @ []) n False (Closed [])))"
  proof (rule add_space_holds [OF hs [unfolded s] n r])
    fix b' assume "\<not> ok" "bs' = Some b'" "error b'" "confined h b b'" "\<not> has_room h b (length (pre @ own) + n)"
    then show ?thesis using r by (auto simp: outcome_def s valid_def add.assoc)
  next
    fix b' xs assume y: "ok" "bs' = Some b'" "out = length (pre @ own)" "confined h b b'" "length xs = n"
      "contents b' = pre @ own @ xs" "len b' = length (pre @ own) + n" "holds (Some b', t) pre (Closed (own @ xs))"
    let ?b = "base_write b' (length (pre @ own)) (replicate n 0)"
    let ?c = "CBB None (len b) n False True"
    have ok': "buffer_ok b'" using y(4) by (rule confined_ok)
    have c: "contents ?b = pre @ own @ replicate n 0" using y ok' by (subst contents_buf_write) simp_all
    have cf: "confined h b ?b" using y ok' by (intro confined_write) (auto simp: buffer_ok_def)
    have "holds (Some ?b, ?c) (pre @ own @ replicate n 0) (Closed [])"
      using c ok' y(8) by (simp add: holds_Closed)
    then have "holds (Some ?b, set_child t (Some ?c)) pre (Open own n False (Closed []))"
      by (rule holds_OpenI) (use assms l in simp_all)
    then show ?thesis using r y cf by (auto simp: outcome_def s intro: holds_valid)
  qed
qed simp

lemma write_then_write:
  assumes "refines h op1 (a_write (Some e1))" "refines h op2 (a_write (Some e2))"
  shows "refines h (\<lambda>s. cbb_then (op1 s) op2) (a_write (Some (e1 @ e2)))"
proof -
  have "(\<lambda>bld. Option.bind (a_write (Some e1) bld) (a_write (Some e2))) = a_write (Some (e1 @ e2))"
    by (rule ext) (simp add: a_write_def split: option.split)
  moreover have "refines h (\<lambda>s. cbb_then (op1 s) op2) (\<lambda>bld. Option.bind (a_write (Some e1) bld) (a_write (Some e2)))"
    by (rule refines_then [OF assms]) (auto simp: a_write_def split: option.splits)
  ultimately show ?thesis by simp
qed

lemma be_bytes_1: "n < 256 \<Longrightarrow> be_bytes 1 n = [of_nat n]"
  by (simp add: be_bytes_def)

lemma add_u8_refines: "refines h (\<lambda>s. CBB_add_u8 h s v) (a_write (Some [v]))"
proof -
  have "refines h (\<lambda>s. cbb_add_u h s (ucast v) 1)
      (a_write (if unat (ucast v :: u64) < 256 ^ 1 then Some (be_bytes 1 (unat (ucast v :: u64))) else None))"
    by (rule add_u_refines) simp_all
  then show ?thesis using be_bytes_1 [OF unat_lt_u8 [of v]] by (simp add: CBB_add_u8_def unat_ucast_8_64)
qed

text \<open>Base-128 integers.\<close>

definition digit_byte :: "nat \<Rightarrow> nat \<Rightarrow> u8" where
  "digit_byte n i = (if i \<noteq> 0 then of_nat (n div 128 ^ i mod 128) OR 0x80 else of_nat (n div 128 ^ i mod 128))"

lemma digit_byte_eq:
  "(let byte = ucast (drop_bit (7 * i) v AND 0x7f) in if i \<noteq> 0 then byte OR 0x80 else byte) = digit_byte (unat (v :: u64)) i"
proof -
  let ?d = "unat v div 128 ^ i mod 128"
  have p: "(2 :: nat) ^ (7 * i) = 128 ^ i" by (simp add: power_mult)
  have u: "unat (drop_bit (7 * i) v AND 0x7f) = ?d" by (simp only: unat_and_7F unat_drop_bit p)
  have "?d < 128" by simp
  then have "?d < 256" by linarith
  then have "unat (ucast (drop_bit (7 * i) v AND 0x7f) :: u8) = ?d" by (simp only: unat_ucast_mod u) simp
  then have "(ucast (drop_bit (7 * i) v AND 0x7f) :: u8) = of_nat ?d" by (rule word_eq_of_unat)
  then show ?thesis by (simp only: Let_def digit_byte_def)
qed

lemma cbb_then_True [simp]: "cbb_then r (\<lambda>s. (True, s)) = r"
  by (auto simp: cbb_then_def split: prod.split)

lemma base128_put_refines:
  "refines h (\<lambda>s. base128_put h s v (Suc n)) (a_write (Some (map (digit_byte (unat v)) (rev [0..<Suc n]))))"
proof (induction n)
  case 0
  then show ?case using add_u8_refines [of h "digit_byte (unat v) 0"] digit_byte_eq [of 0 v] by simp
next
  case (Suc n)
  have "refines h (\<lambda>s. cbb_then (CBB_add_u8 h s (digit_byte (unat v) (Suc n))) (\<lambda>s. base128_put h s v (Suc n)))
     (a_write (Some ([digit_byte (unat v) (Suc n)] @ map (digit_byte (unat v)) (rev [0..<Suc n]))))"
    by (rule write_then_write [OF add_u8_refines Suc])
  then show ?case using digit_byte_eq [of "Suc n" v] by (simp del: base128_put.simps(2) add: base128_put.simps(2) [of _ _ _ "Suc n"])
qed

lemma base128_len_nat: "base128_len_loop v = length (base128_high (unat v))"
proof (induction v rule: base128_len_loop.induct)
  case (1 v)
  have "v > 0 \<longleftrightarrow> unat v \<noteq> 0" by (simp add: word_lt_unat)
  then show ?case using 1
    by (subst base128_len_loop.simps, subst base128_high.simps) (auto simp: unat_drop_bit)
qed

lemma rev_upt_Suc: "rev [0..<Suc m] = map Suc (rev [0..<m]) @ [0]"
proof -
  have "[0..<Suc m] = 0 # map Suc [0..<m]" by (simp only: map_Suc_upt upt_conv_Cons zero_less_Suc)
  then show ?thesis by (simp only: rev.simps rev_map)
qed

lemma base128_high_map: "base128_high n = map (\<lambda>i. of_nat (n div 128 ^ i mod 128) OR 0x80) (rev [0..<length (base128_high n)])"
proof (induction n rule: base128_high.induct)
  case (1 n)
  show ?case
  proof (cases "n = 0")
    case True
    then show ?thesis by (simp add: base128_high.simps)
  next
    case False
    let ?m = "length (base128_high (n div 128))"
    have l: "length (base128_high n) = Suc ?m" using False by (simp add: base128_high.simps [of n])
    have r: "rev [0..<Suc ?m] = map Suc (rev [0..<?m]) @ [0]"
      by (rule rev_upt_Suc)
    have "map (\<lambda>i. of_nat (n div 128 ^ i mod 128) OR 0x80) (rev [0..<Suc ?m]) =
        map (\<lambda>i. of_nat (n div 128 div 128 ^ i mod 128) OR 0x80) (rev [0..<?m]) @ [of_nat (n mod 128) OR (0x80 :: u8)]"
      unfolding r by (simp add: div_mult2_eq)
    also have "\<dots> = base128_high n" using False 1 by (simp add: base128_high.simps [of n])
    finally show ?thesis by (simp only: l)
  qed
qed

lemma base128_map: "base128 n = map (digit_byte n) (rev [0..<Suc (length (base128_high (n div 128)))])"
proof -
  let ?m = "length (base128_high (n div 128))"
  have r: "rev [0..<Suc ?m] = map Suc (rev [0..<?m]) @ [0]"
    by (rule rev_upt_Suc)
  have "map (digit_byte n) (rev [0..<Suc ?m]) =
      map (\<lambda>i. of_nat (n div 128 div 128 ^ i mod 128) OR 0x80) (rev [0..<?m]) @ [of_nat (n mod 128)]"
    unfolding r by (simp add: digit_byte_def div_mult2_eq)
  also have "\<dots> = base128 n" by (simp add: base128_def base128_high_map [symmetric])
  finally show ?thesis by simp
qed

lemma add_base128_refines: "refines h (\<lambda>s. add_base128_integer h s v) (a_write (Some (base128 (unat v))))"
proof -
  let ?m = "length (base128_high (unat v div 128))"
  have "(let len_len = base128_len_loop v in if len_len = 0 then 1 else len_len) = Suc ?m"
    by (cases "unat v = 0") (simp_all add: Let_def base128_len_nat base128_high.simps [of "unat v"] base128_high.simps [of 0])
  then have "add_base128_integer h s v = base128_put h s v (Suc ?m)" for s
    by (simp add: add_base128_integer_def Let_def del: base128_put.simps)
  then show ?thesis using base128_put_refines [of h v ?m] by (simp only: base128_map)
qed

section \<open>ASN.1 elements\<close>

lemma tag_bits_octet:
  "unat (ucast (drop_bit CBS_ASN1_TAG_SHIFT t) AND 0xe0 :: u8) = tag_class t * 32"
proof -
  have "unat t div 2 ^ 24 < 256" using unat_lt_u32 [of t] by (simp add: div_less_iff_less_mult)
  then have u: "unat (ucast (drop_bit 24 t) :: u8) = unat t div 2 ^ 24"
    by (simp add: unat_ucast_mod unat_drop_bit)
  have "unat (ucast (drop_bit 24 t) AND 0xe0 :: u8) = unat t div 2 ^ 24 div 32 * 32"
    using nat_and_e0 [OF unat_lt_u8 [of "ucast (drop_bit 24 t)"]] by (simp add: unsigned_and_eq u)
  then show ?thesis by (simp add: CBS_ASN1_TAG_SHIFT_def tag_class_def div_mult2_eq [symmetric])
qed

lemma tag_number_and: "unat (t AND CBS_ASN1_TAG_NUMBER_MASK) = tag_number t"
proof -
  have "t AND CBS_ASN1_TAG_NUMBER_MASK = take_bit 29 t"
    by (simp add: CBS_ASN1_TAG_NUMBER_MASK_def CBS_ASN1_TAG_SHIFT_def take_bit_eq_mask mask_eq_exp_minus_1)
  then show ?thesis by (simp add: unat_take_bit tag_number_def)
qed

lemma tag_octet_or:
  assumes "n < 32"
  shows "(ucast (drop_bit CBS_ASN1_TAG_SHIFT t) AND 0xe0 :: u8) OR of_nat n = of_nat (tag_class t * 32 + n)"
proof -
  have n: "unat (of_nat n :: u8) = n" using assms by (intro unat_of_nat_eq) simp
  have "unat ((ucast (drop_bit CBS_ASN1_TAG_SHIFT t) AND 0xe0 :: u8) OR of_nat n) = n OR push_bit 5 (tag_class t)"
    by (simp only: unsigned_or_eq tag_bits_octet n) (simp add: push_bit_eq_mult or.commute)
  also have "\<dots> = tag_class t * 32 + n" using nat_or_shift [of n 5 "tag_class t"] assms by simp
  finally show ?thesis by (rule word_eq_of_unat)
qed

text \<open>The identifier octets \<open>CBB_add_asn1\<close> writes.\<close>

lemma add_tag_refines:
  "refines h (\<lambda>s. let tag_bits = (ucast (drop_bit CBS_ASN1_TAG_SHIFT t) AND 0xe0 :: u8);
          tag_number = t AND CBS_ASN1_TAG_NUMBER_MASK in
      if tag_number \<ge> 0x1f
      then cbb_then (CBB_add_u8 h s (tag_bits OR 0x1f)) (\<lambda>s. add_base128_integer h s (ucast tag_number))
      else CBB_add_u8 h s (tag_bits OR ucast tag_number))
    (a_write (Some (tag_octets t)))"
proof -
  let ?n = "t AND CBS_ASN1_TAG_NUMBER_MASK"
  have ge: "?n \<ge> 0x1f \<longleftrightarrow> \<not> tag_number t < 31" by (simp add: word_le_nat_alt tag_number_and not_less)
  show ?thesis
  proof (cases "tag_number t < 31")
    case True
    then have "tag_number t < 256" by simp
    then have "unat (ucast ?n :: u8) = tag_number t" by (simp add: unat_ucast_mod tag_number_and)
    then have "(ucast ?n :: u8) = of_nat (tag_number t)" by (rule word_eq_of_unat)
    then have "(ucast (drop_bit CBS_ASN1_TAG_SHIFT t) AND 0xe0) OR (ucast ?n :: u8) = of_nat (tag_class t * 32 + tag_number t)"
      using tag_octet_or [of "tag_number t" t] True by simp
    then show ?thesis using True add_u8_refines [of h "of_nat (tag_class t * 32 + tag_number t)"]
      by (simp only: Let_def ge tag_octets_def if_True not_True_eq_False if_False)
  next
    case False
    have "(0x1f :: u8) = of_nat 31" by simp
    then have o: "(ucast (drop_bit CBS_ASN1_TAG_SHIFT t) AND 0xe0) OR (0x1f :: u8) = of_nat (tag_class t * 32 + 31)"
      using tag_octet_or [of 31 t] by (simp only: of_nat_numeral)
    have "unat (ucast ?n :: u64) = tag_number t" by (simp only: unat_ucast_u32 tag_number_and)
    then have "refines h (\<lambda>s. add_base128_integer h s (ucast ?n)) (a_write (Some (base128 (tag_number t))))"
      using add_base128_refines [of h "ucast ?n"] by simp
    from write_then_write [OF add_u8_refines this, of "of_nat (tag_class t * 32 + 31)"] False o
    show ?thesis by (simp only: Let_def ge tag_octets_def if_True if_False not_False_eq_True append_Cons append_Nil)
  qed
qed

lemma add_asn1_refines: "refines h (\<lambda>s. CBB_add_asn1 h s t) (a_open (tag_octets t) 1 True)"
proof -
  let ?tag = "\<lambda>s. let tag_bits = (ucast (drop_bit CBS_ASN1_TAG_SHIFT t) AND 0xe0 :: u8);
          tag_number = t AND CBS_ASN1_TAG_NUMBER_MASK in
      if tag_number \<ge> 0x1f
      then cbb_then (CBB_add_u8 h s (tag_bits OR 0x1f)) (\<lambda>s. add_base128_integer h s (ucast tag_number))
      else CBB_add_u8 h s (tag_bits OR ucast tag_number)"
  let ?open = "\<lambda>s. case fst s of None \<Rightarrow> (False, s)
    | Some b \<Rightarrow> let off = len b in
        cbb_then (CBB_add_u8 h s 0) (\<lambda>s. (True, (fst s, set_child (snd s) (Some (CBB None off 1 True True)))))"
  have op: "CBB_add_asn1 h = (\<lambda>s t. CBB_add_asn1 h s t)" by simp
  have "outcome h s (cbb_then (?tag s) ?open) pre (Some (Open (own @ tag_octets t) 1 True (Closed [])))"
    if hs: "holds s pre (Closed own)" for s pre own
  proof (rule outcome_then [OF refinesD [OF add_tag_refines hs]])
    fix s1 bld1 assume "a_write (Some (tag_octets t)) (Closed own) = Some bld1" "holds s1 pre bld1"
    then have h1: "holds s1 pre (Closed (own @ tag_octets t))" by (simp add: a_write_def)
    then obtain b1 t1 where s1: "s1 = (Some b1, t1)" by (cases s1) (auto simp: holds_def)
    let ?own = "own @ tag_octets t"
    have l: "len b1 = length (pre @ ?own)" using h1 unfolding s1 holds_Closed by (metis length_contents)
    have o: "outcome h s1 (CBB_add_u8 h s1 0) pre (Some (Closed (?own @ [0])))"
      using refinesD [OF add_u8_refines h1, of h 0] by (simp add: a_write_def)
    obtain ok b2 t2 where r: "CBB_add_u8 h s1 0 = (ok, (b2, t2))" by (cases "CBB_add_u8 h s1 0") auto
    let ?c = "CBB None (len b1) 1 True True"
    show "outcome h s1 (?open s1) pre (Some (Open ?own 1 True (Closed [])))"
    proof (cases ok)
      case False
      then show ?thesis using o r by (auto simp: outcome_def s1 cbb_then_def)
    next
      case True
      with o r obtain b where b: "b2 = Some b" "holds (Some b, t2) pre (Closed (?own @ [0]))" "confined h b1 b" "same_slot t1 t2"
        by (auto simp: outcome_def s1)
      then have "holds (Some b, ?c) (pre @ ?own @ [0]) (Closed [])" by (simp add: holds_Closed)
      then have "holds (Some b, set_child t2 (Some ?c)) pre (Open ?own 1 True (Closed []))"
        by (rule holds_OpenI) (use l in simp_all)
      with b True r show ?thesis by (auto simp: outcome_def s1 cbb_then_def intro: holds_valid)
    qed
  qed (simp add: a_write_def)
  then have "refines h (\<lambda>s. cbb_then (CBB_flush h s) (\<lambda>s. cbb_then (?tag s) ?open))
      (\<lambda>bld. Option.bind (close bld) (\<lambda>own. Some (Open (own @ tag_octets t) 1 True (Closed []))))"
    by (rule refines_after_flush) simp_all
  then show ?thesis unfolding a_open_bind CBB_add_asn1_def Let_def .
qed

text \<open>Filling a pending child, then flushing it.\<close>

lemma fill_refines:
  assumes opener: "refines h op1 (a_open pre n asn1)" and wf1: "asn1 \<longrightarrow> n = 1"
    and filler: "refines h op2 (a_write (Some e))"
    and k: "prefix_octets n asn1 (length e) = Some p"
  shows "refines h (\<lambda>s. cbb_then (op1 s) (\<lambda>s. cbb_then (in_child op2 s) (CBB_flush h))) (a_write (Some (pre @ p @ e)))"
proof -
  have f: "refines h (\<lambda>s. cbb_then (in_child op2 s) (CBB_flush h))
      (\<lambda>bld. Option.bind (a_child (a_write (Some e)) bld) (a_write (Some [])))"
  proof (rule refines_then [OF refines_in_child [OF filler] flush_refines])
    fix bld b1 b2 assume w: "wf bld" and b: "a_child (a_write (Some e)) bld = Some b1" "a_write (Some []) b1 = Some b2"
    then have "wf b1" by (cases bld) (auto simp: a_write_def split: option.splits)
    with b(2) show "extent b1 \<le> extent b2" by (auto simp: a_write_def split: option.splits dest: close_extent)
  qed
  have "refines h (\<lambda>s. cbb_then (op1 s) (\<lambda>s. cbb_then (in_child op2 s) (CBB_flush h)))
      (\<lambda>bld. Option.bind (a_open pre n asn1 bld) (\<lambda>bld. Option.bind (a_child (a_write (Some e)) bld) (a_write (Some []))))"
  proof (rule refines_then [OF opener f])
    fix bld b1 b2 assume "a_open pre n asn1 bld = Some b1"
      "Option.bind (a_child (a_write (Some e)) b1) (a_write (Some [])) = Some b2"
    then show "extent b1 \<le> extent b2" using k length_prefix_octets [OF k wf1]
      by (auto simp: a_open_def a_write_def)
  qed
  moreover have "(\<lambda>bld. Option.bind (a_open pre n asn1 bld) (\<lambda>bld. Option.bind (a_child (a_write (Some e)) bld) (a_write (Some [])))) =
      a_write (Some (pre @ p @ e))"
    using k by (intro ext) (simp add: a_open_def a_write_def split: option.split)
  ultimately show ?thesis by simp
qed

lemma prefix_asn1: "k \<le> 0xfffffffe \<Longrightarrow> prefix_octets 1 True k = Some (length_octets k)"
  by (simp add: prefix_octets_def)

text \<open>
  The interface of everything that appends a fixed byte string: under it, writers compose, and a
  fresh builder that runs one and is finished yields exactly its bytes.
\<close>

locale cbb_writer =
  fixes h :: heap_env and op :: "cbb \<Rightarrow> cbb_res" and out :: "u8 list"
  assumes writes: "refines h op (a_write (Some out))"
begin

lemma in_element:
  "length out \<le> 0xfffffffe \<Longrightarrow>
   refines h (\<lambda>s. cbb_then (CBB_add_asn1 h s t) (\<lambda>s. cbb_then (in_child op s) (CBB_flush h)))
     (a_write (Some (der_element t out)))"
  unfolding der_element_def by (rule fill_refines [OF add_asn1_refines _ writes prefix_asn1]) simp

lemma length_prefixed:
  "0 < n \<Longrightarrow> n \<le> 8 \<Longrightarrow> length out < 256 ^ n \<Longrightarrow>
   refines h (\<lambda>s. cbb_then (cbb_add_length_prefixed h s n) (\<lambda>s. cbb_then (in_child op s) (CBB_flush h)))
     (a_write (Some (be_bytes n (length out) @ out)))"
  using fill_refines [OF add_length_prefixed_refines _ writes, of n "be_bytes n (length out)"]
  by (simp add: prefix_octets_def)

lemma appended:
  assumes "holds s pre bld" "op s = (True, s')"
  obtains body where "close bld = Some body" "holds s' pre (Closed (body @ out))"
  using refinesD [OF writes assms(1)] assms(2) by (auto simp: outcome_def a_write_def split: option.splits)

lemma succeeds:
  assumes "holds s pre bld" "close bld = Some body" "fst s = Some b" "has_room h b (length pre + length body + length out)"
  shows "fst (op s)"
  using refinesD [OF writes assms(1)] assms(2-) by (auto simp: outcome_def a_write_def add.assoc)

end

interpretation flush: cbb_writer h "CBB_flush h" "[]" for h
  by unfold_locales (rule flush_refines)

interpretation u8: cbb_writer h "\<lambda>s. CBB_add_u8 h s v" "[v]" for h v
  by unfold_locales (rule add_u8_refines)

interpretation base128: cbb_writer h "\<lambda>s. add_base128_integer h s v" "base128 (unat v)" for h v
  by unfold_locales (rule add_base128_refines)

lemma writer_bytes: "length bs < SIZE_T \<Longrightarrow> cbb_writer h (\<lambda>s. CBB_add_bytes h s bs) bs"
  by unfold_locales (rule add_bytes_refines)

lemma writer_u: "0 < n \<Longrightarrow> n \<le> 8 \<Longrightarrow> unat v < 256 ^ n \<Longrightarrow> cbb_writer h (\<lambda>s. cbb_add_u h s v n) (be_bytes n (unat v))"
  by unfold_locales (use add_u_refines [of n h v] in simp)

interpretation u16: cbb_writer h "\<lambda>s. CBB_add_u16 h s v" "be_bytes 2 (unat v)" for h v
  using writer_u [of 2 "ucast v :: u64" h] unat_lt2p [of v]
  by (simp add: CBB_add_u16_def unat_ucast_mod)

interpretation u32: cbb_writer h "\<lambda>s. CBB_add_u32 h s v" "be_bytes 4 (unat v)" for h v
  using writer_u [of 4 "ucast v :: u64" h] unat_lt_u32 [of v]
  by (simp add: CBB_add_u32_def unat_ucast_u32)

interpretation u64: cbb_writer h "\<lambda>s. CBB_add_u64 h s v" "be_bytes 8 (unat v)" for h v
  using writer_u [of 8 v h] unat_lt_u64 [of v]
  by (simp add: CBB_add_u64_def)

interpretation bool: cbb_writer h "\<lambda>s. CBB_add_asn1_bool h s v"
  "der_element CBS_ASN1_BOOLEAN [if v \<noteq> 0 then 0xff else 0]" for h v
  unfolding CBB_add_asn1_bool_def by unfold_locales (rule u8.in_element, simp)

lemma writer_octet_string:
  "length bs \<le> 0xfffffffe \<Longrightarrow> cbb_writer h (\<lambda>s. CBB_add_asn1_octet_string h s bs) (der_element CBS_ASN1_OCTETSTRING bs)"
  unfolding CBB_add_asn1_octet_string_def
  by unfold_locales (rule cbb_writer.in_element [OF writer_bytes], simp_all add: SIZE_T_def)

lemma writer_then:
  "cbb_writer h op1 e1 \<Longrightarrow> cbb_writer h op2 e2 \<Longrightarrow> cbb_writer h (\<lambda>s. cbb_then (op1 s) op2) (e1 @ e2)"
  by (simp add: cbb_writer_def write_then_write)

end
