(* ===== verification/Bssl_Integer_Props.thy ===== *)
theory Bssl_Integer_Props
  imports Bssl_Cbb_Props
begin

text \<open>
  ASN.1 values through the builder and the reader: INTEGER, BOOLEAN and OCTET STRING have one
  encoding each, the builder writes it and the reader accepts nothing else.
\<close>

section \<open>Contents octets of an INTEGER\<close>

definition uint_octets :: "nat \<Rightarrow> u8 list" where
  "uint_octets n =
    (let ds = be_bytes (be_len n) n in if n = 0 \<or> 128 \<le> unat (hd ds) then 0 # ds else ds)"

definition minimal :: "u8 list \<Rightarrow> bool" where
  "minimal bs \<longleftrightarrow> bs \<noteq> [] \<and> unat (hd bs) < 128 \<and>
    \<not> (hd bs = 0 \<and> 1 < length bs \<and> unat (bs ! 1) < 128)"

lemma be_len_0 [simp]: "be_len 0 = 0"
  by (simp add: be_len.simps)

lemma be_bytes_0 [simp]: "be_bytes 0 n = []"
  by (simp add: be_bytes_def)

lemma be_len_of_be:
  assumes "bs \<noteq> []" "hd bs \<noteq> 0"
  shows "be_len (of_be bs) = length bs"
proof -
  obtain b cs where bs: "bs = b # cs" using assms by (cases bs) auto
  have "unat b \<noteq> 0" using assms bs by (simp add: unat_eq_0)
  then have "256 ^ length cs \<le> unat b * 256 ^ length cs" by simp
  then have "256 ^ length cs \<le> of_be bs" unfolding bs of_be_Cons by (rule trans_le_add1)
  moreover have "of_be bs < 256 ^ Suc (length cs)" using of_be_bound [of bs] bs by simp
  ultimately show ?thesis using be_len_eq bs by simp
qed

lemma uint_octets_of_be: "minimal bs \<Longrightarrow> uint_octets (of_be bs) = bs"
proof -
  assume m: "minimal bs"
  then obtain b cs where bs: "bs = b # cs" by (cases bs) (auto simp: minimal_def)
  show ?thesis
  proof (cases "b = 0")
    case False
    then have l: "be_len (of_be bs) = length bs" using be_len_of_be [of bs] by (simp add: bs)
    then have "of_be bs \<noteq> 0" using bs by (metis be_len.simps length_0_conv list.distinct(1))
    then show ?thesis using m be_bytes_of_be [of bs] by (simp add: uint_octets_def l minimal_def Let_def)
  next
    case True
    have z: "of_be bs = of_be cs" by (simp add: bs True of_be_Cons)
    show ?thesis
    proof (cases cs)
      case Nil
      then have "of_be bs = 0" by (simp only: z of_be_simps)
      then have "uint_octets (of_be bs) = [0]" by (simp add: uint_octets_def)
      then show ?thesis using bs True Nil by simp
    next
      case (Cons c cs')
      then have c: "128 \<le> unat c" using m True by (auto simp: minimal_def bs)
      then have l: "be_len (of_be cs) = length cs" using Cons by (intro be_len_of_be) auto
      have "uint_octets (of_be cs) = 0 # cs"
      proof -
        have "128 \<le> unat (hd cs)" using c Cons by simp
        then show ?thesis by (simp add: uint_octets_def l Let_def be_bytes_of_be)
      qed
      then have "uint_octets (of_be bs) = 0 # cs" by (simp only: z)
      then show ?thesis by (simp only: bs True)
    qed
  qed
qed

lemma hd_be_bytes: "n \<noteq> 0 \<Longrightarrow> hd (be_bytes (be_len n) n) \<noteq> 0"
proof -
  assume n: "n \<noteq> 0"
  let ?bs = "be_bytes (be_len n) n"
  have b: "256 ^ (be_len n - 1) \<le> n" "n < 256 ^ be_len n" using be_len_bounds [OF n] by auto
  then have v: "of_be ?bs = n" by (simp add: of_be_be_bytes)
  obtain c cs where bs: "?bs = c # cs"
    using n by (cases ?bs) (auto simp: be_len.simps [of n] dest: arg_cong [of _ _ length])
  have l: "length cs = be_len n - 1" using arg_cong [OF bs, of length] by simp
  show ?thesis
  proof
    assume "hd ?bs = 0"
    then have "n = of_be cs" using v by (simp add: bs of_be_Cons)
    then show False using of_be_bound [of cs] b(1) l by simp
  qed
qed

lemma minimal_uint_octets: "minimal (uint_octets n)"
proof (cases "n = 0")
  case True
  then show ?thesis by (simp add: uint_octets_def Let_def be_len.simps [of 0] be_bytes_def minimal_def)
next
  case False
  let ?ds = "be_bytes (be_len n) n"
  have "?ds \<noteq> []" using False by (auto simp: be_len.simps [of n] dest: arg_cong [of _ _ length])
  then show ?thesis using False hd_be_bytes [OF False] by (auto simp: uint_octets_def Let_def minimal_def hd_conv_nth)
qed

lemma of_be_uint_octets: "of_be (uint_octets n) = n"
proof -
  have "of_be (be_bytes (be_len n) n) = n"
    by (cases "n = 0") (use be_len_bounds [of n] in \<open>auto simp: of_be_be_bytes\<close>)
  then show ?thesis by (auto simp: uint_octets_def Let_def of_be_Cons)
qed

lemma length_uint_octets: "n < 2 ^ 64 \<Longrightarrow> length (uint_octets n) \<le> 9"
  using be_len_le [of n 8] by (simp add: uint_octets_def Let_def)

section \<open>Reading unsigned integers\<close>

lemma drop_56: "drop_bit 56 (v :: u64) \<noteq> 0 \<longleftrightarrow> 2 ^ 56 \<le> unat v"
  using drop_bytes [of 7 v] by (simp add: not_less)

lemma uint64_loop_eq:
  "asn1_uint64_loop bs out = (if unat out * 256 ^ length bs + of_be bs < 2 ^ 64
     then Some (of_nat (unat out * 256 ^ length bs + of_be bs)) else None)"
proof (induction bs arbitrary: out)
  case Nil
  then show ?case using unat_lt_u64 [of out] by simp
next
  case (Cons b bs)
  show ?case
  proof (cases "unat out < 2 ^ 56")
    case False
    then have "2 ^ 56 * 256 \<le> unat out * 256 ^ Suc (length bs)" by (intro mult_mono) simp_all
    with False show ?thesis by (simp add: drop_56)
  next
    case True
    then have s: "unat (push_bit 8 out OR ucast b) = unat out * 256 + unat b" by (rule shift_or_byte)
    have "asn1_uint64_loop (b # bs) out = asn1_uint64_loop bs (push_bit 8 out OR ucast b)"
      using True by (simp add: drop_56)
    then show ?thesis by (simp only: Cons.IH s) (simp add: of_be_Cons algebra_simps)
  qed
qed

lemma get_asn1_iff:
  "CBS_get_asn1 cbs t = (Some body, rest) \<longleftrightarrow> length body < 2 ^ 32 \<and> cbs = der_element t body @ rest"
proof
  assume "CBS_get_asn1 cbs t = (Some body, rest)"
  then obtain e t' hl where r: "CBS_get_any_asn1_element cbs = (Some (e, t', hl), rest)" "t' = t"
      "CBS_skip e hl = (Some (), body)"
    by (auto simp: CBS_get_asn1_def cbs_get_asn1_def cbs_then_def CBS_skip_def cbs_get_def
        split: option.splits prod.splits if_splits)
  from element_only [OF r(1) [unfolded CBS_get_any_asn1_element_def]] obtain b where
    b: "length b < 2 ^ 32" "e = der_element t' b" "hl = length e - length b" "cbs = e @ rest" by blast
  then have "CBS_skip e hl = (Some (), b)"
    by (simp add: der_element_def CBS_skip_append [of "tag_octets t' @ length_octets (length b)" _ b, simplified])
  with r b show "length body < 2 ^ 32 \<and> cbs = der_element t body @ rest" by simp
next
  assume a: "length body < 2 ^ 32 \<and> cbs = der_element t body @ rest"
  have "CBS_skip (der_element t body) (length (der_element t body) - length body) = (Some (), body)"
    by (simp add: der_element_def CBS_skip_append [of "tag_octets t @ length_octets (length body)" _ body, simplified])
  with a element_encoded [of body t rest False] show "CBS_get_asn1 cbs t = (Some body, rest)"
    by (simp add: CBS_get_asn1_def cbs_get_asn1_def CBS_get_any_asn1_element_def cbs_then_def)
qed

lemma get_uint64_iff:
  "CBS_get_asn1_uint64 cbs = (Some v, rest) \<longleftrightarrow> cbs = der_element CBS_ASN1_INTEGER (uint_octets (unat v)) @ rest"
proof
  assume "CBS_get_asn1_uint64 cbs = (Some v, rest)"
  then obtain body where g: "CBS_get_asn1 cbs CBS_ASN1_INTEGER = (Some body, rest)" "minimal body"
      "asn1_uint64_loop body 0 = Some v"
    by (auto simp: CBS_get_asn1_uint64_def cbs_then_def CBS_len_def minimal_def byte_and_80 hd_conv_nth
        split: option.splits prod.splits if_splits)
  then have "unat v = of_be body" by (auto simp: uint64_loop_eq unat_of_nat_eq split: if_splits)
  then show "cbs = der_element CBS_ASN1_INTEGER (uint_octets (unat v)) @ rest"
    using g by (simp add: get_asn1_iff uint_octets_of_be)
next
  let ?body = "uint_octets (unat v)"
  assume "cbs = der_element CBS_ASN1_INTEGER ?body @ rest"
  moreover have "length ?body < 2 ^ 32" using length_uint_octets [of "unat v"] by simp
  ultimately have "CBS_get_asn1 cbs CBS_ASN1_INTEGER = (Some ?body, rest)" by (simp add: get_asn1_iff)
  moreover have "minimal ?body" by (rule minimal_uint_octets)
  moreover have "asn1_uint64_loop ?body 0 = Some v"
    using unat_lt_u64 [of v] by (simp add: uint64_loop_eq of_be_uint_octets)
  ultimately show "CBS_get_asn1_uint64 cbs = (Some v, rest)"
    by (auto simp: CBS_get_asn1_uint64_def cbs_then_def CBS_len_def minimal_def byte_and_80 hd_conv_nth)
qed

section \<open>Writing unsigned integers\<close>

text \<open>A run of bytes added to the pending child, one \<open>CBB_add_u8\<close> at a time.\<close>

fun put_all :: "heap_env \<Rightarrow> cbb \<Rightarrow> u8 list \<Rightarrow> cbb_res" where
  "put_all h c [] = (True, c)"
| "put_all h c (b # bs) = cbb_then (CBB_add_u8 h c b) (\<lambda>c. put_all h c bs)"

lemma writer_put_all: "bs \<noteq> [] \<Longrightarrow> cbb_writer h (\<lambda>s. put_all h s bs) bs"
proof (induction bs rule: list_nonempty_induct)
  case (single b)
  then show ?case using u8.cbb_writer_axioms [of h b] by simp
next
  case (cons b bs)
  then show ?case using writer_then [OF u8.cbb_writer_axioms [of h b] cons.IH] by simp
qed

lemma set_child_same: "child t = Some c \<Longrightarrow> set_child t (Some c) = t"
  by (cases t) (simp add: set_child_def)

lemma set_child_set_child [simp]: "set_child (set_child t a) b = set_child t b"
  by (simp add: set_child_def)

lemma in_child_then: "cbb_then (in_child f s) (in_child g) = in_child (\<lambda>c. cbb_then (f c) g) s"
  by (auto simp: cbb_then_def in_child_def split: option.split prod.split)

lemma put_bytes_down_in_child:
  "bs \<noteq> [] \<Longrightarrow> put_bytes_down h s bs = in_child (\<lambda>c. put_all h c bs) s"
proof (induction bs arbitrary: s rule: list_nonempty_induct)
  case (single b)
  then show ?case by simp
next
  case (cons b bs)
  have "put_bytes_down h s (b # bs) = cbb_then (in_child (\<lambda>c. CBB_add_u8 h c b) s) (in_child (\<lambda>c. put_all h c bs))"
    using cons.IH by (simp add: fun_eq_iff cbb_then_def split: prod.split)
  then show ?case by (simp only: in_child_then put_all.simps)
qed

definition drop_flag :: "bool \<times> bool \<times> cbb \<Rightarrow> cbb_res" where
  "drop_flag r = (case r of (ok, _, s) \<Rightarrow> (ok, s))"

definition value_byte :: "u64 \<Rightarrow> nat \<Rightarrow> u8" where
  "value_byte v i = ucast (drop_bit (8 * (7 - i)) v AND 0xff)"

lemma uint64_put_started:
  "asn1_uint64_put h s v True is = (case put_bytes_down h s (map (value_byte v) is) of (ok, s) \<Rightarrow> (ok, True, s))"
proof (induction "is" arbitrary: s)
  case (Cons i "is")
  obtain ok s1 where r: "in_child (\<lambda>c. CBB_add_u8 h c (value_byte v i)) s = (ok, s1)"
    by (cases "in_child (\<lambda>c. CBB_add_u8 h c (value_byte v i)) s")
  then show ?case by (cases ok) (simp_all add: Let_def Cons.IH cbb_then_def flip: value_byte_def)
qed simp

lemma uint64_put_all:
  assumes "dropWhile (\<lambda>b. b = 0) (map (value_byte v) is) = ds"
  shows "ds = [] \<Longrightarrow> asn1_uint64_put h s v False is = (True, False, s)"
    and "ds \<noteq> [] \<Longrightarrow> \<exists>flag. asn1_uint64_put h s v False is =
      (let (ok, s') = put_bytes_down h s (if 128 \<le> unat (hd ds) then 0 # ds else ds) in (ok, ok \<or> flag, s'))"
proof -
  have "(ds = [] \<longrightarrow> asn1_uint64_put h s v False is = (True, False, s)) \<and> (ds \<noteq> [] \<longrightarrow> (\<exists>flag. asn1_uint64_put h s v False is =
      (let (ok, s') = put_bytes_down h s (if 128 \<le> unat (hd ds) then 0 # ds else ds) in (ok, ok \<or> flag, s'))))"
    using assms
  proof (induction "is")
    case (Cons i "is")
    show ?case
    proof (cases "value_byte v i = 0")
      case True
      then have "asn1_uint64_put h s v False (i # is) = asn1_uint64_put h s v False is"
        by (simp add: Let_def flip: value_byte_def)
      with Cons True show ?thesis by simp
    next
      case False
      let ?b = "value_byte v i"
      have ds: "ds = ?b # map (value_byte v) is" using Cons.prems False by simp
      have hi: "?b AND 0x80 \<noteq> 0 \<longleftrightarrow> 128 \<le> unat ?b" by (simp add: byte_and_80 not_less)
      obtain ok0 s0 where r0: "(if 128 \<le> unat ?b then in_child (\<lambda>c. CBB_add_u8 h c 0) s else (True, s)) = (ok0, s0)"
        by (cases "if 128 \<le> unat ?b then in_child (\<lambda>c. CBB_add_u8 h c 0) s else (True, s)")
      obtain ok1 s1 where r1: "in_child (\<lambda>c. CBB_add_u8 h c ?b) s0 = (ok1, s1)"
        by (cases "in_child (\<lambda>c. CBB_add_u8 h c ?b) s0")
      have "asn1_uint64_put h s v False (i # is) =
          (if ok0 then if ok1 then asn1_uint64_put h s1 v True is else (False, True, s1) else (False, False, s0))"
        using False hi r0 r1 by (simp add: Let_def flip: value_byte_def)
      moreover have "put_bytes_down h s (if 128 \<le> unat (hd ds) then 0 # ds else ds) =
          (if ok0 then if ok1 then put_bytes_down h s1 (map (value_byte v) is) else (False, s1) else (False, s0))"
        using r0 r1 by (auto simp: ds cbb_then_def split: if_splits)
      ultimately show ?thesis
        by (cases ok0; cases ok1) (auto simp: ds uint64_put_started split: prod.split)
    qed
  qed simp
  then show "ds = [] \<Longrightarrow> asn1_uint64_put h s v False is = (True, False, s)"
    "ds \<noteq> [] \<Longrightarrow> \<exists>flag. asn1_uint64_put h s v False is =
      (let (ok, s') = put_bytes_down h s (if 128 \<le> unat (hd ds) then 0 # ds else ds) in (ok, ok \<or> flag, s'))"
    by blast+
qed

lemma be_bytes_map: "be_bytes n w = map (\<lambda>i. of_nat (w div 256 ^ i mod 256)) (rev [0..<n])"
proof (induction n arbitrary: w)
  case (Suc n)
  have "map (\<lambda>i. of_nat (w div 256 ^ i mod 256)) (rev [0..<Suc n]) =
      map (\<lambda>i. of_nat (w div 256 div 256 ^ i mod 256)) (rev [0..<n]) @ [of_nat (w mod 256) :: u8]"
    unfolding rev_upt_Suc by (simp add: div_mult2_eq)
  then show ?case by (simp only: be_bytes_Suc Suc)
qed simp

lemma value_bytes: "map (value_byte v) [0..<8] = be_bytes 8 (unat v)"
proof -
  have b: "value_byte v i = of_nat (unat v div 256 ^ (7 - i) mod 256)" for i
  proof (rule word_eq_of_unat)
    have a: "drop_bit (8 * (7 - i)) v AND 0xff = take_bit 8 (drop_bit (8 * (7 - i)) v)"
      by (simp add: take_bit_eq_mask mask_eq_exp_minus_1)
    have p: "(2 :: nat) ^ (8 * (7 - i)) = 256 ^ (7 - i)" by (simp add: power_mult)
    show "unat (value_byte v i) = unat v div 256 ^ (7 - i) mod 256"
      unfolding value_byte_def a unat_ucast_mod unat_take_bit unat_drop_bit p by simp
  qed
  have "map (\<lambda>i. 7 - i) [0..<8] = rev [0..<8]" by (simp add: upt_rec)
  moreover have "map (value_byte v) [0..<8] = map (\<lambda>i. of_nat (unat v div 256 ^ i mod 256)) (map (\<lambda>i. 7 - i) [0..<8])"
    by (simp add: b)
  ultimately have "map (value_byte v) [0..<8] = map (\<lambda>i. of_nat (unat v div 256 ^ i mod 256)) (rev [0..<8])"
    by (simp only:)
  then show ?thesis by (simp only: be_bytes_map)
qed

lemma dropWhile_be_bytes:
  "be_len n \<le> k \<Longrightarrow> n < 256 ^ k \<Longrightarrow> dropWhile (\<lambda>b. b = 0) (be_bytes k n) = be_bytes (be_len n) n"
proof (induction k)
  case (Suc k)
  show ?case
  proof (cases "be_len n = Suc k")
    case True
    then have n: "n \<noteq> 0" by (metis be_len_0 nat.distinct(1))
    have "hd (be_bytes (Suc k) n) \<noteq> 0" using hd_be_bytes [OF n] True by simp
    then show ?thesis using True by (cases "be_bytes (Suc k) n") auto
  next
    case False
    then have l: "be_len n \<le> k" using Suc.prems by simp
    then have n: "n < 256 ^ k"
      by (cases "n = 0") (use be_len_bounds [of n] power_increasing [OF l, of "256 :: nat"] in \<open>auto intro: less_le_trans\<close>)
    then have "be_bytes (Suc k) n = 0 # be_bytes k n"
      using be_bytes_of_be [of "0 # be_bytes k n"] by (simp add: of_be_Cons of_be_be_bytes)
    with Suc.IH [OF l n] show ?thesis by simp
  qed
qed simp

lemma add_uint64_eq:
  "CBB_add_asn1_uint64 h s v =
   cbb_then (CBB_add_asn1 h s CBS_ASN1_INTEGER)
     (\<lambda>s. cbb_then (in_child (\<lambda>c. put_all h c (uint_octets (unat v))) s) (CBB_flush h))"
proof -
  let ?ds = "be_bytes (be_len (unat v)) (unat v)"
  have l: "be_len (unat v) \<le> 8" using unat_lt_u64 [of v] by (intro be_len_le) simp
  then have ds: "dropWhile (\<lambda>b. b = 0) (map (value_byte v) [0..<8]) = ?ds"
    unfolding value_bytes by (rule dropWhile_be_bytes) (use unat_lt_u64 [of v] in simp)
  have "(case asn1_uint64_put h s1 v False [0..<8] of (False, _, s) \<Rightarrow> (False, s)
      | (True, started, s) \<Rightarrow>
          cbb_then (if \<not> started then in_child (\<lambda>c. CBB_add_u8 h c 0) s else (True, s)) (CBB_flush h)) =
    cbb_then (in_child (\<lambda>c. put_all h c (uint_octets (unat v))) s1) (CBB_flush h)" for s1
  proof (cases "unat v = 0")
    case True
    then have "?ds = []" by simp
    then have "asn1_uint64_put h s1 v False [0..<8] = (True, False, s1)" using uint64_put_all(1) [OF ds] by blast
    then show ?thesis using True by (simp add: uint_octets_def)
  next
    case False
    then have ne: "?ds \<noteq> []" by (auto simp: be_len.simps [of "unat v"] dest: arg_cong [of _ _ length])
    let ?bs = "if 128 \<le> unat (hd ?ds) then 0 # ?ds else ?ds"
    obtain flag where f: "asn1_uint64_put h s1 v False [0..<8] =
        (let (ok, s') = put_bytes_down h s1 ?bs in (ok, ok \<or> flag, s'))"
      using uint64_put_all(2) [OF ds ne] by blast
    have "uint_octets (unat v) = ?bs" using False by (simp add: uint_octets_def Let_def)
    moreover have "put_bytes_down h s1 ?bs = in_child (\<lambda>c. put_all h c ?bs) s1"
      using ne by (intro put_bytes_down_in_child) simp
    ultimately show ?thesis unfolding f by (auto simp: cbb_then_def Let_def split: prod.split)
  qed
  then show ?thesis by (simp add: CBB_add_asn1_uint64_def)
qed

interpretation asn1_uint64: cbb_writer h "\<lambda>s. CBB_add_asn1_uint64 h s v"
  "der_element CBS_ASN1_INTEGER (uint_octets (unat v))" for h v
  unfolding add_uint64_eq
proof
  have "uint_octets (unat v) \<noteq> []" using minimal_uint_octets [of "unat v"] by (simp add: minimal_def)
  then have w: "cbb_writer h (\<lambda>c. put_all h c (uint_octets (unat v))) (uint_octets (unat v))" by (rule writer_put_all)
  show "refines h (\<lambda>s. cbb_then (CBB_add_asn1 h s CBS_ASN1_INTEGER)
       (\<lambda>s. cbb_then (in_child (\<lambda>c. put_all h c (uint_octets (unat v))) s) (CBB_flush h)))
     (a_write (Some (der_element CBS_ASN1_INTEGER (uint_octets (unat v)))))"
    using cbb_writer.in_element [OF w] length_uint_octets [of "unat v"] by simp
qed

section \<open>Signed integers\<close>

text \<open>Two's complement: sign octets that the next octet repeats are dropped.\<close>

fun strip_ff :: "u8 list \<Rightarrow> u8 list" where
  "strip_ff (a # b # bs) = (if a = 0xff \<and> 128 \<le> unat b then strip_ff (b # bs) else a # b # bs)"
| "strip_ff bs = bs"

definition int_octets :: "u64 \<Rightarrow> u8 list" where
  "int_octets v = (if sint v \<ge> 0 then uint_octets (unat v) else strip_ff (be_bytes 8 (unat v)))"

definition minimal_neg :: "u8 list \<Rightarrow> bool" where
  "minimal_neg bs \<longleftrightarrow> bs \<noteq> [] \<and> 128 \<le> unat (hd bs) \<and> \<not> (hd bs = 0xff \<and> 1 < length bs \<and> 128 \<le> unat (bs ! 1))"

lemma byte_ff: "(b :: u8) = 0xff \<longleftrightarrow> unat b = 255"
  by (auto simp: word_unat_eq_iff)

lemma sint_nonneg: "sint (v :: u64) \<ge> 0 \<longleftrightarrow> unat v < 2 ^ 63"
proof -
  have "sint v \<ge> 0 \<longleftrightarrow> \<not> bit v 63" by (simp add: sint_uint signed_take_bit_nonnegative_iff bit_unsigned_iff)
  also have "\<dots> \<longleftrightarrow> even (unat v div 2 ^ 63)"
    by (simp add: bit_iff_odd [of "unat v"] flip: bit_unsigned_iff [where 'a = nat and 'b = 64, simplified])
  also have "\<dots> \<longleftrightarrow> unat v < 2 ^ 63"
  proof
    have "unat v div 2 ^ 63 < 2" using unat_lt_u64 [of v] by (simp add: div_less_iff_less_mult)
    moreover assume "even (unat v div 2 ^ 63)"
    ultimately have "unat v div 2 ^ 63 = 0" by (cases "unat v div 2 ^ 63") auto
    then show "unat v < 2 ^ 63" by (simp add: div_eq_0_iff)
  qed simp
  finally show ?thesis .
qed

lemma of_be_append: "of_be (as @ bs) = of_be as * 256 ^ length bs + of_be bs"
  by (induction as) (simp_all add: of_be_Cons algebra_simps power_add)

lemma of_be_replicate_ff: "of_be (replicate n 0xff) = 256 ^ n - 1"
proof (induction n)
  case (Suc n)
  have "1 \<le> (256 :: nat) ^ n" by simp
  then show ?case by (simp add: of_be_Cons Suc)
qed simp

lemma strip_ff_ends: "\<exists>k. bs = replicate k 0xff @ strip_ff bs"
proof (induction bs rule: strip_ff.induct)
  case (1 a b bs)
  then show ?case
  proof (cases "a = 0xff \<and> 128 \<le> unat b")
    case True
    with 1 obtain k where "b # bs = replicate k 0xff @ strip_ff (b # bs)" by blast
    with True show ?thesis by (intro exI [of _ "Suc k"]) simp
  next
    case False
    then show ?thesis by (intro exI [of _ 0]) auto
  qed
qed (auto intro: exI [of _ 0])

lemma strip_ff_minimal: "bs \<noteq> [] \<Longrightarrow> 128 \<le> unat (hd bs) \<Longrightarrow> minimal_neg (strip_ff bs)"
  by (induction bs rule: strip_ff.induct) (auto simp: minimal_neg_def)

lemma strip_ff_replicate:
  "minimal_neg bs \<Longrightarrow> strip_ff (replicate k 0xff @ bs) = bs"
proof (induction k)
  case 0
  then show ?case by (cases bs rule: strip_ff.cases) (auto simp: minimal_neg_def)
next
  case (Suc k)
  obtain b cs where e: "replicate k 0xff @ bs = b # cs" using Suc.prems by (cases "replicate k 0xff @ bs") (auto simp: minimal_neg_def)
  then have "128 \<le> unat b" using Suc.prems by (cases k) (auto simp: minimal_neg_def)
  then show ?case using Suc e by simp
qed

lemma be_bytes_of_be_k: "length bs = k \<Longrightarrow> of_be bs = n \<Longrightarrow> be_bytes k n = bs"
  using be_bytes_of_be by blast

text \<open>The encodings of negative values, both ways.\<close>

lemma neg_octets_value:
  assumes "minimal_neg bs" "length bs \<le> 8" "unat v = of_be (replicate (8 - length bs) 0xff @ bs)"
  shows "\<not> unat v < 2 ^ 63" "strip_ff (be_bytes 8 (unat v)) = bs"
proof -
  let ?u = "replicate (8 - length bs) 0xff @ bs"
  have l: "length ?u = 8" using assms(2) by simp
  have "128 \<le> unat (hd ?u)" "?u \<noteq> []" using assms(1) by (auto simp: minimal_neg_def hd_append)
  then obtain c cs where u: "?u = c # cs" "128 \<le> unat c" by (cases ?u) auto
  then have "length cs = 7" using l by simp
  then have "128 * 256 ^ 7 \<le> unat c * 256 ^ length cs" using u(2) by simp
  also have "\<dots> \<le> of_be ?u" by (simp only: u(1) of_be_Cons le_add1)
  finally show "\<not> unat v < 2 ^ 63" using assms(3) by simp
  show "strip_ff (be_bytes 8 (unat v)) = bs"
    using be_bytes_of_be_k [OF l refl] strip_ff_replicate [OF assms(1)] assms(3) by simp
qed

lemma neg_octets_of_value:
  assumes "\<not> unat (v :: u64) < 2 ^ 63"
  defines "bs \<equiv> strip_ff (be_bytes 8 (unat v))"
  shows "minimal_neg bs" "length bs \<le> 8" "unat v = of_be (replicate (8 - length bs) 0xff @ bs)"
proof -
  let ?u = "be_bytes 8 (unat v)"
  have v: "of_be ?u = unat v" using unat_lt_u64 [of v] by (simp add: of_be_be_bytes)
  obtain c cs where u: "?u = c # cs" by (cases ?u) (auto dest: arg_cong [of _ _ length])
  have "length cs = 7" using arg_cong [OF u, of length] by simp
  then have "of_be cs < 256 ^ 7" "unat v = unat c * 256 ^ 7 + of_be cs" using of_be_bound [of cs] v u by (simp_all add: of_be_Cons)
  then have "128 \<le> unat c" using assms(1) by simp
  then show "minimal_neg bs" unfolding bs_def by (intro strip_ff_minimal) (simp_all add: u)
  obtain k where k: "?u = replicate k 0xff @ bs" using strip_ff_ends unfolding bs_def by blast
  have "length ?u = k + length bs" by (subst k) simp
  then have "k + length bs = 8" by simp
  then have "length bs \<le> 8" "k = 8 - length bs" by simp_all
  then show "length bs \<le> 8" "unat v = of_be (replicate (8 - length bs) 0xff @ bs)" using k v by simp_all
qed

lemma pos_octets_value:
  assumes "minimal bs" "length bs \<le> 8"
  shows "of_be bs < 2 ^ 63"
proof -
  obtain c cs where bs: "bs = c # cs" "unat c < 128" using assms(1) by (cases bs) (auto simp: minimal_def)
  have "of_be bs < 128 * 256 ^ length cs"
  proof -
    have "Suc (unat c) * 256 ^ length cs \<le> 128 * 256 ^ length cs" using bs(2) by (intro mult_right_mono) simp_all
    then have "unat c * 256 ^ length cs + 256 ^ length cs \<le> 128 * 256 ^ length cs" by (simp only: mult_Suc add.commute)
    then show ?thesis using of_be_bound [of cs] unfolding bs(1) of_be_Cons by linarith
  qed
  also have "\<dots> \<le> 128 * 256 ^ 7" using assms(2) bs(1) by (intro mult_left_mono power_increasing) simp_all
  finally show ?thesis by simp
qed

lemma length_uint_octets_63: "n < 2 ^ 63 \<Longrightarrow> length (uint_octets n) \<le> 8"
proof (rule ccontr)
  assume n: "n < 2 ^ 63" and l: "\<not> length (uint_octets n) \<le> 8"
  have k: "be_len n \<le> 8" using n by (intro be_len_le) simp
  then have "length (uint_octets n) \<le> be_len n \<or> (n \<noteq> 0 \<and> 128 \<le> unat (hd (be_bytes (be_len n) n)))"
    using l by (cases "n = 0") (auto simp: uint_octets_def Let_def split: if_splits)
  moreover have "length (uint_octets n) \<le> Suc (be_len n)" by (simp add: uint_octets_def Let_def)
  ultimately have "be_len n = 8" and "n \<noteq> 0 \<and> 128 \<le> unat (hd (be_bytes (be_len n) n))" using k l by linarith+
  then have e: "be_len n = 8" "n \<noteq> 0" "128 \<le> unat (hd (be_bytes 8 n))" by simp_all
  then obtain c cs where u: "be_bytes 8 n = c # cs" "128 \<le> unat c" by (cases "be_bytes 8 n") (auto dest: arg_cong [of _ _ length])
  have lc: "length cs = 7" using arg_cong [OF u(1), of length] by simp
  have "n = of_be (be_bytes 8 n)" using n by (simp add: of_be_be_bytes)
  then have "128 * 256 ^ 7 \<le> n" using u lc by (simp add: of_be_Cons)
  with n show False by simp
qed

lemma fold_update_rev:
  "n \<le> length u \<Longrightarrow> fold (\<lambda>i u. u[i := f i]) [0..<n] u = map f [0..<n] @ drop n u"
proof (induction n)
  case (Suc n)
  then have "fold (\<lambda>i u. u[i := f i]) [0..<Suc n] u = (map f [0..<n] @ drop n u)[n := f n]" by simp
  also have "\<dots> = map f [0..<n] @ f n # drop (Suc n) u"
    using Suc.prems by (simp add: list_update_append Cons_nth_drop_Suc [symmetric] del: Cons_nth_drop_Suc)
  finally show ?case by simp
qed simp

text \<open>The union in which the reader assembles the value, sign-extended.\<close>

lemma int64_union:
  assumes "length bs = n" "n \<le> 8"
  shows "of_le (fold (\<lambda>i u. u[i := bs ! (n - i - 1)]) [0..<n] (replicate 8 x)) = of_be (replicate (8 - n) x @ bs)"
proof -
  have "map (\<lambda>i. bs ! (n - i - 1)) [0..<n] = rev bs"
    using assms(1) by (intro nth_equalityI) (simp_all add: rev_nth)
  then show ?thesis using assms by (simp add: fold_update_rev of_be_def)
qed

lemma get_int64_iff:
  "CBS_get_asn1_int64 cbs = (Some v, rest) \<longleftrightarrow> cbs = der_element CBS_ASN1_INTEGER (int_octets v) @ rest"
proof -
  have read: "CBS_get_asn1_int64 (der_element CBS_ASN1_INTEGER bs @ rest) =
      (if length bs = 0 \<or> 8 < length bs \<or> \<not> minimal bs \<and> \<not> minimal_neg bs then (None, rest)
       else (Some (of_nat (of_be (replicate (8 - length bs) (if minimal bs then 0 else 0xff) @ bs))), rest))"
    if "length bs < 2 ^ 32" for bs
  proof -
    have g: "CBS_get_asn1 (der_element CBS_ASN1_INTEGER bs @ rest) CBS_ASN1_INTEGER = (Some bs, rest)"
      using that by (simp add: get_asn1_iff)
    show ?thesis
    proof (cases "length bs = 0 \<or> 8 < length bs")
      case True
      with g show ?thesis by (auto simp: CBS_get_asn1_int64_def cbs_then_def CBS_len_def)
    next
      case False
      then have hd: "hd bs = bs ! 0" by (cases bs) auto
      have ne: "bs \<noteq> []" using False by auto
      have m: "minimal bs \<longleftrightarrow> unat (bs ! 0) < 128 \<and> \<not> (1 < length bs \<and> bs ! 0 = 0 \<and> unat (bs ! 1) < 128)"
        using ne by (auto simp: minimal_def hd)
      have mn: "minimal_neg bs \<longleftrightarrow> \<not> unat (bs ! 0) < 128 \<and> \<not> (1 < length bs \<and> bs ! 0 = 0xff \<and> \<not> unat (bs ! 1) < 128)"
        using ne by (auto simp: minimal_neg_def hd)
      have z: "bs ! 0 = 0 \<Longrightarrow> unat (bs ! 0) < 128" by simp
      have f: "bs ! 0 = 0xff \<Longrightarrow> \<not> unat (bs ! 0) < 128" by simp
      have u: "of_le (fold (\<lambda>i u. u[i := bs ! (length bs - i - 1)]) [0..<length bs] (replicate 8 x)) =
          of_be (replicate (8 - length bs) x @ bs)" for x
        using False by (intro int64_union) auto
      show ?thesis using False g m mn z f
        unfolding CBS_get_asn1_int64_def cbs_then_def CBS_len_def Let_def
        by (auto simp only: prod.case option.case byte_and_80 u if_True if_False simp_thms split: if_split)
    qed
  qed
  show ?thesis
  proof
    assume a: "CBS_get_asn1_int64 cbs = (Some v, rest)"
    then obtain bs where "CBS_get_asn1 cbs CBS_ASN1_INTEGER = (Some bs, rest)"
      by (auto simp: CBS_get_asn1_int64_def cbs_then_def Let_def split: option.splits prod.splits if_splits)
    then have bs: "length bs < 2 ^ 32" "cbs = der_element CBS_ASN1_INTEGER bs @ rest" by (simp_all add: get_asn1_iff)
    with a read [OF bs(1)] have r: "length bs \<le> 8" "minimal bs \<or> minimal_neg bs"
        "v = of_nat (of_be (replicate (8 - length bs) (if minimal bs then 0 else 0xff) @ bs))"
      by (auto split: if_splits)
    let ?u = "replicate (8 - length bs) (if minimal bs then 0 else 0xff) @ bs"
    have "of_be ?u < 256 ^ length ?u" by (rule of_be_bound)
    then have uv: "unat v = of_be ?u" using r by (simp add: unat_of_nat_eq)
    show "cbs = der_element CBS_ASN1_INTEGER (int_octets v) @ rest"
    proof (cases "minimal bs")
      case True
      have "of_be (replicate k 0) = 0" for k by (induction k) (simp_all add: of_be_Cons)
      then have "unat v = of_be bs" using uv True by (simp add: of_be_append)
      then show ?thesis using bs r True pos_octets_value [OF True] uint_octets_of_be [OF True]
        by (simp add: int_octets_def sint_nonneg)
    next
      case False
      then have "minimal_neg bs" using r by simp
      moreover have "unat v = of_be (replicate (8 - length bs) 0xff @ bs)" using uv False by simp
      ultimately have "\<not> unat v < 2 ^ 63" "strip_ff (be_bytes 8 (unat v)) = bs"
        using r(1) neg_octets_value by blast+
      then show ?thesis using bs by (simp add: int_octets_def sint_nonneg)
    qed
  next
    assume c: "cbs = der_element CBS_ASN1_INTEGER (int_octets v) @ rest"
    show "CBS_get_asn1_int64 cbs = (Some v, rest)"
    proof (cases "unat v < 2 ^ 63")
      case True
      let ?bs = "uint_octets (unat v)"
      have m: "minimal ?bs" by (rule minimal_uint_octets)
      have l: "length ?bs \<le> 8" using True by (rule length_uint_octets_63)
      have "of_be (replicate k 0) = 0" for k by (induction k) (simp_all add: of_be_Cons)
      then have "of_be (replicate (8 - length ?bs) 0 @ ?bs) = unat v" by (simp add: of_be_append of_be_uint_octets)
      then show ?thesis using read [of ?bs] m l True c
        by (auto simp: int_octets_def sint_nonneg minimal_def)
    next
      case False
      let ?bs = "strip_ff (be_bytes 8 (unat v))"
      note n = neg_octets_of_value [OF False]
      then have "\<not> minimal ?bs" "?bs \<noteq> []" by (auto simp: minimal_def minimal_neg_def)
      then show ?thesis using read [of ?bs] n False c by (simp add: int_octets_def sint_nonneg flip: n(3))
    qed
  qed
qed

lemma int64_start_le: "int64_start bytes n \<le> n"
  by (induction n) auto

lemma int64_start_strip:
  "map (\<lambda>i. bytes ! i) (rev [0..<Suc (int64_start bytes n)]) = strip_ff (map (\<lambda>i. bytes ! i) (rev [0..<Suc n]))"
  by (induction n) (simp_all add: byte_and_80 not_less)

lemma add_int64_eq:
  "CBB_add_asn1_int64 h s v =
   cbb_then (CBB_add_asn1 h s CBS_ASN1_INTEGER)
     (\<lambda>s. cbb_then (in_child (\<lambda>c. put_all h c (int_octets v)) s) (CBB_flush h))"
proof (cases "sint v \<ge> 0")
  case True
  then show ?thesis by (simp add: CBB_add_asn1_int64_def add_uint64_eq int_octets_def)
next
  case False
  let ?bytes = "le_bytes 8 (unat v)"
  have "map (\<lambda>i. ?bytes ! i) (rev [0..<Suc 7]) = rev (map (\<lambda>i. ?bytes ! i) [0..<length ?bytes])"
    by (simp add: rev_map)
  also have "\<dots> = be_bytes 8 (unat v)" by (simp only: map_nth be_bytes_def)
  finally have "map (\<lambda>i. ?bytes ! i) (rev [0..<Suc (int64_start ?bytes 7)]) = int_octets v"
    using False by (simp only: int64_start_strip int_octets_def if_False)
  moreover have "int_octets v \<noteq> []"
    using False neg_octets_of_value(1) [of v] by (simp add: int_octets_def sint_nonneg minimal_neg_def)
  then have "put_bytes_down h s (int_octets v) = in_child (\<lambda>c. put_all h c (int_octets v)) s" for s
    by (rule put_bytes_down_in_child)
  ultimately show ?thesis using False by (simp only: CBB_add_asn1_int64_def Let_def if_False)
qed

lemma length_int_octets: "int_octets v \<noteq> []" "length (int_octets v) \<le> 8"
proof -
  show "int_octets v \<noteq> []" "length (int_octets v) \<le> 8"
    using neg_octets_of_value(1,2) [of v] minimal_uint_octets [of "unat v"] length_uint_octets_63 [of "unat v"]
    by (auto simp: int_octets_def sint_nonneg minimal_def minimal_neg_def)
qed

lemma writer_element_put_all:
  assumes "bs \<noteq> []" "length bs \<le> 0xfffffffe"
  shows "cbb_writer h (\<lambda>s. cbb_then (CBB_add_asn1 h s t) (\<lambda>s. cbb_then (in_child (\<lambda>c. put_all h c bs) s) (CBB_flush h)))
    (der_element t bs)"
  by unfold_locales (rule cbb_writer.in_element [OF writer_put_all [OF assms(1)] assms(2)])

interpretation asn1_int64: cbb_writer h "\<lambda>s. CBB_add_asn1_int64 h s v"
  "der_element CBS_ASN1_INTEGER (int_octets v)" for h v
  unfolding add_int64_eq using length_int_octets [of v] by (intro writer_element_put_all) simp_all

section \<open>Finishing\<close>

text \<open>A fresh builder is closed and empty, and finishing hands out the bytes of the closed builder.\<close>

lemma init_holds:
  assumes "CBB_init h n = (True, s)" "n < SIZE_T"
  shows "holds s [] (Closed [])" "\<exists>b. fst s = Some b \<and> can_resize b"
proof -
  let ?b = "\<lambda>m. \<lparr>buf = m, len = 0, cap = n, can_resize = True, error = False\<rparr>"
  have "\<exists>m. s = (Some (?b m), CBB None 0 0 False False) \<and> (case m of None \<Rightarrow> n = 0 | Some mb \<Rightarrow> blk_size mb = n)"
  proof (cases "OPENSSL_malloc h n")
    case None
    with assms(1) show ?thesis
      by (auto simp: CBB_init_def cbb_init_def CBB_zero_def split: option.splits if_splits)
  next
    case (Some mb)
    then have "blk_size mb = n" by (auto simp: OPENSSL_malloc_def Let_def split: if_splits)
    with Some assms(1) show ?thesis
      by (auto simp: CBB_init_def cbb_init_def CBB_zero_def split: option.splits)
  qed
  then obtain m where m: "s = (Some (?b m), CBB None 0 0 False False)" "case m of None \<Rightarrow> n = 0 | Some mb \<Rightarrow> blk_size mb = n"
    by blast
  then show "holds s [] (Closed [])" using assms(2) by (simp add: holds_Closed buffer_ok_def contents_def cong: option.case_cong)
  from m show "\<exists>b. fst s = Some b \<and> can_resize b" by simp
qed

lemma init_succeeds: "(\<forall>k. malloc_ok h k) \<Longrightarrow> \<exists>s. CBB_init h n = (True, s) \<and> \<not> is_child (snd s)"
  by (auto simp: CBB_init_def cbb_init_def CBB_zero_def OPENSSL_malloc_def Let_def)

lemma contents_blk: "buf b = Some m \<Longrightarrow> contents b = blk_read m 0 (len b)"
  by (simp add: contents_def blk_read_def byte_at_def)

lemma contents_no_buf: "buffer_ok b \<Longrightarrow> buf b = None \<Longrightarrow> contents b = []"
  by (simp add: contents_def buffer_ok_def)

definition finished_bytes :: "mem_block option \<times> nat \<Rightarrow> u8 list" where
  "finished_bytes r = (case r of (None, n) \<Rightarrow> [] | (Some m, n) \<Rightarrow> blk_read m 0 n)"

lemma finish_holds:
  assumes hs: "holds s [] bld" and f: "CBB_finish h want s = (Some r, s')"
  shows "close bld = Some (finished_bytes r)"
proof -
  from f have nc: "\<not> is_child (snd s)" by (auto simp: CBB_finish_def split: if_splits)
  then obtain b t where fl: "CBB_flush h s = (True, (Some b, t))" and r: "r = (buf b, len b)"
    using f by (auto simp: CBB_finish_def split: if_splits prod.splits option.splits bool.splits)
  obtain body where body: "close bld = Some body" "holds (Some b, t) [] (Closed (body @ []))"
    using flush.appended [OF hs fl] .
  then have c: "contents b = body" "buffer_ok b" by (simp_all add: holds_Closed)
  show ?thesis
  proof (cases "buf b")
    case None
    then show ?thesis using body c contents_no_buf [of b] by (simp add: finished_bytes_def r)
  next
    case (Some m)
    then show ?thesis using body c contents_blk [OF Some] by (simp add: finished_bytes_def r)
  qed
qed

lemma finish_succeeds:
  assumes hs: "holds s [] bld" and cl: "close bld = Some body" and nc: "\<not> is_child (snd s)"
    and rm: "fst s = Some b" "has_room h b (length body)"
  shows "\<exists>r s'. CBB_finish h True s = (Some r, s')"
proof -
  have "fst (CBB_flush h s)" using flush.succeeds [OF hs cl rm(1)] rm(2) by simp
  moreover have "\<exists>b'. fst (snd (CBB_flush h s)) = Some b'"
    using refinesD [OF flush_refines hs, of h] by (auto simp: outcome_def)
  ultimately obtain b' t where "CBB_flush h s = (True, (Some b', t))" by (cases "CBB_flush h s") auto
  then show ?thesis using nc by (simp add: CBB_finish_def)
qed

end
