(* ===== verification/Bssl_Cbb_Steps.thy ===== *)
theory Bssl_Cbb_Steps
  imports Bssl_Integer_Props
begin

text \<open>
  The builder as a state machine: the operations a client may run on a handle or on its pending
  child, in any order and whatever they return. Also what the builder refines, the ASN.1 values
  it writes, and a message built and parsed back.
\<close>

section \<open>The step relation\<close>

inductive cbb_step :: "heap_env \<Rightarrow> cbb \<Rightarrow> cbb \<Rightarrow> bool" for h where
  step_flush: "cbb_step h s (snd (CBB_flush h s))"
| step_u8: "cbb_step h s (snd (CBB_add_u8 h s v8))"
| step_u16: "cbb_step h s (snd (CBB_add_u16 h s v16))"
| step_u24: "cbb_step h s (snd (CBB_add_u24 h s v32))"
| step_u32: "cbb_step h s (snd (CBB_add_u32 h s v32))"
| step_u64: "cbb_step h s (snd (CBB_add_u64 h s v64))"
| step_bytes: "length bs < SIZE_T \<Longrightarrow> cbb_step h s (snd (CBB_add_bytes h s bs))"
| step_u8_prefix: "cbb_step h s (snd (CBB_add_u8_length_prefixed h s))"
| step_u16_prefix: "cbb_step h s (snd (CBB_add_u16_length_prefixed h s))"
| step_u24_prefix: "cbb_step h s (snd (CBB_add_u24_length_prefixed h s))"
| step_asn1: "cbb_step h s (snd (CBB_add_asn1 h s t))"
| step_uint64: "cbb_step h s (snd (CBB_add_asn1_uint64 h s v64))"
| step_int64: "cbb_step h s (snd (CBB_add_asn1_int64 h s v64))"
| step_bool: "cbb_step h s (snd (CBB_add_asn1_bool h s i))"
| step_octets: "length bs \<le> 0xfffffffe \<Longrightarrow> cbb_step h s (snd (CBB_add_asn1_octet_string h s bs))"
| step_child: "child (snd s) = Some c \<Longrightarrow> cbb_step h (fst s, c) s' \<Longrightarrow>
    cbb_step h s (fst s', set_child (snd s) (Some (snd s')))"

inductive_cases cbb_stepE: "cbb_step h s s'"
inductive_simps cbb_step_simps: "cbb_step h s s'"

















section \<open>Properties\<close>





text \<open>C20: ASN.1 integers, unsigned and signed 64-bit ones: the reader accepts exactly one encoding of each
  value, in either direction, the minimal two's complement one, and it is the one the builder
  writes.
\<close>

theorem asn1_integers_canonical:
  "(CBS_get_asn1_uint64 cbs = (Some u, rest) \<longleftrightarrow> cbs = der_element CBS_ASN1_INTEGER (uint_octets (unat u)) @ rest) \<and>
   (CBS_get_asn1_int64 cbs = (Some i, rest) \<longleftrightarrow> cbs = der_element CBS_ASN1_INTEGER (int_octets i) @ rest) \<and>
   refines h (\<lambda>s. CBB_add_asn1_uint64 h s u) (a_write (Some (der_element CBS_ASN1_INTEGER (uint_octets (unat u))))) \<and>
   refines h (\<lambda>s. CBB_add_asn1_int64 h s i) (a_write (Some (der_element CBS_ASN1_INTEGER (int_octets i))))"
  by (intro conjI get_uint64_iff get_int64_iff asn1_uint64.writes asn1_int64.writes)





end
