(* ===== verification/Bssl_Text.thy ===== *)
theory Bssl_Text
  imports Bssl_Cbb
begin

text \<open>
  Text on top of the byte strings: object identifiers in dotted decimal form, from \<open>cbs.c\<close> and
  \<open>cbb.c\<close>, and the Unicode encodings of \<open>unicode.c\<close>.
\<close>

section \<open>Object identifiers\<close>

text \<open>\<open>snprintf\<close> with \<open>PRIu64\<close>: the decimal digits.\<close>

fun decimal :: "nat \<Rightarrow> u8 list" where
  "decimal n = (if n < 10 then [of_nat (48 + n)] else decimal (n div 10) @ [of_nat (48 + n mod 10)])"

declare decimal.simps [simp del]

definition ascii_dot :: u8 where "ascii_dot = 46"

definition add_decimal :: "heap_env \<Rightarrow> cbb \<Rightarrow> u64 \<Rightarrow> cbb_res" where
  "add_decimal h out v = CBB_add_bytes h out (decimal (unat v))"

lemma parse_base128_shrinks:
  "parse_base128_loop cbs v = (Some w, rest) \<Longrightarrow> length rest < length cbs"
  by (drule parse_digits_only) auto

text \<open>The components after the first two.\<close>

function oid_text_loop :: "heap_env \<Rightarrow> cbs \<Rightarrow> cbb \<Rightarrow> cbb_res" where
  "oid_text_loop h copy cbb =
    (if CBS_len copy \<noteq> 0 then
       (case parse_base128_integer copy of
         (None, _) \<Rightarrow> (False, cbb)
       | (Some v, copy) \<Rightarrow>
           (case cbb_then (CBB_add_u8 h cbb ascii_dot) (\<lambda>cbb. add_decimal h cbb v) of
             (False, cbb) \<Rightarrow> (False, cbb)
           | (True, cbb) \<Rightarrow> oid_text_loop h copy cbb))
     else (True, cbb))"
  by pat_completeness auto
termination
  by (relation "measure (\<lambda>(h, copy, cbb). length copy)")
     (auto simp: parse_base128_integer_def intro!: parse_base128_shrinks dest: sym)

declare oid_text_loop.simps [simp del]

text \<open>The NUL-terminated text with its buffer, or None for a null pointer.\<close>

definition CBS_asn1_oid_to_text :: "heap_env \<Rightarrow> cbs \<Rightarrow> (mem_block option \<times> nat) option" where
  "CBS_asn1_oid_to_text h cbs =
    (case CBB_init h 32 of
      (False, _) \<Rightarrow> None
    | (True, cbb) \<Rightarrow>
       (case parse_base128_integer cbs of
         (None, _) \<Rightarrow> None
       | (Some v, copy) \<Rightarrow>
          (case (if v \<ge> 80
                 then cbb_then (CBB_add_bytes h cbb [50, ascii_dot]) (\<lambda>cbb. add_decimal h cbb (v - 80))
                 else cbb_then (add_decimal h cbb (v div 40)) (\<lambda>cbb.
                      cbb_then (CBB_add_u8 h cbb ascii_dot) (\<lambda>cbb. add_decimal h cbb (v mod 40)))) of
            (False, _) \<Rightarrow> None
          | (True, cbb) \<Rightarrow>
             (case oid_text_loop h copy cbb of
               (False, _) \<Rightarrow> None
             | (True, cbb) \<Rightarrow>
                (case CBB_add_u8 h cbb 0 of
                  (False, _) \<Rightarrow> None
                | (True, cbb) \<Rightarrow> fst (CBB_finish h True cbb))))))"

text \<open>
  \<open>parse_dotted_decimal\<close>: the loop over the characters, which stops at the end of the string or
  at a dot that is not the last character. It leaves the \<open>CBS\<close> after the dot.
\<close>

fun dotted_decimal_loop :: "cbs \<Rightarrow> u64 \<Rightarrow> bool \<Rightarrow> u64 cbs_res" where
  "dotted_decimal_loop [] out seen_digit = ((if seen_digit then Some out else None), [])"
| "dotted_decimal_loop (u # cbs) out seen_digit =
    (if u = ascii_dot \<and> CBS_len cbs > 0 then ((if seen_digit then Some out else None), cbs)
     else if u < 48 \<or> u > 57 \<or> (seen_digit \<and> out = 0) \<or> out > (- 1) div 10
       \<or> out * 10 > - 1 - ucast (u - 48) then (None, cbs)
     else dotted_decimal_loop cbs (out * 10 + ucast (u - 48)) True)"

definition parse_dotted_decimal :: "cbs \<Rightarrow> u64 cbs_res" where
  "parse_dotted_decimal cbs = dotted_decimal_loop cbs 0 False"

lemma dotted_decimal_le: "length (snd (dotted_decimal_loop cbs out seen)) \<le> length cbs"
  by (induction cbs out seen rule: dotted_decimal_loop.induct) auto

lemma dotted_decimal_shrinks:
  assumes "parse_dotted_decimal cbs = (Some v, rest)"
  shows "length rest < length cbs"
proof (cases cbs)
  case Nil
  with assms show ?thesis by (simp add: parse_dotted_decimal_def)
next
  case (Cons u us)
  with assms have "rest = us \<or> rest = snd (dotted_decimal_loop us (ucast (u - 48)) True)"
    by (auto simp: parse_dotted_decimal_def split: if_splits)
  then show ?thesis using dotted_decimal_le [of us "ucast (u - 48)" True] Cons by auto
qed

function oid_components_loop :: "heap_env \<Rightarrow> cbb \<Rightarrow> cbs \<Rightarrow> cbb_res" where
  "oid_components_loop h cbb cbs =
    (if CBS_len cbs > 0 then
       (case parse_dotted_decimal cbs of
         (None, _) \<Rightarrow> (False, cbb)
       | (Some a, cbs) \<Rightarrow>
           (case add_base128_integer h cbb a of
             (False, cbb) \<Rightarrow> (False, cbb)
           | (True, cbb) \<Rightarrow> oid_components_loop h cbb cbs))
     else (True, cbb))"
  by pat_completeness auto
termination
  by (relation "measure (\<lambda>(h, cbb, cbs). length cbs)") (auto intro!: dotted_decimal_shrinks dest: sym)

declare oid_components_loop.simps [simp del]

definition CBB_add_asn1_oid_from_text :: "heap_env \<Rightarrow> cbb \<Rightarrow> u8 list \<Rightarrow> cbb_res" where
  "CBB_add_asn1_oid_from_text h cbb txt =
    cbb_then (CBB_flush h cbb) (\<lambda>cbb.
      case parse_dotted_decimal (CBS_init txt) of
        (None, _) \<Rightarrow> (False, cbb)
      | (Some a, cbs) \<Rightarrow>
         (case parse_dotted_decimal cbs of
           (None, _) \<Rightarrow> (False, cbb)
         | (Some b, cbs) \<Rightarrow>
            if a > 2 \<or> (a < 2 \<and> b > 39) \<or> b > - 1 - 80 then (False, cbb)
            else cbb_then (add_base128_integer h cbb (40 * a + b))
              (\<lambda>cbb. oid_components_loop h cbb cbs)))"

section \<open>Unicode\<close>

definition is_valid_code_point :: "u32 \<Rightarrow> bool" where
  "is_valid_code_point v =
    (if v > 0x10ffff \<or> v AND 0xfffe = 0xfffe \<or> (v \<ge> 0xfdd0 \<and> v \<le> 0xfdef) \<or> (v \<ge> 0xd800 \<and> v \<le> 0xdfff)
     then False else True)"

definition BOTTOM_BITS :: "nat \<Rightarrow> u8" where "BOTTOM_BITS n = ucast (push_bit n (1 :: u32) - 1)"
definition TOP_BITS :: "nat \<Rightarrow> u8" where "TOP_BITS n = NOT (BOTTOM_BITS (8 - n))"

text \<open>The continuation bytes of a UTF-8 sequence.\<close>

fun utf8_continue :: "nat \<Rightarrow> cbs \<Rightarrow> u32 \<Rightarrow> u32 cbs_res" where
  "utf8_continue 0 cbs v = (Some v, cbs)"
| "utf8_continue (Suc n) cbs v =
    cbs_then (CBS_get_u8 cbs) (\<lambda>c cbs.
      if c AND TOP_BITS 2 \<noteq> TOP_BITS 1 then (None, cbs)
      else utf8_continue n cbs (push_bit 6 v OR ucast (c AND BOTTOM_BITS 6)))"

definition cbs_get_utf8 :: "cbs \<Rightarrow> u32 cbs_res" where
  "cbs_get_utf8 cbs =
    cbs_then (CBS_get_u8 cbs) (\<lambda>c cbs.
      if c \<le> 0x7f then (Some (ucast c), cbs)
      else
        let start =
          (if c AND TOP_BITS 3 = TOP_BITS 2 then Some (ucast (c AND BOTTOM_BITS 5) :: u32, 1 :: nat, 0x80 :: u32)
           else if c AND TOP_BITS 4 = TOP_BITS 3 then Some (ucast (c AND BOTTOM_BITS 4), 2, 0x800)
           else if c AND TOP_BITS 5 = TOP_BITS 4 then Some (ucast (c AND BOTTOM_BITS 3), 3, 0x10000)
           else None)
        in (case start of
             None \<Rightarrow> (None, cbs)
           | Some (v, n, lower_bound) \<Rightarrow>
               cbs_then (utf8_continue n cbs v) (\<lambda>v cbs.
                 if \<not> is_valid_code_point v \<or> v < lower_bound then (None, cbs) else (Some v, cbs))))"

definition cbs_get_latin1 :: "cbs \<Rightarrow> u32 cbs_res" where
  "cbs_get_latin1 cbs = cbs_then (CBS_get_u8 cbs) (\<lambda>c cbs. (Some (ucast c), cbs))"

definition cbs_get_ucs2_be :: "cbs \<Rightarrow> u32 cbs_res" where
  "cbs_get_ucs2_be cbs =
    cbs_then (CBS_get_u16 cbs) (\<lambda>c cbs.
      if \<not> is_valid_code_point (ucast c) then (None, cbs) else (Some (ucast c), cbs))"

definition cbs_get_utf32_be :: "cbs \<Rightarrow> u32 cbs_res" where
  "cbs_get_utf32_be cbs =
    cbs_then (CBS_get_u32 cbs) (\<lambda>c cbs. if is_valid_code_point c then (Some c, cbs) else (None, cbs))"

definition cbb_get_utf8_len :: "u32 \<Rightarrow> nat" where
  "cbb_get_utf8_len u = (if u \<le> 0x7f then 1 else if u \<le> 0x7ff then 2 else if u \<le> 0xffff then 3 else 4)"

definition cbb_add_utf8 :: "heap_env \<Rightarrow> cbb \<Rightarrow> u32 \<Rightarrow> cbb_res" where
  "cbb_add_utf8 h cbb u =
    (let low = (\<lambda>k. TOP_BITS 1 OR (ucast (drop_bit k u) AND BOTTOM_BITS 6)) in
     if \<not> is_valid_code_point u then (False, cbb)
     else if u \<le> 0x7f then CBB_add_u8 h cbb (ucast u)
     else if u \<le> 0x7ff then
       cbb_then (CBB_add_u8 h cbb (TOP_BITS 2 OR ucast (drop_bit 6 u))) (\<lambda>cbb. CBB_add_u8 h cbb (low 0))
     else if u \<le> 0xffff then
       cbb_then (CBB_add_u8 h cbb (TOP_BITS 3 OR ucast (drop_bit 12 u))) (\<lambda>cbb.
       cbb_then (CBB_add_u8 h cbb (low 6)) (\<lambda>cbb. CBB_add_u8 h cbb (low 0)))
     else if u \<le> 0x10ffff then
       cbb_then (CBB_add_u8 h cbb (TOP_BITS 4 OR ucast (drop_bit 18 u))) (\<lambda>cbb.
       cbb_then (CBB_add_u8 h cbb (low 12)) (\<lambda>cbb.
       cbb_then (CBB_add_u8 h cbb (low 6)) (\<lambda>cbb. CBB_add_u8 h cbb (low 0))))
     else (False, cbb))"

definition cbb_add_latin1 :: "heap_env \<Rightarrow> cbb \<Rightarrow> u32 \<Rightarrow> cbb_res" where
  "cbb_add_latin1 h cbb u = (if u \<le> 0xff then CBB_add_u8 h cbb (ucast u) else (False, cbb))"

definition cbb_add_ucs2_be :: "heap_env \<Rightarrow> cbb \<Rightarrow> u32 \<Rightarrow> cbb_res" where
  "cbb_add_ucs2_be h cbb u =
    (if u \<le> 0xffff \<and> is_valid_code_point u then CBB_add_u16 h cbb (ucast u) else (False, cbb))"

definition cbb_add_utf32_be :: "heap_env \<Rightarrow> cbb \<Rightarrow> u32 \<Rightarrow> cbb_res" where
  "cbb_add_utf32_be h cbb u = (if is_valid_code_point u then CBB_add_u32 h cbb u else (False, cbb))"

end
