(* ===== verification/Bssl_Text_Props.thy ===== *)
theory Bssl_Text_Props
  imports Bssl_Text Bssl_Integer_Props
begin

text \<open>
  The text encodings, both ways: UTF-8 is read exactly as it is written, and an object identifier
  survives the way from its dotted decimal form to DER and back.
\<close>

section \<open>Bit fields of a byte\<close>

lemma BOTTOM_BITS_mask: "n \<le> 8 \<Longrightarrow> BOTTOM_BITS n = mask n"
  unfolding BOTTOM_BITS_def push_bit_of_1 mask_eq_exp_minus_1 [symmetric]
  by (rule bit_word_eqI) (auto simp: bit_simps)

lemma unat_and_bottom: "n \<le> 8 \<Longrightarrow> unat (c AND BOTTOM_BITS n) = unat c mod 2 ^ n"
  by (simp add: BOTTOM_BITS_mask unat_take_bit flip: take_bit_eq_mask)

lemma unat_and_top: "n \<le> 8 \<Longrightarrow> unat (c AND TOP_BITS n) = unat c div 2 ^ (8 - n) * 2 ^ (8 - n)"
proof -
  assume n: "n \<le> 8"
  have "unat (c AND NOT (mask (8 - n))) = push_bit (8 - n) (drop_bit (8 - n) (unat c))"
    by (rule bit_eqI) (auto simp: bit_simps dest: bit_imp_le_length)
  then show ?thesis using n
    by (simp add: TOP_BITS_def BOTTOM_BITS_mask push_bit_eq_mult [where 'a = nat] drop_bit_eq_div [where 'a = nat])
qed

lemma unat_top: "n \<le> 8 \<Longrightarrow> unat (TOP_BITS n) = 255 div 2 ^ (8 - n) * 2 ^ (8 - n)"
proof -
  have "unat (- 1 :: u8) = 255" by (simp add: unsigned_minus_1_eq_mask mask_eq_exp_minus_1)
  then show "n \<le> 8 \<Longrightarrow> ?thesis" using unat_and_top [of n "- 1"] by simp
qed

lemma and_top_eq: "c AND TOP_BITS n = TOP_BITS k \<longleftrightarrow> unat (c AND TOP_BITS n) = unat (TOP_BITS k)"
  by (rule word_unat_eq_iff)

lemma top_cases:
  "c AND TOP_BITS 2 = TOP_BITS 1 \<longleftrightarrow> unat c div 64 = 2"
  "c AND TOP_BITS 3 = TOP_BITS 2 \<longleftrightarrow> unat c div 32 = 6"
  "c AND TOP_BITS 4 = TOP_BITS 3 \<longleftrightarrow> unat c div 16 = 14"
  "c AND TOP_BITS 5 = TOP_BITS 4 \<longleftrightarrow> unat c div 8 = 30"
  by (auto simp: and_top_eq unat_and_top unat_top)

lemma unat_top_or:
  assumes "n \<le> 8" "unat (r :: u8) < 2 ^ (8 - n)"
  shows "unat (TOP_BITS n OR r) = unat (TOP_BITS n) + unat r"
proof -
  have "unat (r OR TOP_BITS n) = unat r OR push_bit (8 - n) (255 div 2 ^ (8 - n))"
    by (simp only: unsigned_or_eq unat_top [OF assms(1)] push_bit_eq_mult [where 'a = nat])
  then show ?thesis using nat_or_shift [OF assms(2), of "255 div 2 ^ (8 - n)"] unat_top [OF assms(1)]
    by (simp add: or.commute add.commute)
qed

section \<open>UTF-8\<close>

definition utf8_bytes :: "nat \<Rightarrow> u8 list" where
  "utf8_bytes u =
    (if u < 0x80 then [of_nat u]
     else if u < 0x800 then [of_nat (192 + u div 64), of_nat (128 + u mod 64)]
     else if u < 0x10000 then [of_nat (224 + u div 4096), of_nat (128 + u div 64 mod 64), of_nat (128 + u mod 64)]
     else [of_nat (240 + u div 262144), of_nat (128 + u div 4096 mod 64), of_nat (128 + u div 64 mod 64),
       of_nat (128 + u mod 64)])"

text \<open>The continuation bytes carry six bits each.\<close>

definition carry :: "nat \<Rightarrow> u8 list \<Rightarrow> nat" where
  "carry v cs = foldl (\<lambda>r c. r * 64 + unat c mod 64) v cs"

lemma carry_simps [simp]: "carry v [] = v" "carry v (c # cs) = carry (v * 64 + unat c mod 64) cs"
  by (simp_all add: carry_def)

lemma utf8_continue_iff:
  assumes "(unat v + 1) * 64 ^ n \<le> 2 ^ 32"
  shows "utf8_continue n cbs v = (Some w, rest) \<longleftrightarrow>
    (\<exists>cs. cbs = cs @ rest \<and> length cs = n \<and> (\<forall>c \<in> set cs. unat c div 64 = 2) \<and> unat w = carry (unat v) cs)"
  using assms
proof (induction n arbitrary: cbs v)
  case 0
  then show ?case by (auto simp: word_unat_eq_iff)
next
  case (Suc n)
  show ?case
  proof (cases cbs)
    case Nil
    then show ?thesis by (simp add: CBS_get_u8_Nil cbs_then_def)
  next
    case (Cons c cs)
    let ?v = "push_bit 6 v OR ucast (c AND BOTTOM_BITS 6)"
    have "(unat v + 1) * 64 \<le> (unat v + 1) * 64 ^ Suc n" by (rule mult_le_mono2) simp
    with Suc.prems have "(unat v + 1) * 64 \<le> 2 ^ 32" by (rule order_trans [rotated])
    then have p: "unat v * 64 < 2 ^ 32" by simp
    have "unat ?v = unat (ucast (c AND BOTTOM_BITS 6) OR push_bit 6 v)" by (simp only: or.commute)
    also have "\<dots> = unat c mod 64 + unat v * 64"
      using p by (subst unat_or_shift) (simp_all add: unat_ucast_8_32 unat_and_bottom)
    finally have u: "unat ?v = unat v * 64 + unat c mod 64" by simp
    have "unat ?v + 1 \<le> (unat v + 1) * 64" unfolding u by simp
    then have "(unat ?v + 1) * 64 ^ n \<le> (unat v + 1) * 64 * 64 ^ n" by (rule mult_le_mono1)
    moreover have "(unat v + 1) * 64 * 64 ^ n = (unat v + 1) * 64 ^ Suc n" by (simp only: power_Suc mult.assoc)
    ultimately have "(unat ?v + 1) * 64 ^ n \<le> 2 ^ 32" using Suc.prems by (simp only: order_trans)
    from Suc.IH [OF this, of cs] show ?thesis
      by (auto simp: Cons CBS_get_u8_Cons cbs_then_def top_cases [unfolded One_nat_def] u Cons_eq_append_conv length_Suc_conv)
  qed
qed


lemma lead_byte: "unat (c :: u8) div k = q \<Longrightarrow> unat c = k * q + unat c mod k"
  using div_mult_mod_eq [of "unat c" k] by (simp add: mult.commute)

lemma carry_one:
  "n = carry a [c] \<Longrightarrow> unat c div 64 = 2 \<Longrightarrow> n div 64 = a \<and> (of_nat (128 + n mod 64) :: u8) = c"
proof -
  assume a: "n = carry a [c]" "unat c div 64 = 2"
  then have "unat c = 128 + n mod 64" using lead_byte [of c 64 2] by simp
  then have "of_nat (128 + n mod 64) = c" by (metis word_eq_of_unat)
  with a show ?thesis by simp
qed

lemma carry_snoc [simp]: "carry v (cs @ [c]) = carry (carry v cs) [c]"
  by (simp add: carry_def)

text \<open>The bytes of a sequence, from its value, last byte first.\<close>

lemma carry_last:
  assumes "n = carry v (cs @ [c])" "unat c div 64 = 2"
  shows "n div 64 = carry v cs" "of_nat (128 + n mod 64) = c"
  using carry_one [of n "carry v cs" c] assms by simp_all

lemma carry_bound: "carry v cs < (v + 1) * 64 ^ length cs"
proof (induction cs arbitrary: v)
  case (Cons c cs)
  have "v * 64 + unat c mod 64 + 1 \<le> (v + 1) * 64" by simp
  then have "(v * 64 + unat c mod 64 + 1) * 64 ^ length cs \<le> (v + 1) * 64 * 64 ^ length cs" by (rule mult_le_mono1)
  with Cons [of "v * 64 + unat c mod 64"]
  have "carry (v * 64 + unat c mod 64) cs < (v + 1) * 64 * 64 ^ length cs" by (rule less_le_trans)
  then show ?case by (simp only: carry_simps list.size power_add power_one_right mult.assoc) (simp add: mult.commute)
qed simp

lemma lead_of_nat: "unat (c :: u8) div k = q \<Longrightarrow> a = unat c mod k \<Longrightarrow> of_nat (k * q + a) = c"
  using lead_byte [of c k q] by (metis word_eq_of_unat)

lemma utf8_single: "n < 0x80 \<Longrightarrow> utf8_bytes n = [of_nat n]"
  by (simp add: utf8_bytes_def)

lemma byte_fields:
  assumes "k * q + a < 256" "a < k"
  shows "unat (of_nat (k * q + a) :: u8) = k * q + a" "unat (of_nat (k * q + a) :: u8) div k = q"
    "unat (of_nat (k * q + a) :: u8) mod k = a"
proof -
  show u: "unat (of_nat (k * q + a) :: u8) = k * q + a" using assms by (intro unat_of_nat_eq) simp
  show "unat (of_nat (k * q + a) :: u8) div k = q" unfolding u using assms(2) by simp
  show "unat (of_nat (k * q + a) :: u8) mod k = a" unfolding u using assms(2) by simp
qed

lemma utf8_two:
  assumes "unat c div 32 = 6" "unat c1 div 64 = 2" "n = carry (unat c mod 32) [c1]" "0x80 \<le> n"
  shows "utf8_bytes n = [c, c1]"
proof -
  have "n div 64 = unat c mod 32" "of_nat (128 + n mod 64) = c1"
    using carry_last [of n "unat c mod 32" "[]" c1] assms(2,3) by simp_all
  moreover have "n < 0x800" using carry_bound [of "unat c mod 32" "[c1]"] assms(3) by simp
  ultimately show ?thesis using assms(4) lead_of_nat [OF assms(1), of "n div 64"] by (simp add: utf8_bytes_def)
qed

lemma utf8_three:
  assumes "unat c div 16 = 14" "unat c1 div 64 = 2" "unat c2 div 64 = 2" "n = carry (unat c mod 16) [c1, c2]" "0x800 \<le> n"
  shows "utf8_bytes n = [c, c1, c2]"
proof -
  have n: "n div 64 = carry (unat c mod 16) [c1]" "of_nat (128 + n mod 64) = c2"
    using carry_last [of n "unat c mod 16" "[c1]" c2] assms(3,4) by simp_all
  have "n div 64 div 64 = unat c mod 16" "of_nat (128 + n div 64 mod 64) = c1"
    using carry_last [of "n div 64" "unat c mod 16" "[]" c1] assms(2) n(1) by simp_all
  moreover have "n < 0x10000" using carry_bound [of "unat c mod 16" "[c1, c2]"] assms(4) by simp
  ultimately show ?thesis using assms(5) lead_of_nat [OF assms(1), of "n div 4096"] n(2)
    by (simp add: utf8_bytes_def div_mult2_eq [symmetric])
qed

lemma utf8_four:
  assumes "unat c div 8 = 30" "unat c1 div 64 = 2" "unat c2 div 64 = 2" "unat c3 div 64 = 2"
    "n = carry (unat c mod 8) [c1, c2, c3]" "0x10000 \<le> n"
  shows "utf8_bytes n = [c, c1, c2, c3]"
proof -
  have n: "n div 64 = carry (unat c mod 8) [c1, c2]" "of_nat (128 + n mod 64) = c3"
    using carry_last [of n "unat c mod 8" "[c1, c2]" c3] assms(4,5) by simp_all
  have n2: "n div 64 div 64 = carry (unat c mod 8) [c1]" "of_nat (128 + n div 64 mod 64) = c2"
    using carry_last [of "n div 64" "unat c mod 8" "[c1]" c2] assms(3) n(1) by simp_all
  have "n div 64 div 64 div 64 = unat c mod 8" "of_nat (128 + n div 64 div 64 mod 64) = c1"
    using carry_last [of "n div 64 div 64" "unat c mod 8" "[]" c1] assms(2) n2(1) by simp_all
  then show ?thesis using assms(6) lead_of_nat [OF assms(1), of "n div 262144"] n(2) n2(2)
    by (simp add: utf8_bytes_def div_mult2_eq [symmetric])
qed

definition utf8_tail :: "u8 \<Rightarrow> nat \<Rightarrow> nat \<Rightarrow> u32 \<Rightarrow> cbs \<Rightarrow> u32 cbs_res" where
  "utf8_tail c k n lb cs = cbs_then (utf8_continue n cs (ucast (c AND BOTTOM_BITS k)))
     (\<lambda>v cbs. if \<not> is_valid_code_point v \<or> v < lb then (None, cbs) else (Some v, cbs))"

lemma get_utf8_Cons:
  "cbs_get_utf8 (c # cs) =
    (if unat c < 128 then (Some (ucast c), cs)
     else if unat c div 32 = 6 then utf8_tail c 5 1 0x80 cs
     else if unat c div 16 = 14 then utf8_tail c 4 2 0x800 cs
     else if unat c div 8 = 30 then utf8_tail c 3 3 0x10000 cs
     else (None, cs))"
proof -
  have "c \<le> 0x7f \<longleftrightarrow> unat c < 128" by (auto simp: word_le_nat_alt)
  then show ?thesis by (simp add: cbs_get_utf8_def cbs_then_def top_cases Let_def utf8_tail_def)
qed

lemma utf8_tail_iff:
  assumes "k \<le> 8" "2 ^ k * 64 ^ n \<le> (2 :: nat) ^ 32"
  shows "utf8_tail c k n lb cs = (Some u, rest) \<longleftrightarrow> is_valid_code_point u \<and> unat lb \<le> unat u \<and>
    (\<exists>xs. cs = xs @ rest \<and> length xs = n \<and> (\<forall>x \<in> set xs. unat x div 64 = 2) \<and> unat u = carry (unat c mod 2 ^ k) xs)"
proof -
  let ?v = "ucast (c AND BOTTOM_BITS k) :: u32"
  have v: "unat ?v = unat c mod 2 ^ k" using assms(1) by (simp add: unat_ucast_8_32 unat_and_bottom)
  have "unat c mod 2 ^ k + 1 \<le> 2 ^ k" by (simp add: Suc_leI)
  then have "(unat ?v + 1) * 64 ^ n \<le> 2 ^ k * 64 ^ n" unfolding v by (rule mult_le_mono1)
  then have "(unat ?v + 1) * 64 ^ n \<le> 2 ^ 32" using assms(2) by (rule order_trans)
  note i = utf8_continue_iff [OF this, of cs, unfolded v]
  have "utf8_tail c k n lb cs = (Some u, rest) \<longleftrightarrow>
      utf8_continue n cs ?v = (Some u, rest) \<and> is_valid_code_point u \<and> \<not> u < lb"
    by (auto simp: utf8_tail_def cbs_then_def split: prod.splits option.splits if_splits)
  then show ?thesis by (auto simp: i word_less_nat_alt)
qed

lemma valid_bound: "is_valid_code_point u \<Longrightarrow> unat u < 0x110000"
  by (auto simp: is_valid_code_point_def word_less_nat_alt split: if_splits)

lemma small_valid: "unat u < 128 \<Longrightarrow> is_valid_code_point u"
proof -
  assume u: "unat u < 128"
  have "u AND 0xfffe \<le> u" by (rule word_and_le1 word_and_le2)
  then have "unat (u AND 0xfffe) \<le> unat u" by (simp only: word_le_nat_alt)
  with u have "u AND 0xfffe \<noteq> 0xfffe" by (auto simp: word_unat_eq_iff)
  with u show ?thesis by (simp add: is_valid_code_point_def word_less_nat_alt word_le_nat_alt)
qed

text \<open>Reading back what was encoded: the fields of the bytes are the digits of the value.\<close>

lemma field: "unat (c :: u8) = k * q + a \<Longrightarrow> a < k \<Longrightarrow> unat c div k = q \<and> unat c mod k = a"
  by simp

lemma tail_encoded:
  assumes "k \<le> 8" "2 ^ k * 64 ^ n \<le> (2 :: nat) ^ 32" "length xs = n" "is_valid_code_point u" "unat lb \<le> unat u"
    "\<forall>x \<in> set xs. unat x div 64 = 2" "unat u = carry (unat c mod 2 ^ k) xs"
  shows "utf8_tail c k n lb (xs @ rest) = (Some u, rest)"
  using utf8_tail_iff [OF assms(1,2)] assms(3-) by blast

lemma get_two:
  assumes "unat c = 32 * 6 + a" "a < 32" "unat c1 = 64 * 2 + b" "b < 64"
    "unat u = a * 64 + b" "0x80 \<le> unat u" "is_valid_code_point u"
  shows "cbs_get_utf8 (c # c1 # rest) = (Some u, rest)"
proof -
  note f = field [OF assms(1,2)] field [OF assms(3,4)]
  have "cbs_get_utf8 (c # c1 # rest) = utf8_tail c 5 1 0x80 ([c1] @ rest)"
    using f(1) assms(1) by (simp add: get_utf8_Cons)
  also have "\<dots> = (Some u, rest)"
    by (rule tail_encoded) (use f assms in \<open>simp_all\<close>)
  finally show ?thesis .
qed

lemma get_three:
  assumes "unat c = 16 * 14 + a" "a < 16" "unat c1 = 64 * 2 + b" "b < 64" "unat c2 = 64 * 2 + d" "d < 64"
    "unat u = (a * 64 + b) * 64 + d" "0x800 \<le> unat u" "is_valid_code_point u"
  shows "cbs_get_utf8 (c # c1 # c2 # rest) = (Some u, rest)"
proof -
  note f = field [OF assms(1,2)] field [OF assms(3,4)] field [OF assms(5,6)]
  have "unat c div 32 = 7" "\<not> unat c < 128" using assms(1,2) by linarith+
  then have "cbs_get_utf8 (c # c1 # c2 # rest) = utf8_tail c 4 2 0x800 ([c1, c2] @ rest)"
    using f(1) by (simp add: get_utf8_Cons)
  also have "\<dots> = (Some u, rest)"
    by (rule tail_encoded) (use f assms in \<open>simp_all\<close>)
  finally show ?thesis .
qed

lemma get_four:
  assumes "unat c = 8 * 30 + a" "a < 8" "unat c1 = 64 * 2 + b" "b < 64" "unat c2 = 64 * 2 + d" "d < 64"
    "unat c3 = 64 * 2 + e" "e < 64"
    "unat u = ((a * 64 + b) * 64 + d) * 64 + e" "0x10000 \<le> unat u" "is_valid_code_point u"
  shows "cbs_get_utf8 (c # c1 # c2 # c3 # rest) = (Some u, rest)"
proof -
  note f = field [OF assms(1,2)] field [OF assms(3,4)] field [OF assms(5,6)] field [OF assms(7,8)]
  have "unat c div 32 = 7" "unat c div 16 = 15" "\<not> unat c < 128" using assms(1,2) by linarith+
  then have "cbs_get_utf8 (c # c1 # c2 # c3 # rest) = utf8_tail c 3 3 0x10000 ([c1, c2, c3] @ rest)"
    using f(1) by (simp add: get_utf8_Cons)
  also have "\<dots> = (Some u, rest)"
    by (rule tail_encoded) (use f assms in \<open>simp_all\<close>)
  finally show ?thesis .
qed

lemma unat_byte: "n < 256 \<Longrightarrow> unat (of_nat n :: u8) = n"
  by (intro unat_of_nat_eq) simp

lemma get_utf8_iff:
  "cbs_get_utf8 cbs = (Some u, rest) \<longleftrightarrow> is_valid_code_point u \<and> cbs = utf8_bytes (unat u) @ rest"
proof
  assume a: "cbs_get_utf8 cbs = (Some u, rest)"
  then obtain c cs where cbs: "cbs = c # cs" by (cases cbs) (auto simp: cbs_get_utf8_def cbs_then_def)
  have one: "length xs = Suc 0 \<longleftrightarrow> (\<exists>c1. xs = [c1])" "length xs = 2 \<longleftrightarrow> (\<exists>c1 c2. xs = [c1, c2])"
      "length xs = 3 \<longleftrightarrow> (\<exists>c1 c2 c3. xs = [c1, c2, c3])" for xs :: "u8 list"
    by (auto simp: length_Suc_conv numeral_eq_Suc)
  have "unat c < 128 \<or> unat c div 32 = 6 \<or> unat c div 16 = 14 \<or> unat c div 8 = 30"
    by (rule ccontr) (use a in \<open>simp add: cbs get_utf8_Cons\<close>)
  then consider (a) "unat c < 128" | (b) "\<not> unat c < 128" "unat c div 32 = 6" | (c) "\<not> unat c < 128" "unat c div 32 \<noteq> 6" "unat c div 16 = 14"
    | (d) "\<not> unat c < 128" "unat c div 32 \<noteq> 6" "unat c div 16 \<noteq> 14" "unat c div 8 = 30"
    by blast
  then show "is_valid_code_point u \<and> cbs = utf8_bytes (unat u) @ rest"
  proof cases
    case a
    then have "u = ucast c" "rest = cs" using \<open>cbs_get_utf8 cbs = _\<close> by (simp_all add: cbs get_utf8_Cons)
    moreover have "unat (ucast c :: u32) = unat c" by (rule unat_ucast_8_32)
    ultimately show ?thesis using a small_valid [of u] by (simp add: cbs utf8_single)
  next
    case b
    then have "utf8_tail c 5 1 0x80 cs = (Some u, rest)" using a by (simp add: cbs get_utf8_Cons)
    then obtain xs where x: "is_valid_code_point u" "0x80 \<le> unat u" "cs = xs @ rest" "length xs = 1"
        "\<forall>x \<in> set xs. unat x div 64 = 2" "unat u = carry (unat c mod 2 ^ 5) xs"
      by (subst (asm) utf8_tail_iff) auto
    from x(4) obtain c1 where xs: "xs = [c1]" using one by auto
    have "utf8_bytes (unat u) = c # xs" unfolding xs
      by (rule utf8_two [OF b(2)]) (use x xs in \<open>simp_all del: carry_simps\<close>)
    then show ?thesis using x by (simp add: cbs)
  next
    case c
    then have "utf8_tail c 4 2 0x800 cs = (Some u, rest)" using a by (simp add: cbs get_utf8_Cons)
    then obtain xs where x: "is_valid_code_point u" "0x800 \<le> unat u" "cs = xs @ rest" "length xs = 2"
        "\<forall>x \<in> set xs. unat x div 64 = 2" "unat u = carry (unat c mod 2 ^ 4) xs"
      by (subst (asm) utf8_tail_iff) auto
    from x(4) obtain c1 c2 where xs: "xs = [c1, c2]" using one by auto
    have "utf8_bytes (unat u) = c # xs" unfolding xs
      by (rule utf8_three [OF c(3)]) (use x xs in \<open>simp_all del: carry_simps\<close>)
    then show ?thesis using x by (simp add: cbs)
  next
    case d
    then have "utf8_tail c 3 3 0x10000 cs = (Some u, rest)" using a by (simp add: cbs get_utf8_Cons)
    then obtain xs where x: "is_valid_code_point u" "0x10000 \<le> unat u" "cs = xs @ rest" "length xs = 3"
        "\<forall>x \<in> set xs. unat x div 64 = 2" "unat u = carry (unat c mod 2 ^ 3) xs"
      by (subst (asm) utf8_tail_iff) auto
    from x(4) obtain c1 c2 c3 where xs: "xs = [c1, c2, c3]" using one by auto
    have "utf8_bytes (unat u) = c # xs" unfolding xs
      by (rule utf8_four [OF d(4)]) (use x xs in \<open>simp_all del: carry_simps\<close>)
    then show ?thesis using x by (simp add: cbs)
  qed
next
  assume a: "is_valid_code_point u \<and> cbs = utf8_bytes (unat u) @ rest"
  then have v: "is_valid_code_point u" and "unat u < 0x110000" and cbs: "cbs = utf8_bytes (unat u) @ rest"
    using valid_bound by auto
  then consider "unat u < 0x80" | "0x80 \<le> unat u" "unat u < 0x800" | "0x800 \<le> unat u" "unat u < 0x10000"
    | "0x10000 \<le> unat u" "unat u < 0x110000" by linarith
  then show "cbs_get_utf8 cbs = (Some u, rest)"
  proof cases
    case 1
    define c where "c = (of_nat (unat u) :: u8)"
    have c: "unat c = unat u" unfolding c_def by (rule unat_byte) (use 1 in simp)
    then have "(ucast c :: u32) = u" by (simp only: word_unat_eq_iff unat_ucast_8_32)
    moreover have "utf8_bytes (unat u) = [c]" using 1 by (simp only: utf8_single c_def)
    ultimately show ?thesis using 1 c by (simp add: cbs get_utf8_Cons)
  next
    case 2
    define a b where "a = unat u div 64" and "b = unat u mod 64"
    have l: "a < 32" "b < 64" using 2 by (simp_all add: a_def b_def div_less_iff_less_mult)
    have u: "unat u = a * 64 + b" by (simp add: a_def b_def)
    have e: "utf8_bytes (unat u) = [of_nat (192 + a), of_nat (128 + b)]"
      using 2 by (simp only: utf8_bytes_def a_def b_def) simp
    show ?thesis unfolding cbs e
      by (simp only: append.simps, rule get_two) (use l u 2 v in \<open>simp_all add: unat_byte del: of_nat_add\<close>)
  next
    case 3
    define a b d where "a = unat u div 4096" and "b = unat u div 64 mod 64" and "d = unat u mod 64"
    have l: "a < 16" "b < 64" "d < 64" using 3 by (simp_all add: a_def b_def d_def div_less_iff_less_mult)
    have "a = unat u div 64 div 64" by (simp add: a_def div_mult2_eq [symmetric])
    then have u: "unat u = (a * 64 + b) * 64 + d" by (simp only: b_def d_def div_mult_mod_eq)
    have e: "utf8_bytes (unat u) = [of_nat (224 + a), of_nat (128 + b), of_nat (128 + d)]"
      using 3 by (simp only: utf8_bytes_def a_def b_def d_def) simp
    show ?thesis unfolding cbs e
      by (simp only: append.simps, rule get_three) (use l u 3 v in \<open>simp_all add: unat_byte del: of_nat_add\<close>)
  next
    case 4
    define a b d e where "a = unat u div 262144" and "b = unat u div 4096 mod 64" and "d = unat u div 64 mod 64"
      and "e = unat u mod 64"
    have l: "a < 8" "b < 64" "d < 64" "e < 64" using 4 by (simp_all add: a_def b_def d_def e_def div_less_iff_less_mult)
    have "a = unat u div 64 div 64 div 64" "b = unat u div 64 div 64 mod 64"
      by (simp_all add: a_def b_def div_mult2_eq [symmetric])
    then have u: "unat u = ((a * 64 + b) * 64 + d) * 64 + e" by (simp only: d_def e_def div_mult_mod_eq)
    have e: "utf8_bytes (unat u) = [of_nat (240 + a), of_nat (128 + b), of_nat (128 + d), of_nat (128 + e)]"
      using 4 by (simp only: utf8_bytes_def a_def b_def d_def e_def) simp
    show ?thesis unfolding cbs e
      by (simp only: append.simps, rule get_four) (use l u 4 v in \<open>simp_all add: unat_byte del: of_nat_add\<close>)
  qed
qed

text \<open>The encoder writes the same bytes.\<close>

lemma low_byte: "TOP_BITS 1 OR (ucast (drop_bit k (u :: u32)) AND BOTTOM_BITS 6) = of_nat (128 + unat u div 2 ^ k mod 64)"
proof (rule word_eq_of_unat)
  let ?r = "ucast (drop_bit k u) AND BOTTOM_BITS 6"
  have r: "unat ?r = unat u div 2 ^ k mod 64"
    by (simp add: unat_and_bottom unat_ucast_mod unat_drop_bit mod_mod_cancel)
  then show "unat (TOP_BITS 1 OR ?r) = 128 + unat u div 2 ^ k mod 64"
    by (subst unat_top_or) (simp_all add: unat_top [of 1, simplified])
qed

lemma lead_byte_or:
  assumes "n \<le> 8" "unat (u :: u32) div 2 ^ k < 2 ^ (8 - n)"
  shows "TOP_BITS n OR ucast (drop_bit k u) = of_nat (255 div 2 ^ (8 - n) * 2 ^ (8 - n) + unat u div 2 ^ k)"
proof (rule word_eq_of_unat)
  have "(2 :: nat) ^ (8 - n) \<le> 2 ^ 8" by (rule power_increasing) simp_all
  then have "unat u div 2 ^ k < 256" using assms(2) by simp
  then have r: "unat (ucast (drop_bit k u) :: u8) = unat u div 2 ^ k" by (simp add: unat_ucast_mod unat_drop_bit)
  then show "unat (TOP_BITS n OR ucast (drop_bit k u)) = 255 div 2 ^ (8 - n) * 2 ^ (8 - n) + unat u div 2 ^ k"
    using assms by (simp add: unat_top_or unat_top)
qed

lemma put_bytes_refine:
  "refines h (\<lambda>s. CBB_add_u8 h s a) (a_write (Some [a]))"
  "refines h (\<lambda>s. cbb_then (CBB_add_u8 h s a) (\<lambda>s. CBB_add_u8 h s b)) (a_write (Some [a, b]))"
  "refines h (\<lambda>s. cbb_then (CBB_add_u8 h s a) (\<lambda>s. cbb_then (CBB_add_u8 h s b) (\<lambda>s. CBB_add_u8 h s c)))
     (a_write (Some [a, b, c]))"
  "refines h (\<lambda>s. cbb_then (CBB_add_u8 h s a) (\<lambda>s. cbb_then (CBB_add_u8 h s b) (\<lambda>s.
      cbb_then (CBB_add_u8 h s c) (\<lambda>s. CBB_add_u8 h s d)))) (a_write (Some [a, b, c, d]))"
proof -
  note w = add_u8_refines
  show "refines h (\<lambda>s. CBB_add_u8 h s a) (a_write (Some [a]))" for a by (rule w)
  show 2: "refines h (\<lambda>s. cbb_then (CBB_add_u8 h s a) (\<lambda>s. CBB_add_u8 h s b)) (a_write (Some [a, b]))" for a b
    using write_then_write [OF w w] by simp
  show 3: "refines h (\<lambda>s. cbb_then (CBB_add_u8 h s a) (\<lambda>s. cbb_then (CBB_add_u8 h s b) (\<lambda>s. CBB_add_u8 h s c)))
     (a_write (Some [a, b, c]))" for a b c
    using write_then_write [OF w 2] by simp
  show "refines h (\<lambda>s. cbb_then (CBB_add_u8 h s a) (\<lambda>s. cbb_then (CBB_add_u8 h s b) (\<lambda>s.
      cbb_then (CBB_add_u8 h s c) (\<lambda>s. CBB_add_u8 h s d)))) (a_write (Some [a, b, c, d]))"
    using write_then_write [OF w 3] by simp
qed

lemma refuse_refines: "refines h (\<lambda>s. (False, s)) (a_write None)"
  unfolding refines_def
proof (intro allI impI)
  fix s pre bld assume hs: "holds s pre bld"
  then obtain b where "fst s = Some b" "buffer_ok b" by (auto simp: holds_def)
  then show "outcome h s (False, s) pre (a_write None bld)"
    using holds_valid [OF hs] by (simp add: outcome_def a_write_def confined_refl split: option.split)
qed

lemma add_utf8_refines:
  "refines h (\<lambda>s. cbb_add_utf8 h s u) (a_write (if is_valid_code_point u then Some (utf8_bytes (unat u)) else None))"
proof (cases "is_valid_code_point u")
  case False
  then show ?thesis using refuse_refines by (simp add: cbb_add_utf8_def)
next
  case True
  have low: "TOP_BITS (Suc 0) OR (ucast u AND BOTTOM_BITS 6) = of_nat (128 + unat u mod 64)"
      "TOP_BITS (Suc 0) OR (ucast (drop_bit 6 u) AND BOTTOM_BITS 6) = of_nat (128 + unat u div 64 mod 64)"
      "TOP_BITS (Suc 0) OR (ucast (drop_bit 12 u) AND BOTTOM_BITS 6) = of_nat (128 + unat u div 4096 mod 64)"
    using low_byte [of 0 u] low_byte [of 6 u] low_byte [of 12 u] by (simp_all del: of_nat_add)
  have le: "u \<le> 0x7f \<longleftrightarrow> unat u < 0x80" "u \<le> 0x7ff \<longleftrightarrow> unat u < 0x800" "u \<le> 0xffff \<longleftrightarrow> unat u < 0x10000"
      "u \<le> 0x10ffff"
    using valid_bound [OF True] by (auto simp: word_le_nat_alt)
  consider "unat u < 0x80" | "0x80 \<le> unat u" "unat u < 0x800" | "0x800 \<le> unat u" "unat u < 0x10000"
    | "0x10000 \<le> unat u" "unat u < 0x110000" using valid_bound [OF True] by linarith
  then show ?thesis
  proof cases
    case 1
    have "(\<lambda>s. cbb_add_utf8 h s u) = (\<lambda>s. CBB_add_u8 h s (of_nat (unat u)))"
      using True 1 le by (simp add: cbb_add_utf8_def fun_eq_iff)
    then show ?thesis using True put_bytes_refine(1) 1 by (simp only: utf8_single if_True)
  next
    case 2
    then have l: "TOP_BITS 2 OR ucast (drop_bit 6 u) = of_nat (192 + unat u div 64)"
      using lead_byte_or [of 2 u 6] by (simp add: div_less_iff_less_mult)
    show ?thesis using True 2 le put_bytes_refine(2)
      by (simp add: cbb_add_utf8_def utf8_bytes_def Let_def l low del: of_nat_add)
  next
    case 3
    then have l: "TOP_BITS 3 OR ucast (drop_bit 12 u) = of_nat (224 + unat u div 4096)"
      using lead_byte_or [of 3 u 12] by (simp add: div_less_iff_less_mult)
    show ?thesis using True 3 le put_bytes_refine(3)
      by (simp add: cbb_add_utf8_def utf8_bytes_def Let_def l low del: of_nat_add)
  next
    case 4
    then have l: "TOP_BITS 4 OR ucast (drop_bit 18 u) = of_nat (240 + unat u div 262144)"
      using lead_byte_or [of 4 u 18] by (simp add: div_less_iff_less_mult)
    show ?thesis using True 4 le put_bytes_refine(4)
      by (simp add: cbb_add_utf8_def utf8_bytes_def Let_def l low del: of_nat_add)
  qed
qed

section \<open>Object identifiers\<close>

lemma digit_char: "d < 10 \<Longrightarrow> unat (of_nat (48 + d) :: u8) = 48 + d"
  by (rule unat_byte) simp

lemma decimal_unfold: "\<not> n < 10 \<Longrightarrow> decimal n = decimal (n div 10) @ [of_nat (48 + n mod 10)]"
  by (subst decimal.simps) simp

text \<open>One digit of the parser: no leading zero, no overflow.\<close>

lemma dotted_digit:
  assumes d: "d < 10" and n: "m * 10 + d < 2 ^ 64" and s: "seen \<longrightarrow> m \<noteq> 0"
  shows "dotted_decimal_loop (of_nat (48 + d) # cbs) (of_nat m) seen =
    dotted_decimal_loop cbs (of_nat (m * 10 + d)) True"
proof -
  define u where "u = (of_nat (48 + d) :: u8)"
  have u: "unat u = 48 + d" unfolding u_def using d by (rule digit_char)
  have m: "m < 2 ^ 64" "m \<le> 1844674407370955161" using n by simp_all
  have um: "unat (of_nat m :: u64) = m" using m(1) by (intro unat_of_nat_eq) simp
  have "unat (u - 48) = d" using u by (subst unat_sub) (simp_all add: word_le_nat_alt)
  then have ud: "unat (ucast (u - 48) :: u64) = d" by (simp only: unat_ucast_8_64)
  have max: "unat (- 1 :: u64) = 18446744073709551615" by (simp add: unsigned_minus_1_eq_mask mask_eq_exp_minus_1)
  have m10: "unat (of_nat m * 10 :: u64) = m * 10" using m um by (simp add: unat_mult_lem [THEN iffD1])
  have a: "\<not> (of_nat m :: u64) > (- 1) div 10"
    using m um max by (simp add: word_less_nat_alt unat_div del: unat_of_nat)
  have "unat (- 1 - ucast (u - 48) :: u64) = 18446744073709551615 - d"
    using max ud d by (subst unat_sub) (simp_all add: word_le_nat_alt)
  then have b: "\<not> (of_nat m * 10 :: u64) > - 1 - ucast (u - 48)"
    using n m10 by (simp add: word_less_nat_alt)
  have c: "(of_nat m :: u64) * 10 + ucast (u - 48) = of_nat (m * 10 + d)"
    by (rule word_eq_of_unat) (use n m10 ud in \<open>simp add: unat_plus_simple [THEN iffD1] word_le_nat_alt unat_plus_if'\<close>)
  have z: "(of_nat m :: u64) = 0 \<longleftrightarrow> m = 0" using um by (auto simp: word_unat_eq_iff)
  have r: "u \<noteq> ascii_dot" "\<not> u < 48" "\<not> u > 57"
    using u d by (auto simp: ascii_dot_def word_less_nat_alt word_unat_eq_iff)
  show ?thesis unfolding u_def [symmetric] using a b c r s z by (auto simp del: of_nat_add of_nat_mult)
qed

lemma dotted_decimal_digits:
  "n < 2 ^ 64 \<Longrightarrow> dotted_decimal_loop (decimal n @ cbs) 0 False = dotted_decimal_loop cbs (of_nat n) True"
proof (induction n arbitrary: cbs rule: decimal.induct)
  case (1 n)
  show ?case
  proof (cases "n < 10")
    case True
    then show ?thesis using dotted_digit [of n 0 False cbs] by (simp add: decimal.simps [of n] del: of_nat_add)
  next
    case False
    have e: "decimal n @ cbs = decimal (n div 10) @ of_nat (48 + n mod 10) # cbs"
      unfolding decimal_unfold [OF False] by simp
    have "dotted_decimal_loop (decimal n @ cbs) 0 False =
        dotted_decimal_loop (of_nat (48 + n mod 10) # cbs) (of_nat (n div 10)) True"
      unfolding e by (rule "1.IH") (use False "1.prems" in simp_all)
    also have "\<dots> = dotted_decimal_loop cbs (of_nat n) True"
      using dotted_digit [of "n mod 10" "n div 10" True cbs] 1(2) False by (simp only: div_mult_mod_eq) simp
    finally show ?thesis .
  qed
qed

lemma parse_decimal:
  assumes "n < 2 ^ 64"
  shows "parse_dotted_decimal (decimal n) = (Some (of_nat n), [])"
    "cbs \<noteq> [] \<Longrightarrow> parse_dotted_decimal (decimal n @ ascii_dot # cbs) = (Some (of_nat n), cbs)"
  using dotted_decimal_digits [OF assms, of "[]"] dotted_decimal_digits [OF assms, of "ascii_dot # cbs"]
  by (simp_all add: parse_dotted_decimal_def CBS_len_def)

lemma decimal_not_Nil [simp]: "decimal n \<noteq> []"
  by (subst decimal.simps) simp

text \<open>An identifier, as text and as its DER contents.\<close>

definition oid_tail :: "nat list \<Rightarrow> u8 list" where
  "oid_tail cs = concat (map (\<lambda>c. ascii_dot # decimal c) cs)"

definition oid_text :: "nat \<Rightarrow> nat \<Rightarrow> nat list \<Rightarrow> u8 list" where
  "oid_text a b cs = decimal a @ ascii_dot # decimal b @ oid_tail cs"

definition oid_octets :: "nat \<Rightarrow> nat \<Rightarrow> nat list \<Rightarrow> u8 list" where
  "oid_octets a b cs = base128 (40 * a + b) @ concat (map base128 cs)"

definition oid_ok :: "nat \<Rightarrow> nat \<Rightarrow> nat list \<Rightarrow> bool" where
  "oid_ok a b cs \<longleftrightarrow> a \<le> 2 \<and> (a < 2 \<longrightarrow> b < 40) \<and> b < 2 ^ 64 - 80 \<and> (\<forall>c \<in> set cs. c < 2 ^ 64)"

lemma oid_tail_simps [simp]: "oid_tail [] = []" "oid_tail (c # cs) = ascii_dot # decimal c @ oid_tail cs"
  by (simp_all add: oid_tail_def)

lemma parse_component:
  "n < 2 ^ 64 \<Longrightarrow> parse_dotted_decimal (decimal n @ oid_tail cs) = (Some (of_nat n), drop 1 (oid_tail cs))"
  by (cases cs) (simp_all add: parse_decimal)

lemma cbb_then_assoc: "cbb_then r (\<lambda>s. cbb_then (f s) g) = cbb_then (cbb_then r f) g"
  by (auto simp: cbb_then_def split: prod.split)

lemma length_decimal: "n < 10 ^ k \<Longrightarrow> k \<noteq> 0 \<Longrightarrow> length (decimal n) \<le> k"
proof (induction n arbitrary: k rule: decimal.induct)
  case (1 n)
  show ?case
  proof (cases "n < 10")
    case True
    then show ?thesis using 1(3) by (simp add: decimal.simps [of n])
  next
    case False
    then obtain j where k: "k = Suc j" "j \<noteq> 0" using 1(2,3) by (cases k; cases "k - 1") auto
    then have "n div 10 < 10 ^ j" using 1(2) by (simp add: div_less_iff_less_mult)
    with 1(1) [OF False this k(2)] k show ?thesis unfolding decimal_unfold [OF False] by simp
  qed
qed

lemma add_decimal_refines:
  "refines h (\<lambda>s. add_decimal h s v) (a_write (Some (decimal (unat v))))"
proof -
  have "unat v < 18446744073709551616" by (rule unat_lt_u64)
  also have "\<dots> < 10 ^ 20" by simp
  finally have "length (decimal (unat v)) < SIZE_T" using length_decimal [of "unat v" 20] by (simp add: SIZE_T_def)
  then show ?thesis unfolding add_decimal_def by (rule add_bytes_refines)
qed

lemma base128_of_nat: "n < 2 ^ 64 \<Longrightarrow> refines h (\<lambda>s. add_base128_integer h s (of_nat n)) (a_write (Some (base128 n)))"
  using base128.writes [of h "of_nat n"] by (simp add: unat_of_nat_eq)

lemma components_refine:
  assumes "refines h op (a_write (Some e))" "\<forall>c \<in> set cs. c < 2 ^ 64"
  shows "refines h (\<lambda>s. cbb_then (op s) (\<lambda>s. oid_components_loop h s (drop 1 (oid_tail cs))))
    (a_write (Some (e @ concat (map base128 cs))))"
  using assms
proof (induction cs arbitrary: op e)
  case Nil
  then show ?case by (simp add: oid_components_loop.simps CBS_len_def)
next
  case (Cons c cs)
  have "oid_components_loop h s (drop 1 (oid_tail (c # cs))) =
      cbb_then (add_base128_integer h s (of_nat c)) (\<lambda>s. oid_components_loop h s (drop 1 (oid_tail cs)))" for s
    using parse_component [of c cs] Cons.prems(2)
    by (simp add: oid_components_loop.simps [of h s "decimal c @ oid_tail cs"] CBS_len_def cbb_then_def
        split: prod.split bool.split)
  moreover have "refines h (\<lambda>s. cbb_then (op s) (\<lambda>s. add_base128_integer h s (of_nat c))) (a_write (Some (e @ base128 c)))"
    using write_then_write [OF Cons.prems(1) base128_of_nat] Cons.prems(2) by simp
  from Cons.IH [OF this] Cons.prems(2)
  have "refines h (\<lambda>s. cbb_then (cbb_then (op s) (\<lambda>s. add_base128_integer h s (of_nat c)))
      (\<lambda>s. oid_components_loop h s (drop 1 (oid_tail cs)))) (a_write (Some ((e @ base128 c) @ concat (map base128 cs))))"
    by simp
  ultimately show ?case by (simp only: cbb_then_assoc list.map concat.simps append.assoc)
qed

lemma text_loop_refine:
  assumes "refines h op (a_write (Some e))" "\<forall>c \<in> set cs. c < 2 ^ 64"
  shows "refines h (\<lambda>s. cbb_then (op s) (oid_text_loop h (concat (map base128 cs)))) (a_write (Some (e @ oid_tail cs)))"
  using assms
proof (induction cs arbitrary: op e)
  case Nil
  have "oid_text_loop h [] = (\<lambda>s. (True, s))" by (rule ext) (simp add: oid_text_loop.simps CBS_len_def)
  with Nil show ?case by simp
next
  case (Cons c cs)
  let ?put = "\<lambda>s. cbb_then (CBB_add_u8 h s ascii_dot) (\<lambda>s. add_decimal h s (of_nat c))"
  have c: "c < 2 ^ 64" using Cons.prems(2) by simp
  then have uc: "unat (of_nat c :: u64) = c" by (intro unat_of_nat_eq) simp
  have l: "oid_text_loop h (concat (map base128 (c # cs))) = (\<lambda>s. cbb_then (?put s) (oid_text_loop h (concat (map base128 cs))))"
    using parse_base128_encoded [OF c, of "concat (map base128 cs)"] length_base128 [of c]
    by (intro ext) (simp add: oid_text_loop.simps [of h "base128 c @ concat (map base128 cs)"] CBS_len_def cbb_then_def
        split: prod.split bool.split)
  have "refines h ?put (a_write (Some (ascii_dot # decimal c)))"
    using write_then_write [OF add_u8_refines add_decimal_refines, of h ascii_dot "of_nat c"] by (simp add: uc)
  from write_then_write [OF Cons.prems(1) this]
  have "refines h (\<lambda>s. cbb_then (op s) ?put) (a_write (Some (e @ ascii_dot # decimal c)))" .
  from Cons.IH [OF this] Cons.prems(2)
  have "refines h (\<lambda>s. cbb_then (cbb_then (op s) ?put) (oid_text_loop h (concat (map base128 cs))))
      (a_write (Some ((e @ ascii_dot # decimal c) @ oid_tail cs)))" by simp
  then show ?case unfolding l cbb_then_assoc [symmetric] by simp
qed

lemma oid_first:
  assumes "oid_ok a b cs"
  shows "40 * a + b < 2 ^ 64" "a < 2 ^ 64" "b < 2 ^ 64"
  using assms by (auto simp: oid_ok_def)

lemma refines_flush_first:
  assumes "refines h op (a_write (Some e))"
  shows "refines h (\<lambda>s. cbb_then (CBB_flush h s) op) (a_write (Some e))"
  using write_then_write [OF flush_refines assms] by simp

lemma from_text_refines:
  assumes ok: "oid_ok a b cs"
  shows "refines h (\<lambda>s. CBB_add_asn1_oid_from_text h s (oid_text a b cs)) (a_write (Some (oid_octets a b cs)))"
proof -
  note lt = oid_first [OF ok]
  have ua: "unat (of_nat a :: u64) = a" and ub: "unat (of_nat b :: u64) = b" using lt by (simp_all add: unat_of_nat_eq)
  have cs: "\<forall>c \<in> set cs. c < 2 ^ 64" using ok by (simp add: oid_ok_def)
  have p1: "parse_dotted_decimal (CBS_init (oid_text a b cs)) = (Some (of_nat a), decimal b @ oid_tail cs)"
    using lt by (simp add: oid_text_def CBS_init_def parse_decimal)
  note p2 = parse_component [OF lt(3), of cs]
  have "unat (- 1 - 80 :: u64) = 2 ^ 64 - 81"
    by (subst unat_sub) (simp_all add: word_le_nat_alt unsigned_minus_1_eq_mask mask_eq_exp_minus_1)
  then have r: "\<not> ((of_nat a :: u64) > 2 \<or> ((of_nat a :: u64) < 2 \<and> (of_nat b :: u64) > 39) \<or> (of_nat b :: u64) > - 1 - 80)"
    using ok ua ub by (auto simp: word_less_nat_alt oid_ok_def simp del: unat_of_nat)
  have e: "40 * of_nat a + of_nat b = (of_nat (40 * a + b) :: u64)" by simp
  have "CBB_add_asn1_oid_from_text h s (oid_text a b cs) = cbb_then (CBB_flush h s) (\<lambda>s.
      cbb_then (add_base128_integer h s (of_nat (40 * a + b))) (\<lambda>s. oid_components_loop h s (drop 1 (oid_tail cs))))" for s
    unfolding CBB_add_asn1_oid_from_text_def p1 prod.case option.case p2 if_not_P [OF r] e ..
  then show ?thesis
    using refines_flush_first [OF components_refine [OF base128_of_nat [OF lt(1)] cs]] by (simp add: oid_octets_def)
qed

lemma first_two_refine:
  assumes ok: "oid_ok a b cs"
  defines "v \<equiv> of_nat (40 * a + b) :: u64"
  shows "refines h (\<lambda>s. if v \<ge> 80
      then cbb_then (CBB_add_bytes h s [50, ascii_dot]) (\<lambda>s. add_decimal h s (v - 80))
      else cbb_then (add_decimal h s (v div 40)) (\<lambda>s. cbb_then (CBB_add_u8 h s ascii_dot) (\<lambda>s. add_decimal h s (v mod 40))))
    (a_write (Some (decimal a @ ascii_dot # decimal b)))"
proof -
  have uv: "unat v = 40 * a + b" unfolding v_def using oid_first(1) [OF ok] by (intro unat_of_nat_eq) simp
  have ge: "v \<ge> 80 \<longleftrightarrow> 80 \<le> 40 * a + b" by (simp add: word_le_nat_alt uv)
  show ?thesis
  proof (cases "a = 2")
    case True
    then have "v \<ge> 80" by (simp add: ge)
    moreover from this have "unat (v - 80) = b" using True uv by (subst unat_sub) simp_all
    moreover have "decimal a = [50]" using True by (simp add: decimal.simps)
    moreover have "length [50, ascii_dot] < SIZE_T" by (simp add: SIZE_T_def)
    ultimately show ?thesis
      using write_then_write [OF add_bytes_refines add_decimal_refines, of "[50, ascii_dot]" h "v - 80"] by simp
  next
    case False
    then have ab: "a < 2" "b < 40" using ok by (auto simp: oid_ok_def)
    then have "\<not> v \<ge> 80" by (simp add: ge)
    moreover have "unat (v div 40) = a" "unat (v mod 40) = b" using ab by (simp_all add: unat_div unat_mod uv)
    ultimately show ?thesis
      using write_then_write [OF add_decimal_refines write_then_write [OF add_u8_refines add_decimal_refines],
          of h "v div 40" ascii_dot "v mod 40"] by simp
  qed
qed

text \<open>Out of a fresh builder, when memory does not run out.\<close>

lemma run_writer:
  assumes mem: "\<forall>k. malloc_ok h k" and n: "n < SIZE_T" and w: "refines h op (a_write (Some e))" and l: "length e < SIZE_T"
  shows "\<exists>s s1 r s2. CBB_init h n = (True, s) \<and> op s = (True, s1) \<and> CBB_finish h True s1 = (Some r, s2) \<and> finished_bytes r = e"
proof -
  obtain s where s: "CBB_init h n = (True, s)" "\<not> is_child (snd s)" using init_succeeds [OF mem] by blast
  note i = init_holds [OF s(1) n]
  obtain b where b: "fst s = Some b" "can_resize b" using i(2) by blast
  have rm: "has_room h b' (length e)" if "can_resize b'" for b' using that mem l by (simp add: has_room_def)
  have "outcome h s (op s) [] (Some (Closed e))" using refinesD [OF w i(1)] by (simp add: a_write_def)
  then obtain s1 b1 where s1: "op s = (True, s1)" "fst s1 = Some b1" "confined h b b1" "same_slot (snd s) (snd s1)" "holds s1 [] (Closed e)"
    using b rm by (cases "op s") (auto simp: outcome_def)
  then have "can_resize b1" "\<not> is_child (snd s1)" using b s(2) by (simp_all add: confined_def same_slot_def)
  with finish_succeeds [OF s1(5) _ _ s1(2)] rm obtain r s2 where "CBB_finish h True s1 = (Some r, s2)" by fastforce
  moreover from this finish_holds [OF s1(5)] have "finished_bytes r = e" by fastforce
  ultimately show ?thesis using s(1) s1(1) by blast
qed

lemma to_text_eq:
  assumes mem: "\<forall>k. malloc_ok h k" and ok: "oid_ok a b cs" and l: "length (oid_text a b cs) + 1 < SIZE_T"
  shows "\<exists>r. CBS_asn1_oid_to_text h (oid_octets a b cs) = Some r \<and> finished_bytes r = oid_text a b cs @ [0]"
proof -
  note lt = oid_first [OF ok]
  have cs: "\<forall>c \<in> set cs. c < 2 ^ 64" using ok by (simp add: oid_ok_def)
  define v where "v = (of_nat (40 * a + b) :: u64)"
  define first where "first = (\<lambda>s. if v \<ge> 80
      then cbb_then (CBB_add_bytes h s [50, ascii_dot]) (\<lambda>s. add_decimal h s (v - 80))
      else cbb_then (add_decimal h s (v div 40)) (\<lambda>s. cbb_then (CBB_add_u8 h s ascii_dot) (\<lambda>s. add_decimal h s (v mod 40))))"
  let ?loop = "oid_text_loop h (concat (map base128 cs))"
  have "refines h first (a_write (Some (decimal a @ ascii_dot # decimal b)))"
    unfolding first_def v_def by (rule first_two_refine [OF ok])
  from write_then_write [OF text_loop_refine [OF this cs] add_u8_refines]
  have "refines h (\<lambda>s. cbb_then (cbb_then (first s) ?loop) (\<lambda>s. CBB_add_u8 h s 0)) (a_write (Some (oid_text a b cs @ [0])))"
    by (simp add: oid_text_def)
  from run_writer [OF mem _ this, of 32] l obtain s s1 r s2 where
    r: "CBB_init h 32 = (True, s)" "cbb_then (cbb_then (first s) ?loop) (\<lambda>s. CBB_add_u8 h s 0) = (True, s1)"
      "CBB_finish h True s1 = (Some r, s2)" "finished_bytes r = oid_text a b cs @ [0]"
    by (auto simp: SIZE_T_def)
  have p: "parse_base128_integer (oid_octets a b cs) = (Some v, concat (map base128 cs))"
    unfolding oid_octets_def v_def by (rule parse_base128_encoded [OF lt(1)])
  obtain sa where a: "first s = (True, sa)" using r(2) by (cases "first s"; cases "fst (first s)") (auto simp: cbb_then_def)
  moreover obtain sb where b: "?loop sa = (True, sb)" using r(2) a by (cases "?loop sa"; cases "fst (?loop sa)") (auto simp: cbb_then_def)
  moreover have "CBB_add_u8 h sb 0 = (True, s1)" using r(2) a b by (simp add: cbb_then_def)
  ultimately have "CBS_asn1_oid_to_text h (oid_octets a b cs) = Some r"
    unfolding CBS_asn1_oid_to_text_def r(1) p prod.case option.case bool.case first_def [symmetric] using r(3)
    by (simp add: first_def)
  with r(4) show ?thesis by blast
qed

section \<open>Properties\<close>

text \<open>C23: UTF-8 is read exactly as it is written: the decoder accepts the encoding of each valid code point and
  nothing else (no overlong form, no surrogate, no stray continuation byte), and the encoder
  writes that encoding and refuses every other value.
\<close>

theorem utf8_canonical:
  "(cbs_get_utf8 cbs = (Some u, rest) \<longleftrightarrow> is_valid_code_point u \<and> cbs = utf8_bytes (unat u) @ rest) \<and>
   refines h (\<lambda>s. cbb_add_utf8 h s u) (a_write (if is_valid_code_point u then Some (utf8_bytes (unat u)) else None))"
  using get_utf8_iff add_utf8_refines by blast

text \<open>C24: an object identifier in dotted decimal form is written as the base-128 octets of its
  components, the first two combined, and those octets turn into the same text again, followed by
  its terminator.
\<close>

theorem oid_text_roundtrip:
  assumes "\<forall>k. malloc_ok h k" "oid_ok a b cs" "length (oid_text a b cs) + 1 < SIZE_T"
  shows "refines h (\<lambda>s. CBB_add_asn1_oid_from_text h s (oid_text a b cs)) (a_write (Some (oid_octets a b cs))) \<and>
    (\<exists>r. CBS_asn1_oid_to_text h (oid_octets a b cs) = Some r \<and> finished_bytes r = oid_text a b cs @ [0])"
  using from_text_refines to_text_eq assms by blast

theorem oid_text_roundtrip_witness:
  "\<exists>r. CBS_asn1_oid_to_text \<lparr>malloc_ok = \<lambda>_. True, junk = \<lambda>_. 0\<rparr> (oid_octets 1 2 [840, 113549]) = Some r \<and>
    finished_bytes r = [0x31, 0x2e, 0x32, 0x2e, 0x38, 0x34, 0x30, 0x2e, 0x31, 0x31, 0x33, 0x35, 0x34, 0x39, 0]"
proof -
  have d: "decimal 1 = [0x31]" "decimal 2 = [0x32]" "decimal 840 = [0x38, 0x34, 0x30]"
      "decimal 113549 = [0x31, 0x31, 0x33, 0x35, 0x34, 0x39]"
    by (simp_all add: decimal.simps)
  have t: "oid_text 1 2 [840, 113549] = [0x31, 0x2e, 0x32, 0x2e, 0x38, 0x34, 0x30, 0x2e, 0x31, 0x31, 0x33, 0x35, 0x34, 0x39]"
    unfolding oid_text_def oid_tail_simps d by (simp add: ascii_dot_def)
  have o: "oid_ok 1 2 [840, 113549]" by (simp add: oid_ok_def)
  have l: "length (oid_text 1 2 [840, 113549]) + 1 < SIZE_T" unfolding t by (simp add: SIZE_T_def)
  have m: "\<forall>k. malloc_ok \<lparr>malloc_ok = \<lambda>_. True, junk = \<lambda>_. 0\<rparr> k" by simp
  show ?thesis using conjunct2 [OF oid_text_roundtrip [OF m o l]] unfolding t append.simps .
qed

end
