(* ===== verification/Bssl_Set_Of.thy ===== *)
theory Bssl_Set_Of
  imports Bssl_Integer_Props
begin

text \<open>
  The canonical order of a SET OF: \<open>CBB_flush_asn1_set_of\<close> leaves the same elements, in the
  lexicographic order of their encodings that X.690, section 11.6 asks for.
\<close>

section \<open>The order\<close>

lemma compare_simps [simp]:
  "compare_set_of_element [] [] = 0" "compare_set_of_element [] (y # b) = - 1" "compare_set_of_element (x # a) [] = 1"
  "compare_set_of_element (x # a) (y # b) = (if x < y then - 1 else if y < x then 1 else compare_set_of_element a b)"
  by (simp_all add: compare_set_of_element_def CBS_len_def CBS_data_def Let_def)

lemma compare_lex: "compare_set_of_element a b \<le> 0 \<longleftrightarrow> lexordp_eq a b"
proof (induction a arbitrary: b)
  case Nil
  then show ?case by (cases b) simp_all
next
  case (Cons x a)
  then show ?case by (cases b) auto
qed

lemma compare_zero: "compare_set_of_element a b = 0 \<longleftrightarrow> a = b"
proof (induction a arbitrary: b)
  case Nil
  then show ?case by (cases b) simp_all
next
  case (Cons x a)
  then show ?case by (cases b) auto
qed

interpretation set_of_order: cmp_order compare_set_of_element
proof
  have anti: "compare_set_of_element b a = - compare_set_of_element a b" for a b
  proof (induction a arbitrary: b)
    case Nil
    then show ?case by (cases b) simp_all
  next
    case (Cons x a)
    then show ?case by (cases b) auto
  qed
  show "compare_set_of_element y x < 0 \<longleftrightarrow> 0 < compare_set_of_element x y" for x y
    using anti [of x y] by linarith
next
  show "compare_set_of_element x y \<le> 0 \<Longrightarrow> compare_set_of_element y z \<le> 0 \<Longrightarrow> compare_set_of_element x z \<le> 0" for x y z
    unfolding compare_lex by (rule lexordp_eq_trans)
qed

section \<open>Parsing and rewriting the contents\<close>

definition canonical :: "u8 list \<Rightarrow> bool" where
  "canonical e \<longleftrightarrow> (\<exists>t body. length body < 2 ^ 32 \<and> e = der_element t body)"

lemma canonical_parse: "canonical e \<Longrightarrow> \<exists>t hl. CBS_get_any_asn1_element (e @ rest) = (Some (e, t, hl), rest)"
  using element_encoded by (fastforce simp: canonical_def CBS_get_any_asn1_element_def)

text \<open>What the comment in \<open>compare_set_of_element\<close> says: no encoding is a prefix of another.\<close>

lemma canonical_prefix:
  assumes "canonical a" "canonical b" "b = a @ xs"
  shows "xs = []"
  using canonical_parse [OF assms(1), of xs] canonical_parse [OF assms(2), of "[]"] assms(3) by auto

lemma canonical_not_Nil: "canonical e \<Longrightarrow> e \<noteq> []"
proof -
  assume "canonical e"
  then obtain t body where "e = tag_octets t @ length_octets (length body) @ body"
    by (auto simp: canonical_def der_element_def)
  then show ?thesis using length_tag_octets(1) [of t] by auto
qed

lemma set_of_children_concat: "\<forall>e \<in> set es. canonical e \<Longrightarrow> set_of_children (concat es) = Some es"
proof (induction es)
  case Nil
  then show ?case by (simp add: set_of_children.simps CBS_len_def)
next
  case (Cons e es)
  then obtain t hl where "CBS_get_any_asn1_element (e @ concat es) = (Some (e, t, hl), concat es)"
    using canonical_parse [of e "concat es"] by auto
  then show ?case using Cons canonical_not_Nil [of e]
    by (simp add: set_of_children.simps [of "e @ concat es"] CBS_len_def)
qed

lemma add_all_holds:
  assumes "holds s pre (Closed own)" "fst s = Some b" "length pre + length own + length (concat cs) \<le> cap b"
  shows "\<exists>s'. add_all h s cs = (True, s') \<and> holds s' pre (Closed (own @ concat cs))"
  using assms
proof (induction cs arbitrary: s own b)
  case (Cons c cs)
  have cap: "cap b < SIZE_T" using Cons.prems(1,2) by (auto simp: holds_def buffer_ok_def)
  then have "length c < SIZE_T" using Cons.prems(3) by simp
  then have "outcome h s (CBB_add_bytes h s c) pre (Some (Closed (own @ c)))"
    using refinesD [OF add_bytes_refines Cons.prems(1)] by (simp add: a_write_def)
  moreover have "has_room h b (length pre + extent (Closed (own @ c)))"
    using Cons.prems(3) cap by (simp add: has_room_def)
  ultimately obtain s1 b1 where s1: "CBB_add_bytes h s c = (True, s1)" "holds s1 pre (Closed (own @ c))"
      "fst s1 = Some b1" "confined h b b1"
    using Cons.prems(2) by (cases "CBB_add_bytes h s c") (auto simp: outcome_def)
  then have "cap b \<le> cap b1" by (simp add: confined_def)
  then have "length pre + length (own @ c) + length (concat cs) \<le> cap b1" using Cons.prems(3) by simp
  from Cons.IH [OF s1(2,3) this] s1(1) show ?case by (auto simp: CBS_data_def cbb_then_def)
qed (simp_all)

lemma flush_closed: "holds s pre (Closed own) \<Longrightarrow> CBB_flush h s = (True, s)"
proof -
  assume hs: "holds s pre (Closed own)"
  then obtain b off pll asn1 isc where "s = (Some b, CBB None off pll asn1 isc)" "\<not> error b"
    by (cases s; cases "snd s") (auto simp: holds_def)
  then show ?thesis by (simp add: CBB_flush_def)
qed

lemma rewound:
  assumes "holds (Some b, t) pre (Closed own)"
  shows "holds (Some (b\<lparr>len := length pre\<rparr>), t) pre (Closed [])"
proof -
  from assms have b: "buffer_ok b" "\<not> error b" "contents b = pre @ own" "child t = None" by (simp_all add: holds_Closed)
  then have l: "len b = length pre + length own" by (metis length_append length_contents)
  let ?b = "b\<lparr>len := length pre\<rparr>"
  have byt: "byte_at ?b i = byte_at b i" for i by (simp add: byte_at_def)
  have "contents ?b = take (length pre) (contents b)" using l by (simp add: contents_def byt take_map)
  then have "contents ?b = pre" using b by simp
  moreover have "buffer_ok ?b" using b(1) l by (simp add: buffer_ok_def cong: option.case_cong)
  ultimately show ?thesis using b by (simp add: holds_Closed)
qed

text \<open>C25: \<open>CBB_flush_asn1_set_of\<close> on contents that are DER elements leaves the same elements, each as often as
  it was there, in ascending lexicographic order of their encodings.
\<close>

theorem set_of_sorted:
  assumes hs: "holds (Some b, t) pre (Closed (concat es))" and es: "\<forall>e \<in> set es. canonical e"
    and off: "offset t + pending_len_len t = length pre"
    and mem: "\<forall>k. malloc_ok h k" and few: "length es < 2 ^ 60"
  shows "\<exists>s' sorted. CBB_flush_asn1_set_of h (Some b, t) = Some (True, s') \<and> holds s' pre (Closed (concat sorted)) \<and>
    mset sorted = mset es \<and> sorted_wrt lexordp_eq sorted"
proof -
  let ?s = "(Some b, t)" and ?sorted = "qsort_by compare_set_of_element es"
  from hs have b: "buffer_ok b" "\<not> error b" "contents b = pre @ concat es" "child t = None" by (simp_all add: holds_Closed)
  then have l: "len b = length pre + length (concat es)" by (metis length_append length_contents)
  have data: "CBB_data ?s = Some (concat es)"
    using b(3,4) l contents_buf_read [OF b(1), of "len b" "length pre"] by (simp add: CBB_data_def off)
  have ln: "CBB_len ?s = Some (length (concat es))"
    using b(4) l off by (simp add: CBB_len_def)
  have ch: "set_of_children (CBS_init (concat es)) = Some es" using set_of_children_concat [OF es] by (simp add: CBS_init_def)
  show ?thesis
  proof (cases "length es < 2")
    case True
    then have "sorted_wrt lexordp_eq es" by (cases es; cases "tl es") auto
    then show ?thesis using True hs flush_closed [OF hs, of h] data ln ch
      by (auto simp: CBB_flush_asn1_set_of_def)
  next
    case False
    then have ne: "es \<noteq> []" "concat es \<noteq> []" using es canonical_not_Nil by (cases es; auto)+
    let ?r = "(Some (b\<lparr>len := length pre\<rparr>), t)"
    have cap: "length (concat es) = length (concat ?sorted)"
      by (metis length_concat mset_map mset_qsort_by sum_mset_sum_list)
    have "length pre + length [] + length (concat ?sorted) \<le> cap (b\<lparr>len := length pre\<rparr>)"
      using b(1) l cap by (simp add: buffer_ok_def)
    from add_all_holds [OF rewound [OF hs] _ this, of h] obtain s' where
      s': "add_all h ?r ?sorted = (True, s')" "holds s' pre (Closed (concat ?sorted))" by auto
    have "CBB_flush_asn1_set_of h ?s = Some (True, s')"
      using False few ne mem flush_closed [OF hs, of h] data ln ch s'(1)
      by (simp add: CBB_flush_asn1_set_of_def Let_def off SIZE_T_def SIZEOF_CBS_def OPENSSL_memdup_def OPENSSL_malloc_def)
    with s'(2) mset_qsort_by set_of_order.sorted_qsort [unfolded compare_lex] show ?thesis by blast
  qed
qed

theorem set_of_sorted_witness:
  "\<exists>s' sorted. CBB_flush_asn1_set_of \<lparr>malloc_ok = \<lambda>_. True, junk = \<lambda>_. 0\<rparr>
      (Some \<lparr>buf = Some \<lparr>blk_size = 6, blk_room = 6, blk_data = \<lambda>i. [2, 1, 9, 2, 1, 7] ! i\<rparr>, len = 6, cap = 6,
         can_resize = False, error = False\<rparr>, CBB None 0 0 False False) = Some (True, s') \<and>
    holds s' [] (Closed (concat sorted)) \<and> mset sorted = {#[2, 1, 9], [2, 1, 7]#} \<and> sorted_wrt lexordp_eq sorted"
proof -
  let ?b = "\<lparr>buf = Some \<lparr>blk_size = 6, blk_room = 6, blk_data = \<lambda>i. [2, 1, 9, 2, 1, 7] ! i\<rparr>, len = 6, cap = 6,
         can_resize = False, error = False\<rparr> :: cbb_buffer_st"
  have e: "canonical [2, 1, x]" for x
  proof -
    have "[2, 1, x] = der_element 2 [x]"
      by (simp add: der_element_def tag_octets_def tag_class_def tag_number_def length_octets_def)
    then show ?thesis unfolding canonical_def by (intro exI [of _ 2] exI [of _ "[x]"]) simp
  qed
  have h: "holds (Some ?b, CBB None 0 0 False False) [] (Closed (concat [[2, 1, 9], [2, 1, 7]]))"
    by (simp add: holds_Closed buffer_ok_def SIZE_T_def contents_def byte_at_def upt_rec)
  show ?thesis
    using set_of_sorted [OF h, of "\<lparr>malloc_ok = \<lambda>_. True, junk = \<lambda>_. 0\<rparr>"] e by simp
qed

end
