(* ===== verification/Bssl_Ber.thy ===== *)
theory Bssl_Ber
  imports Bssl_Cbb
begin

text \<open>
  The conversion of BER to DER, \<open>crypto/bytestring/ber.c\<close>. The loops of the source recurse into
  constructed elements and are one recursive function each here, which walks the input it is
  given; both end because every element consumes at least its header.
\<close>

section \<open>Looking for BER\<close>











section \<open>Converting\<close>










lemma get_asn1_shrinks: "(Some x, c) = CBS_get_asn1 cbs t \<Longrightarrow> length c < length cbs"
  by (auto simp: CBS_get_asn1_def cbs_get_asn1_def cbs_then_def CBS_get_any_asn1_element_def
      split: prod.splits option.splits if_splits dest: element_shrinks)

text \<open>The chunks of an implicitly tagged constructed string.\<close>

function implicit_chunks :: "heap_env \<Rightarrow> cbs \<Rightarrow> u32 \<Rightarrow> cbb \<Rightarrow> cbb_res" where
  "implicit_chunks h inner inner_tag result =
    (if CBS_len inner > 0 then
       (case CBS_get_asn1 inner inner_tag of
         (None, _) \<Rightarrow> (False, result)
       | (Some chunk, inner) \<Rightarrow>
          (case CBB_add_bytes h result (CBS_data chunk) of
            (False, result) \<Rightarrow> (False, result)
          | (True, result) \<Rightarrow> implicit_chunks h inner inner_tag result))
     else (True, result))"
  by pat_completeness auto

termination
  by (relation "measure (\<lambda>(h, inner, t, r). length inner)") (auto intro: get_asn1_shrinks)

declare implicit_chunks.simps [simp del]

definition CBS_get_asn1_implicit_string ::
    "heap_env \<Rightarrow> cbs \<Rightarrow> u32 \<Rightarrow> u32 \<Rightarrow> (cbs \<times> (mem_block option \<times> nat) option) cbs_res" where
  "CBS_get_asn1_implicit_string h cbs outer_tag inner_tag =
    (if CBS_peek_asn1_tag cbs outer_tag then
       cbs_then (CBS_get_asn1 cbs outer_tag) (\<lambda>out cbs. (Some (out, None), cbs))
     else
       (case CBB_init h (CBS_len cbs) of
         (False, _) \<Rightarrow> (None, cbs)
       | (True, result) \<Rightarrow>
          (case CBS_get_asn1 cbs (outer_tag OR CBS_ASN1_CONSTRUCTED) of
            (None, cbs) \<Rightarrow> (None, cbs)
          | (Some inner, cbs) \<Rightarrow>
             (case implicit_chunks h inner inner_tag result of
               (False, _) \<Rightarrow> (None, cbs)
             | (True, result) \<Rightarrow>
                (case CBB_finish h True result of
                  (None, _) \<Rightarrow> (None, cbs)
                | (Some (m, n), _) \<Rightarrow>
                    (Some (CBS_init (case m of None \<Rightarrow> [] | Some b \<Rightarrow> blk_read b 0 n), Some (m, n)), cbs))))))"

section \<open>The shared flag\<close>

end
