(* ===== verification/Bssl_Stack.thy ===== *)
theory Bssl_Stack
  imports Bssl_Mem
begin

text \<open>
  BoringSSL's stacks, \<open>crypto/stack/stack.c\<close>: growable arrays of pointers with an optional
  comparison function and a flag that says they are sorted by it. A pointer is a \<open>u64\<close>, NULL is
  0; what a comparison function answers is a parameter, as the elements belong to the caller.
  A stack is None for a null pointer. What \<open>sk_free\<close> releases is not tracked.
\<close>

section \<open>The stack\<close>

type_synonym ptr = u64

record sk_st =
  num :: nat
  data :: "ptr list"
  sk_sorted :: bool
  num_alloc :: nat
  comp :: ptr

text \<open>\<open>call_cmp comp a b\<close> is the answer of the comparison function at address \<open>comp\<close>.\<close>

type_synonym cmp_helper = "ptr \<Rightarrow> ptr \<Rightarrow> ptr \<Rightarrow> int"

definition kMinSize :: nat where "kMinSize = 4"
definition SIZEOF_PTR :: nat where "SIZEOF_PTR = 8"
definition SIZEOF_STACK :: nat where "SIZEOF_STACK = 40"

text \<open>The pointers a fresh block holds from index \<open>i\<close> on.\<close>

definition junk_ptr :: "heap_env \<Rightarrow> nat \<Rightarrow> ptr" where
  "junk_ptr h i = of_nat (of_le (map (junk h) [SIZEOF_PTR * i..<SIZEOF_PTR * i + SIZEOF_PTR]))"

definition sk_new :: "heap_env \<Rightarrow> ptr \<Rightarrow> sk_st option" where
  "sk_new h c =
    (if OPENSSL_malloc h SIZEOF_STACK = None then None
     else if OPENSSL_malloc h (SIZEOF_PTR * kMinSize) = None then None
     else Some \<lparr>num = 0, data = replicate kMinSize 0, sk_sorted = False, num_alloc = kMinSize, comp = c\<rparr>)"

definition sk_new_null :: "heap_env \<Rightarrow> sk_st option" where "sk_new_null h = sk_new h 0"

definition sk_num :: "sk_st option \<Rightarrow> nat" where
  "sk_num sk = (case sk of None \<Rightarrow> 0 | Some s \<Rightarrow> num s)"

definition sk_zero :: "sk_st option \<Rightarrow> sk_st option" where
  "sk_zero sk = (case sk of
      None \<Rightarrow> None
    | Some s \<Rightarrow>
        if num s = 0 then Some s
        else Some (s\<lparr>data := replicate (num s) 0 @ drop (num s) (data s), num := 0, sk_sorted := False\<rparr>))"

definition sk_value :: "sk_st option \<Rightarrow> nat \<Rightarrow> ptr" where
  "sk_value sk i = (case sk of None \<Rightarrow> 0 | Some s \<Rightarrow> if i \<ge> num s then 0 else data s ! i)"

definition sk_set :: "sk_st option \<Rightarrow> nat \<Rightarrow> ptr \<Rightarrow> ptr \<times> sk_st option" where
  "sk_set sk i v = (case sk of
      None \<Rightarrow> (0, None)
    | Some s \<Rightarrow> if i \<ge> num s then (0, Some s) else (v, Some (s\<lparr>data := (data s)[i := v]\<rparr>)))"

text \<open>Calls of the caller's destructor and copy functions, which change the caller's world.\<close>

fun call_all :: "('w \<Rightarrow> ptr \<Rightarrow> 'w) \<Rightarrow> ptr list \<Rightarrow> 'w \<Rightarrow> 'w" where
  "call_all f [] w = w"
| "call_all f (p # ps) w = call_all f ps (if p \<noteq> 0 then f w p else w)"

definition sk_pop_free_ex :: "sk_st option \<Rightarrow> ('w \<Rightarrow> ptr \<Rightarrow> 'w) \<Rightarrow> 'w \<Rightarrow> 'w" where
  "sk_pop_free_ex sk call_free w = (case sk of
      None \<Rightarrow> w
    | Some s \<Rightarrow> call_all call_free (take (num s) (data s)) w)"

definition sk_pop_free :: "sk_st option \<Rightarrow> ('w \<Rightarrow> ptr \<Rightarrow> 'w) \<Rightarrow> 'w \<Rightarrow> 'w" where
  "sk_pop_free sk free_func w = sk_pop_free_ex sk free_func w"

section \<open>Inserting and deleting\<close>

text \<open>The array after \<open>OPENSSL_realloc\<close> to \<open>n\<close> pointers.\<close>

definition realloc_ptrs :: "heap_env \<Rightarrow> ptr list \<Rightarrow> nat \<Rightarrow> ptr list" where
  "realloc_ptrs h d n = take n d @ map (junk_ptr h) [length d..<n]"

text \<open>The room for one more element: None when it cannot be had.\<close>

definition sk_grow :: "heap_env \<Rightarrow> sk_st \<Rightarrow> sk_st option" where
  "sk_grow h s =
    (if num_alloc s \<le> (num s + 1) mod SIZE_T then
       (let bad = (\<lambda>n. n < num_alloc s \<or> (n * SIZEOF_PTR) mod SIZE_T div SIZEOF_PTR \<noteq> n);
            new_alloc = (num_alloc s * 2) mod SIZE_T;
            new_alloc = (if bad new_alloc then (num_alloc s + 1) mod SIZE_T else new_alloc) in
        if bad new_alloc then None
        else if OPENSSL_malloc h ((new_alloc * SIZEOF_PTR) mod SIZE_T) = None then None
        else Some (s\<lparr>data := realloc_ptrs h (data s) new_alloc, num_alloc := new_alloc\<rparr>))
     else Some s)"

definition sk_insert :: "heap_env \<Rightarrow> sk_st option \<Rightarrow> ptr \<Rightarrow> nat \<Rightarrow> nat \<times> sk_st option" where
  "sk_insert h sk p pos =
    (case sk of
      None \<Rightarrow> (0, None)
    | Some s0 \<Rightarrow>
       (case sk_grow h s0 of
         None \<Rightarrow> (0, Some s0)
       | Some s \<Rightarrow>
          let d = (if pos \<ge> num s then (data s)[num s := p]
                   else (take (pos + 1) (data s) @ drop pos (take (num s) (data s)) @ drop (num s + 1) (data s))
                          [pos := p])
          in (num s + 1, Some (s\<lparr>data := d, num := num s + 1, sk_sorted := False\<rparr>))))"

definition sk_delete :: "sk_st option \<Rightarrow> nat \<Rightarrow> ptr \<times> sk_st option" where
  "sk_delete sk pos =
    (case sk of
      None \<Rightarrow> (0, None)
    | Some s \<Rightarrow>
       if pos \<ge> num s then (0, Some s)
       else
         let ret = data s ! pos;
             d = (if pos \<noteq> num s - 1
                  then take pos (data s) @ drop (pos + 1) (take (num s) (data s)) @ drop (num s - 1) (data s)
                  else data s)
         in (ret, Some (s\<lparr>data := d, num := num s - 1\<rparr>)))"

text \<open>The first index whose element satisfies \<open>P\<close>: the loops of \<open>sk_delete_ptr\<close> and \<open>sk_find\<close>.\<close>

fun sk_scan :: "(ptr \<Rightarrow> bool) \<Rightarrow> ptr list \<Rightarrow> nat \<Rightarrow> nat option" where
  "sk_scan P [] i = None"
| "sk_scan P (p # ps) i = (if P p then Some i else sk_scan P ps (i + 1))"

definition sk_delete_ptr :: "sk_st option \<Rightarrow> ptr \<Rightarrow> ptr \<times> sk_st option" where
  "sk_delete_ptr sk p =
    (case sk of
      None \<Rightarrow> (0, None)
    | Some s \<Rightarrow>
       (case sk_scan (\<lambda>q. q = p) (take (num s) (data s)) 0 of
         None \<Rightarrow> (0, Some s)
       | Some i \<Rightarrow> sk_delete (Some s) i))"

definition sk_shift :: "sk_st option \<Rightarrow> ptr \<times> sk_st option" where
  "sk_shift sk = (case sk of
      None \<Rightarrow> (0, None)
    | Some s \<Rightarrow> if num s = 0 then (0, Some s) else sk_delete (Some s) 0)"

text \<open>\<open>sk_push\<close> reads \<open>sk->num\<close> before \<open>sk_insert\<close> checks the pointer: None for a null stack.\<close>

definition sk_push :: "heap_env \<Rightarrow> sk_st option \<Rightarrow> ptr \<Rightarrow> (nat \<times> sk_st option) option" where
  "sk_push h sk p = (case sk of None \<Rightarrow> None | Some s \<Rightarrow> Some (sk_insert h sk p (num s)))"

definition sk_pop :: "sk_st option \<Rightarrow> ptr \<times> sk_st option" where
  "sk_pop sk = (case sk of
      None \<Rightarrow> (0, None)
    | Some s \<Rightarrow> if num s = 0 then (0, Some s) else sk_delete (Some s) (num s - 1))"

section \<open>Finding and sorting\<close>

definition sk_is_sorted :: "sk_st option \<Rightarrow> bool" where
  "sk_is_sorted sk = (case sk of None \<Rightarrow> True | Some s \<Rightarrow> sk_sorted s)"

text \<open>The binary search over \<open>[lo, hi)\<close>.\<close>

function sk_bsearch :: "(ptr \<Rightarrow> int) \<Rightarrow> ptr list \<Rightarrow> nat \<Rightarrow> nat \<Rightarrow> nat option" where
  "sk_bsearch c d lo hi =
    (if lo < hi then
       (let mid = lo + (hi - lo - 1) div 2; r = c (d ! mid) in
        if r > 0 then sk_bsearch c d (mid + 1) hi
        else if r < 0 then sk_bsearch c d lo mid
        else if hi - lo = 1 then Some mid
        else sk_bsearch c d lo (mid + 1))
     else None)"
  by pat_completeness auto
termination
  by (relation "measure (\<lambda>(c, d, lo, hi). hi - lo)") auto

declare sk_bsearch.simps [simp del]

definition sk_find :: "sk_st option \<Rightarrow> ptr \<Rightarrow> cmp_helper \<Rightarrow> nat option" where
  "sk_find sk p call_cmp =
    (case sk of
      None \<Rightarrow> None
    | Some s \<Rightarrow>
       let elems = take (num s) (data s) in
       if comp s = 0 then sk_scan (\<lambda>q. q = p) elems 0
       else if p = 0 then None
       else if \<not> sk_is_sorted (Some s) then sk_scan (\<lambda>q. call_cmp (comp s) p q = 0) elems 0
       else sk_bsearch (call_cmp (comp s) p) (data s) 0 (num s))"

definition sk_sort :: "sk_st option \<Rightarrow> cmp_helper \<Rightarrow> sk_st option" where
  "sk_sort sk call_cmp =
    (case sk of
      None \<Rightarrow> None
    | Some s \<Rightarrow>
       if comp s = 0 \<or> sk_sorted s then Some s
       else
         let d = (if num s \<ge> 2 then qsort_by (call_cmp (comp s)) (take (num s) (data s)) @ drop (num s) (data s)
                  else data s)
         in Some (s\<lparr>data := d, sk_sorted := True\<rparr>))"

text \<open>\<open>sk_set_cmp_func\<close> dereferences the stack: None for a null one.\<close>

definition sk_set_cmp_func :: "sk_st option \<Rightarrow> ptr \<Rightarrow> (ptr \<times> sk_st option) option" where
  "sk_set_cmp_func sk c =
    (case sk of
      None \<Rightarrow> None
    | Some s \<Rightarrow> Some (comp s,
        Some (s\<lparr>sk_sorted := (if comp s \<noteq> c then False else sk_sorted s), comp := c\<rparr>)))"

section \<open>Copying\<close>

definition sk_dup :: "heap_env \<Rightarrow> sk_st option \<Rightarrow> sk_st option" where
  "sk_dup h sk =
    (case sk of
      None \<Rightarrow> None
    | Some s \<Rightarrow>
       (case sk_new h (comp s) of
         None \<Rightarrow> None
       | Some ret \<Rightarrow>
           if OPENSSL_malloc h ((SIZEOF_PTR * num_alloc s) mod SIZE_T) = None then None
           else Some \<lparr>num = num s,
             data = take (num s) (data s) @ drop (num s) (realloc_ptrs h (data ret) (num_alloc s)),
             sk_sorted = sk_sorted s, num_alloc = num_alloc s, comp = comp s\<rparr>))"

text \<open>The elements copied so far, and those still to copy; a failed copy frees what was copied.\<close>

fun copy_all :: "('w \<Rightarrow> ptr \<Rightarrow> 'w \<times> ptr) \<Rightarrow> ('w \<Rightarrow> ptr \<Rightarrow> 'w) \<Rightarrow> ptr list \<Rightarrow> ptr list \<Rightarrow> 'w \<Rightarrow> 'w \<times> ptr list option" where
  "copy_all cp fr done [] w = (w, Some done)"
| "copy_all cp fr done (p # ps) w =
    (if p = 0 then copy_all cp fr (done @ [p]) ps w
     else (case cp w p of (w, q) \<Rightarrow>
       if q = 0 then (call_all fr done w, None) else copy_all cp fr (done @ [q]) ps w))"

definition sk_deep_copy ::
    "heap_env \<Rightarrow> sk_st option \<Rightarrow> ('w \<Rightarrow> ptr \<Rightarrow> 'w \<times> ptr) \<Rightarrow> ('w \<Rightarrow> ptr \<Rightarrow> 'w) \<Rightarrow> 'w \<Rightarrow> 'w \<times> sk_st option" where
  "sk_deep_copy h sk call_copy call_free w =
    (case sk_dup h sk of
      None \<Rightarrow> (w, None)
    | Some ret \<Rightarrow>
       (case copy_all call_copy call_free [] (take (num ret) (data ret)) w of
         (w, None) \<Rightarrow> (w, None)
       | (w, Some ps) \<Rightarrow> (w, Some (ret\<lparr>data := ps @ drop (num ret) (data ret)\<rparr>))))"

end
