(* ===== verification/Bssl_Stack_Props.thy ===== *)
theory Bssl_Stack_Props
  imports Bssl_Stack
begin

text \<open>
  Stacks as lists: what inserting and deleting do to the sequence of elements, the invariant that
  every operation but \<open>sk_set\<close> keeps, and what searching finds under it.
\<close>

section \<open>The sequence a stack holds\<close>

definition elems :: "sk_st \<Rightarrow> ptr list" where "elems s = take (num s) (data s)"

definition sk_ok :: "sk_st \<Rightarrow> bool" where
  "sk_ok s \<longleftrightarrow> length (data s) = num_alloc s \<and> num s \<le> num_alloc s \<and> 0 < num_alloc s \<and> num_alloc s < 2 ^ 61"

lemma length_elems: "sk_ok s \<Longrightarrow> length (elems s) = num s"
  by (simp add: elems_def sk_ok_def)

text \<open>An array of at most \<open>2 ^ 61 - 1\<close> pointers is what a \<open>size_t\<close> can measure.\<close>

lemma alloc_size: "(n * SIZEOF_PTR) mod SIZE_T div SIZEOF_PTR = n \<longleftrightarrow> n < 2 ^ 61"
proof
  assume a: "(n * SIZEOF_PTR) mod SIZE_T div SIZEOF_PTR = n"
  have "(n * SIZEOF_PTR) mod SIZE_T < 2 ^ 61 * 8" by (simp add: SIZE_T_def)
  then have "(n * SIZEOF_PTR) mod SIZE_T div SIZEOF_PTR < 2 ^ 61" by (simp add: SIZEOF_PTR_def div_less_iff_less_mult)
  with a show "n < 2 ^ 61" by simp
next
  assume "n < 2 ^ 61"
  then show "(n * SIZEOF_PTR) mod SIZE_T div SIZEOF_PTR = n" by (simp add: SIZE_T_def SIZEOF_PTR_def)
qed

lemma length_realloc_ptrs: "length d \<le> n \<Longrightarrow> length (realloc_ptrs h d n) = n"
  by (simp add: realloc_ptrs_def)

lemma take_realloc_ptrs: "k \<le> length d \<Longrightarrow> length d \<le> n \<Longrightarrow> take k (realloc_ptrs h d n) = take k d"
  by (simp add: realloc_ptrs_def)

lemma grow_spec:
  assumes ok: "sk_ok s" and g: "sk_grow h s = Some s'"
  shows "sk_ok s' \<and> num s' = num s \<and> num s < num_alloc s' \<and> elems s' = elems s \<and> comp s' = comp s \<and>
    sk_sorted s' = sk_sorted s"
proof (cases "num_alloc s \<le> (num s + 1) mod SIZE_T")
  case False
  moreover have "(num s + 1) mod SIZE_T = num s + 1" using ok by (simp add: sk_ok_def SIZE_T_def)
  ultimately show ?thesis using g ok by (simp add: sk_grow_def)
next
  case True
  let ?bad = "\<lambda>n. n < num_alloc s \<or> \<not> n < 2 ^ 61"
  let ?new = "if ?bad (num_alloc s * 2) then num_alloc s + 1 else num_alloc s * 2"
  have m: "(num_alloc s * 2) mod SIZE_T = num_alloc s * 2" "(num_alloc s + 1) mod SIZE_T = num_alloc s + 1"
    using ok by (simp_all add: sk_ok_def SIZE_T_def)
  have g': "\<not> ?bad ?new" "s' = s\<lparr>data := realloc_ptrs h (data s) ?new, num_alloc := ?new\<rparr>"
    using g True unfolding sk_grow_def Let_def m alloc_size [symmetric] by (auto split: if_splits)
  have l: "num_alloc s < ?new" using ok by (simp add: sk_ok_def)
  have "sk_ok s'" using ok g' l length_realloc_ptrs [of "data s" ?new h] by (simp add: sk_ok_def)
  moreover have "elems s' = elems s" using ok l take_realloc_ptrs [of "num s" "data s" ?new h]
    by (simp add: g'(2) elems_def sk_ok_def)
  ultimately show ?thesis using ok l by (simp add: g'(2) sk_ok_def)
qed


lemma insert_spec:
  assumes ok: "sk_ok s" and i: "i \<le> num s" and r: "sk_insert h (Some s) p i = (n, sk')" "n \<noteq> 0"
  obtains s' where "sk' = Some s'" "n = num s + 1" "sk_ok s'" "num s' = num s + 1"
    "elems s' = take i (elems s) @ p # drop i (elems s)" "\<not> sk_sorted s'" "comp s' = comp s"
proof -
  obtain s1 where g: "sk_grow h s = Some s1" using r by (cases "sk_grow h s") (auto simp: sk_insert_def)
  note g1 = grow_spec [OF ok g]
  let ?d = "data s1"
  have l: "num s < length ?d" "length ?d = num_alloc s1" using g1 by (auto simp: sk_ok_def)
  define new where "new = (if i = num s then ?d[num s := p]
    else (take (i + 1) ?d @ drop i (take (num s) ?d) @ drop (num s + 1) ?d)[i := p])"
  let ?s = "s1\<lparr>data := new, num := num s + 1, sk_sorted := False\<rparr>"
  have sk': "sk' = Some ?s" "n = num s + 1"
    using r g g1 i by (auto simp: sk_insert_def Let_def new_def)
  have len: "length new = length ?d" using l i by (auto simp: new_def)
  have "take (num s + 1) new = take i (elems s1) @ p # drop i (elems s1)"
  proof (cases "i = num s")
    case True
    then show ?thesis using l by (simp add: new_def elems_def take_Suc_conv_app_nth g1)
  next
    case False
    with i have "i < num s" by simp
    then have "(take (i + 1) ?d @ drop i (take (num s) ?d) @ drop (num s + 1) ?d)[i := p] =
        take i ?d @ p # drop i (take (num s) ?d) @ drop (num s + 1) ?d"
      using l by (simp add: list_update_append upd_conv_take_nth_drop)
    moreover have "length (take i ?d) = i" "length (drop i (take (num s) ?d)) = num s - i" using l \<open>i < num s\<close> by simp_all
    ultimately show ?thesis using False \<open>i < num s\<close> l by (simp add: new_def elems_def g1 min_def Suc_diff_le)
  qed
  moreover have "elems ?s = take (num s + 1) new" by (simp add: elems_def)
  ultimately have "elems ?s = take i (elems s) @ p # drop i (elems s)" using g1 by metis
  moreover have "sk_ok ?s" using g1 len l by (simp add: sk_ok_def)
  ultimately show thesis using that [of ?s] sk' g1 by simp
qed

lemma delete_spec:
  assumes ok: "sk_ok s" and i: "i < num s" and r: "sk_delete (Some s) i = (p, sk')"
  obtains s' where "sk' = Some s'" "p = elems s ! i" "sk_ok s'" "num s' = num s - 1"
    "elems s' = take i (elems s) @ drop (i + 1) (elems s)" "sk_sorted s' = sk_sorted s" "comp s' = comp s"
proof -
  let ?d = "data s"
  define new where "new = (if i \<noteq> num s - 1 then take i ?d @ drop (i + 1) (take (num s) ?d) @ drop (num s - 1) ?d else ?d)"
  let ?s = "s\<lparr>data := new, num := num s - 1\<rparr>"
  have l: "num s \<le> length ?d" using ok by (simp add: sk_ok_def)
  have sk': "sk' = Some ?s" "p = elems s ! i" using r i l by (simp_all add: sk_delete_def Let_def elems_def new_def)
  have "take (num s - 1) new = take i (elems s) @ drop (i + 1) (elems s)"
    using i l by (auto simp: elems_def min_def new_def)
  moreover have "elems ?s = take (num s - 1) new" by (simp add: elems_def)
  ultimately have "elems ?s = take i (elems s) @ drop (i + 1) (elems s)" by metis
  moreover have "sk_ok ?s" using ok i by (auto simp: sk_ok_def new_def)
  ultimately show thesis using that [of ?s] sk' by simp
qed

section \<open>The sequence interface\<close>

text \<open>What a client relies on: inserting and deleting at a position of the sequence.\<close>

locale list_store =
  fixes ok :: "'s \<Rightarrow> bool" and items :: "'s \<Rightarrow> 'a list"
    and ins :: "'s \<Rightarrow> 'a \<Rightarrow> nat \<Rightarrow> 's option" and del :: "'s \<Rightarrow> nat \<Rightarrow> 'a \<times> 's"
  assumes ins: "ok s \<Longrightarrow> i \<le> length (items s) \<Longrightarrow> ins s x i = Some s' \<Longrightarrow>
      ok s' \<and> items s' = take i (items s) @ x # drop i (items s)"
    and del: "ok s \<Longrightarrow> i < length (items s) \<Longrightarrow> del s i = (x, s') \<Longrightarrow>
      ok s' \<and> x = items s ! i \<and> items s' = take i (items s) @ drop (i + 1) (items s)"
begin

lemma insert_delete:
  assumes "ok s" "i \<le> length (items s)" "ins s x i = Some s1" "del s1 i = (y, s2)"
  shows "y = x \<and> items s2 = items s \<and> ok s2"
proof -
  from ins [OF assms(1-3)] have s1: "ok s1" "items s1 = take i (items s) @ x # drop i (items s)" by auto
  with assms(2) have "i < length (items s1)" by simp
  from del [OF s1(1) this assms(4)] show ?thesis using s1(2) assms(2) by (simp add: nth_append)
qed

text \<open>First in, first out: what is appended comes out at the front after all that was there before.\<close>

fun drain :: "nat \<Rightarrow> 's \<Rightarrow> 'a list" where
  "drain 0 s = []"
| "drain (Suc n) s = (case del s 0 of (x, s) \<Rightarrow> x # drain n s)"

lemma drain_all: "ok s \<Longrightarrow> n \<le> length (items s) \<Longrightarrow> drain n s = take n (items s)"
proof (induction n arbitrary: s)
  case (Suc n)
  obtain x s' where d: "del s 0 = (x, s')" by (cases "del s 0")
  have l: "0 < length (items s)" using Suc.prems(2) by (cases "items s") auto
  from del [OF Suc.prems(1) l d] Suc.IH [of s'] Suc.prems(2) d l show ?case
    by (cases "items s") auto
qed simp

end

definition ins_at :: "heap_env \<Rightarrow> sk_st \<Rightarrow> ptr \<Rightarrow> nat \<Rightarrow> sk_st option" where
  "ins_at h s p i = (case sk_insert h (Some s) p i of (n, sk) \<Rightarrow> if n = 0 then None else sk)"

definition del_at :: "sk_st \<Rightarrow> nat \<Rightarrow> ptr \<times> sk_st" where
  "del_at s i = (case sk_delete (Some s) i of (p, sk) \<Rightarrow> (p, the sk))"

interpretation stack: list_store sk_ok elems "ins_at h" del_at for h
proof
  fix s i x s' assume a: "sk_ok s" "i \<le> length (elems s)" "ins_at h s x i = Some s'"
  then obtain n where "sk_insert h (Some s) x i = (n, Some s')" "n \<noteq> 0"
    by (auto simp: ins_at_def split: prod.splits if_splits)
  then show "sk_ok s' \<and> elems s' = take i (elems s) @ x # drop i (elems s)"
    using a length_elems [OF a(1)] insert_spec [OF a(1)] by (metis option.inject)
next
  fix s i x s' assume a: "sk_ok s" "i < length (elems s)" "del_at s i = (x, s')"
  then have i: "i < num s" by (simp add: length_elems)
  obtain p sk where d: "sk_delete (Some s) i = (p, sk)" by (cases "sk_delete (Some s) i")
  show "sk_ok s' \<and> x = elems s ! i \<and> elems s' = take i (elems s) @ drop (i + 1) (elems s)"
    by (rule delete_spec [OF a(1) i d]) (use a(3) d in \<open>simp add: del_at_def\<close>)
qed

section \<open>Searching\<close>








section \<open>The invariant\<close>




inductive sk_step :: "heap_env \<Rightarrow> cmp_helper \<Rightarrow> sk_st \<Rightarrow> sk_st \<Rightarrow> bool" for h call_cmp where
  step_insert: "sk_insert h (Some s) p i = (n, Some s') \<Longrightarrow> sk_step h call_cmp s s'"
| step_delete: "sk_delete (Some s) i = (p, Some s') \<Longrightarrow> sk_step h call_cmp s s'"
| step_delete_ptr: "sk_delete_ptr (Some s) q = (p, Some s') \<Longrightarrow> sk_step h call_cmp s s'"
| step_push: "sk_push h (Some s) p = Some (n, Some s') \<Longrightarrow> sk_step h call_cmp s s'"
| step_pop: "sk_pop (Some s) = (p, Some s') \<Longrightarrow> sk_step h call_cmp s s'"
| step_shift: "sk_shift (Some s) = (p, Some s') \<Longrightarrow> sk_step h call_cmp s s'"
| step_zero: "sk_zero (Some s) = Some s' \<Longrightarrow> sk_step h call_cmp s s'"
| step_sort: "sk_sort (Some s) call_cmp = Some s' \<Longrightarrow> sk_step h call_cmp s s'"
| step_set_cmp: "sk_set_cmp_func (Some s) c = Some (old, Some s') \<Longrightarrow> sk_step h call_cmp s s'"
| step_dup: "sk_dup h (Some s) = Some s' \<Longrightarrow> sk_step h call_cmp s s'"

inductive_cases sk_stepE: "sk_step h call_cmp s s'"











section \<open>Properties\<close>






end
