(* ===== verification/Bssl_Lhash.thy ===== *)
theory Bssl_Lhash
  imports Bssl_Stack
begin

text \<open>
  BoringSSL's hash tables, \<open>crypto/lhash/lhash.c\<close>: an array of chains of items, resized by the
  average length of a chain. A chain is the list of its items; what the hash and comparison functions
  answer on the caller's elements are parameters. The pointer to a pointer with which the source
  names a place in a chain is the index of the bucket and the position in it.
\<close>

section \<open>The table\<close>

record lhash_item =
  it_data :: ptr
  it_hash :: u32

record lhash_st =
  num_items :: nat
  buckets :: "lhash_item list list"
  num_buckets :: nat
  callback_depth :: u32
  lh_comp :: ptr
  lh_hash :: ptr

type_synonym hash_helper = "ptr \<Rightarrow> ptr \<Rightarrow> u32"

definition kMinNumBuckets :: nat where "kMinNumBuckets = 16"
definition kMaxAverageChainLength :: nat where "kMaxAverageChainLength = 2"
definition kMinAverageChainLength :: nat where "kMinAverageChainLength = 1"
definition SIZEOF_LHASH :: nat where "SIZEOF_LHASH = 48"
definition SIZEOF_LHASH_ITEM :: nat where "SIZEOF_LHASH_ITEM = 24"

definition lh_new :: "heap_env \<Rightarrow> ptr \<Rightarrow> ptr \<Rightarrow> lhash_st option" where
  "lh_new h hash c =
    (if OPENSSL_malloc h SIZEOF_LHASH = None then None
     else if OPENSSL_malloc h (SIZEOF_PTR * kMinNumBuckets) = None then None
     else Some \<lparr>num_items = 0, buckets = replicate kMinNumBuckets [], num_buckets = kMinNumBuckets,
       callback_depth = 0, lh_comp = c, lh_hash = hash\<rparr>)"

definition lh_num_items :: "lhash_st \<Rightarrow> nat" where
  "lh_num_items lh = num_items lh"

text \<open>The position of the first match in a chain, its length when there is none.\<close>

fun chain_find :: "(ptr \<Rightarrow> bool) \<Rightarrow> lhash_item list \<Rightarrow> nat" where
  "chain_find P [] = 0"
| "chain_find P (it # its) = (if P (it_data it) then 0 else chain_find P its + 1)"

definition get_next_ptr_and_hash ::
    "lhash_st \<Rightarrow> ptr \<Rightarrow> hash_helper \<Rightarrow> cmp_helper \<Rightarrow> u32 \<times> nat \<times> nat" where
  "get_next_ptr_and_hash lh d call_hash call_cmp =
    (let hash = call_hash (lh_hash lh) d; b = unat hash mod num_buckets lh in
     (hash, b, chain_find (\<lambda>cur. call_cmp (lh_comp lh) cur d = 0) (buckets lh ! b)))"

definition get_next_ptr_by_key :: "lhash_st \<Rightarrow> u32 \<Rightarrow> (ptr \<Rightarrow> int) \<Rightarrow> nat \<times> nat" where
  "get_next_ptr_by_key lh key_hash cmp_key =
    (let b = unat key_hash mod num_buckets lh in
     (b, chain_find (\<lambda>cur. cmp_key cur = 0) (buckets lh ! b)))"

text \<open>\<open>*next_ptr\<close>: None for a null pointer.\<close>

definition deref :: "lhash_st \<Rightarrow> nat \<Rightarrow> nat \<Rightarrow> lhash_item option" where
  "deref lh b i = (if i < length (buckets lh ! b) then Some (buckets lh ! b ! i) else None)"

definition lh_retrieve :: "lhash_st \<Rightarrow> ptr \<Rightarrow> hash_helper \<Rightarrow> cmp_helper \<Rightarrow> ptr" where
  "lh_retrieve lh d call_hash call_cmp =
    (case get_next_ptr_and_hash lh d call_hash call_cmp of (_, b, i) \<Rightarrow>
       (case deref lh b i of None \<Rightarrow> 0 | Some it \<Rightarrow> it_data it))"

definition lh_retrieve_key :: "lhash_st \<Rightarrow> u32 \<Rightarrow> (ptr \<Rightarrow> int) \<Rightarrow> ptr" where
  "lh_retrieve_key lh key_hash cmp_key =
    (case get_next_ptr_by_key lh key_hash cmp_key of (b, i) \<Rightarrow>
       (case deref lh b i of None \<Rightarrow> 0 | Some it \<Rightarrow> it_data it))"

section \<open>Resizing\<close>

text \<open>Every item is put at the front of its new chain, bucket by bucket.\<close>

definition push_item :: "nat \<Rightarrow> lhash_item \<Rightarrow> lhash_item list list \<Rightarrow> lhash_item list list" where
  "push_item n it bs = (let b = unat (it_hash it) mod n in bs[b := it # bs ! b])"

definition lh_rebucket :: "heap_env \<Rightarrow> lhash_st \<Rightarrow> nat \<Rightarrow> lhash_st" where
  "lh_rebucket h lh new_num_buckets =
    (let alloc_size = (SIZEOF_PTR * new_num_buckets) mod SIZE_T in
     if alloc_size div SIZEOF_PTR \<noteq> new_num_buckets then lh
     else if OPENSSL_malloc h alloc_size = None then lh
     else lh\<lparr>num_buckets := new_num_buckets,
       buckets := fold (push_item new_num_buckets) (concat (buckets lh)) (replicate new_num_buckets [])\<rparr>)"

definition lh_maybe_resize :: "heap_env \<Rightarrow> lhash_st \<Rightarrow> lhash_st" where
  "lh_maybe_resize h lh =
    (if callback_depth lh > 0 then lh
     else
       let avg_chain_length = num_items lh div num_buckets lh in
       if avg_chain_length > kMaxAverageChainLength then
         (let new_num_buckets = (num_buckets lh * 2) mod SIZE_T in
          if new_num_buckets > num_buckets lh then lh_rebucket h lh new_num_buckets else lh)
       else if avg_chain_length < kMinAverageChainLength \<and> num_buckets lh > kMinNumBuckets then
         (let new_num_buckets = num_buckets lh div 2 in
          lh_rebucket h lh (if new_num_buckets < kMinNumBuckets then kMinNumBuckets else new_num_buckets))
       else lh)"

section \<open>Operations\<close>

text \<open>The result, the element replaced (0 for none) and the table.\<close>

definition lh_insert ::
    "heap_env \<Rightarrow> lhash_st \<Rightarrow> ptr \<Rightarrow> hash_helper \<Rightarrow> cmp_helper \<Rightarrow> bool \<times> ptr \<times> lhash_st" where
  "lh_insert h lh d call_hash call_cmp =
    (case get_next_ptr_and_hash lh d call_hash call_cmp of (hash, b, i) \<Rightarrow>
       (case deref lh b i of
         Some it \<Rightarrow>
           (True, it_data it, lh\<lparr>buckets := (buckets lh)[b := (buckets lh ! b)[i := it\<lparr>it_data := d\<rparr>]]\<rparr>)
       | None \<Rightarrow>
           if OPENSSL_malloc h SIZEOF_LHASH_ITEM = None then (False, 0, lh)
           else (True, 0, lh_maybe_resize h (lh\<lparr>
             buckets := (buckets lh)[b := buckets lh ! b @ [\<lparr>it_data = d, it_hash = hash\<rparr>]],
             num_items := num_items lh + 1\<rparr>))))"

definition lh_delete :: "heap_env \<Rightarrow> lhash_st \<Rightarrow> ptr \<Rightarrow> hash_helper \<Rightarrow> cmp_helper \<Rightarrow> ptr \<times> lhash_st" where
  "lh_delete h lh d call_hash call_cmp =
    (case get_next_ptr_and_hash lh d call_hash call_cmp of (_, b, i) \<Rightarrow>
       (case deref lh b i of
         None \<Rightarrow> (0, lh)
       | Some it \<Rightarrow>
           (it_data it, lh_maybe_resize h (lh\<lparr>
             buckets := (buckets lh)[b := take i (buckets lh ! b) @ drop (i + 1) (buckets lh ! b)],
             num_items := num_items lh - 1\<rparr>))))"

text \<open>
  \<open>lh_doall_arg\<close> with a callback that changes only the caller's world; the table is locked
  against resizing while it runs, and resized after it.
\<close>

definition lh_doall_arg :: "heap_env \<Rightarrow> lhash_st option \<Rightarrow> ('w \<Rightarrow> ptr \<Rightarrow> 'w) \<Rightarrow> 'w \<Rightarrow> 'w \<times> lhash_st option" where
  "lh_doall_arg h lh func w =
    (case lh of
      None \<Rightarrow> (w, None)
    | Some lh \<Rightarrow>
       let UINT_MAX = - 1;
           lh = (if callback_depth lh < UINT_MAX then lh\<lparr>callback_depth := callback_depth lh + 1\<rparr> else lh);
           w = foldl (foldl (\<lambda>w it. func w (it_data it))) w (buckets lh);
           lh = (if callback_depth lh < UINT_MAX then lh\<lparr>callback_depth := callback_depth lh - 1\<rparr> else lh)
       in (w, Some (lh_maybe_resize h lh)))"

text \<open>A null pointer hashes to 0.\<close>

definition lh_strhash :: "u8 list option \<Rightarrow> u32" where
  "lh_strhash c = (case c of None \<Rightarrow> 0 | Some s \<Rightarrow> OPENSSL_hash32 s)"

end
