(* ===== verification/Bssl_Lhash_Props.thy ===== *)
theory Bssl_Lhash_Props
  imports Bssl_Lhash
begin

text \<open>
  Hash tables as partial maps. The contract between the table and its client is that the
  comparison answers 0 on an equivalence and that equal elements have equal hashes; under it,
  looking up an element gives the stored element equal to it, whatever the table's size.
\<close>

section \<open>Items of a table\<close>

definition items :: "lhash_st \<Rightarrow> lhash_item list" where "items lh = concat (buckets lh)"

definition placed :: "nat \<Rightarrow> lhash_item list list \<Rightarrow> bool" where
  "placed n bs \<longleftrightarrow> length bs = n \<and> (\<forall>b < n. \<forall>it \<in> set (bs ! b). unat (it_hash it) mod n = b)"

lemma mset_concat_update:
  "b < length bs \<Longrightarrow> mset (concat (bs[b := c])) + mset (bs ! b) = mset (concat bs) + mset c"
  by (induction bs arbitrary: b) (auto simp: nth_Cons' split: nat.split) 

lemma placedD: "placed n bs \<Longrightarrow> b < n \<Longrightarrow> it \<in> set (bs ! b) \<Longrightarrow> unat (it_hash it) mod n = b"
  by (simp add: placed_def)

lemma placed_update:
  "placed n bs \<Longrightarrow> b < n \<Longrightarrow> (\<And>it. it \<in> set c \<Longrightarrow> unat (it_hash it) mod n = b) \<Longrightarrow> placed n (bs[b := c])"
  by (auto simp: placed_def nth_list_update)

lemma push_item_spec:
  assumes "placed n bs" "0 < n"
  shows "placed n (push_item n it bs)" "mset (concat (push_item n it bs)) = add_mset it (mset (concat bs))"
proof -
  let ?b = "unat (it_hash it) mod n"
  have b: "?b < n" "?b < length bs" using assms by (simp_all add: placed_def)
  show "placed n (push_item n it bs)" unfolding push_item_def Let_def
    by (rule placed_update [OF assms(1) b(1)]) (use placedD [OF assms(1) b(1)] in auto)
  show "mset (concat (push_item n it bs)) = add_mset it (mset (concat bs))"
    using mset_concat_update [OF b(2), of "it # bs ! ?b"] by (simp add: push_item_def Let_def)
qed

lemma rebucket_fold:
  "placed n bs \<Longrightarrow> 0 < n \<Longrightarrow> placed n (fold (push_item n) its bs) \<and>
    mset (concat (fold (push_item n) its bs)) = mset its + mset (concat bs)"
  by (induction its arbitrary: bs) (simp_all add: push_item_spec)

lemma placed_replicate: "placed n (replicate n [])"
  by (simp add: placed_def)

lemma in_bucket:
  assumes "placed n bs" "it \<in> set (concat bs)"
  shows "it \<in> set (bs ! (unat (it_hash it) mod n))" "unat (it_hash it) mod n < n"
proof -
  from assms(2) obtain c where "c \<in> set bs" "it \<in> set c" by auto
  then obtain b where b: "b < length bs" "it \<in> set (bs ! b)" by (auto simp: in_set_conv_nth [of c bs])
  then have "unat (it_hash it) mod n = b" using assms(1) by (simp add: placed_def)
  with b assms(1) show "it \<in> set (bs ! (unat (it_hash it) mod n))" "unat (it_hash it) mod n < n"
    by (simp_all add: placed_def)
qed

lemma chain_find_cases:
  obtains (none) "chain_find P its = length its" "\<And>it. it \<in> set its \<Longrightarrow> \<not> P (it_data it)"
    | (found) xs it ys where "its = xs @ it # ys" "chain_find P its = length xs" "P (it_data it)"
proof (induction its arbitrary: thesis)
  case Nil
  then show ?case by simp
next
  case (Cons it its)
  show ?case
  proof (cases "P (it_data it)")
    case True
    then show ?thesis using Cons.prems(2) [of "[]" it its] by simp
  next
    case False
    show ?thesis
    proof (rule Cons.IH)
      assume "chain_find P its = length its" "\<And>it. it \<in> set its \<Longrightarrow> \<not> P (it_data it)"
      then show thesis using False by (intro Cons.prems(1)) auto
    next
      fix xs x ys assume "its = xs @ x # ys" "chain_find P its = length xs" "P (it_data x)"
      then show thesis using False by (intro Cons.prems(2) [of "it # xs" x ys]) auto
    qed
  qed
qed

section \<open>The map a table stands for\<close>

text \<open>
  \<open>separate\<close>: the items have the hashes of their elements, and no two of them are equal by \<open>cmp\<close>.
\<close>

definition good_item :: "(ptr \<Rightarrow> u32) \<Rightarrow> lhash_item \<Rightarrow> bool" where
  "good_item hash it \<longleftrightarrow> it_hash it = hash (it_data it)"

definition separate :: "(ptr \<Rightarrow> u32) \<Rightarrow> (ptr \<Rightarrow> ptr \<Rightarrow> int) \<Rightarrow> lhash_item multiset \<Rightarrow> bool" where
  "separate hash cmp M \<longleftrightarrow> (\<forall>x \<in># M. good_item hash x \<and> (\<forall>y \<in># M - {#x#}. cmp (it_data x) (it_data y) \<noteq> 0))"

definition lh_ok :: "(ptr \<Rightarrow> u32) \<Rightarrow> (ptr \<Rightarrow> ptr \<Rightarrow> int) \<Rightarrow> lhash_st \<Rightarrow> bool" where
  "lh_ok hash cmp lh \<longleftrightarrow> placed (num_buckets lh) (buckets lh) \<and> kMinNumBuckets \<le> num_buckets lh \<and>
    num_items lh = length (items lh) \<and> separate hash cmp (mset (items lh))"

definition lookup :: "(ptr \<Rightarrow> ptr \<Rightarrow> int) \<Rightarrow> lhash_st \<Rightarrow> ptr \<Rightarrow> ptr option" where
  "lookup cmp lh d = map_option it_data (List.find (\<lambda>it. cmp (it_data it) d = 0) (items lh))"

lemma separate_add:
  assumes "\<And>x y. cmp x y = 0 \<Longrightarrow> cmp y x = 0"
  shows "separate hash cmp (add_mset it M) \<longleftrightarrow>
    separate hash cmp M \<and> good_item hash it \<and> (\<forall>x \<in># M. cmp (it_data x) (it_data it) \<noteq> 0)"
proof -
  have "add_mset it M - {#x#} = add_mset it (M - {#x#})" if "x \<in># M" for x using that by simp
  then show ?thesis using assms unfolding separate_def by (auto simp: in_diffD) 
qed

lemma rebucket_ok:
  assumes ok: "lh_ok hash cmp lh" and n: "kMinNumBuckets \<le> n"
  shows "lh_ok hash cmp (lh_rebucket h lh n) \<and> mset (items (lh_rebucket h lh n)) = mset (items lh)"
proof -
  have "0 < n" using n by (simp add: kMinNumBuckets_def)
  from rebucket_fold [OF placed_replicate this, of "concat (buckets lh)"]
  have f: "placed n (fold (push_item n) (concat (buckets lh)) (replicate n []))"
    "mset (concat (fold (push_item n) (concat (buckets lh)) (replicate n []))) = mset (items lh)"
    by (simp_all add: items_def)
  then show ?thesis using ok n mset_eq_length [OF f(2)] by (auto simp: lh_rebucket_def Let_def lh_ok_def items_def)
qed

lemma resize_ok:
  assumes "lh_ok hash cmp lh"
  shows "lh_ok hash cmp (lh_maybe_resize h lh) \<and> mset (items (lh_maybe_resize h lh)) = mset (items lh)"
proof -
  have k: "kMinNumBuckets \<le> num_buckets lh" using assms by (simp add: lh_ok_def)
  then show ?thesis using assms rebucket_ok [OF assms]
    by (auto simp: lh_maybe_resize_def Let_def)
qed

lemma new_empty:
  assumes "lh_new h f c = Some lh"
  shows "lh_ok hash cmp lh \<and> lookup cmp lh = (\<lambda>_. None) \<and> lh_hash lh = f \<and> lh_comp lh = c \<and> items lh = []"
proof -
  have lh: "lh = \<lparr>num_items = 0, buckets = replicate kMinNumBuckets [], num_buckets = kMinNumBuckets,
      callback_depth = 0, lh_comp = c, lh_hash = f\<rparr>"
    using assms by (simp add: lh_new_def split: if_splits)
  have i: "items lh = []" by (simp add: lh items_def)
  then show ?thesis by (simp add: lh_ok_def lh separate_def placed_replicate lookup_def fun_eq_iff)
qed

lemma foldl_concat: "foldl (foldl f) w xss = foldl f w (concat xss)"
  by (induction xss arbitrary: w) simp_all

text \<open>Iteration visits every element once; the table keeps its elements.\<close>

lemma doall_visits:
  assumes ok: "lh_ok hash cmp lh"
  shows "\<exists>lh'. lh_doall_arg h (Some lh) func w = (foldl func w (map it_data (items lh)), Some lh') \<and>
    lh_ok hash cmp lh' \<and> mset (items lh') = mset (items lh)"
proof -
  define k where "k = (if callback_depth lh < - 1 then callback_depth lh + 1 else callback_depth lh)"
  define k' where "k' = (if k < - 1 then k - 1 else k)"
  have d: "lh_doall_arg h (Some lh) func w =
      (foldl func w (map it_data (items lh)), Some (lh_maybe_resize h (lh\<lparr>callback_depth := k'\<rparr>)))"
    by (simp add: lh_doall_arg_def Let_def foldl_concat items_def foldl_map k_def k'_def)
  have "lh_ok hash cmp (lh\<lparr>callback_depth := k'\<rparr>)" using ok by (simp add: lh_ok_def items_def)
  from resize_ok [OF this, of h] d show ?thesis by (simp add: items_def)
qed

section \<open>The contract\<close>

locale hash_contract =
  fixes hash :: "ptr \<Rightarrow> u32" and cmp :: "ptr \<Rightarrow> ptr \<Rightarrow> int"
  assumes refl: "cmp x x = 0"
    and sym: "cmp x y = 0 \<Longrightarrow> cmp y x = 0"
    and trans: "cmp x y = 0 \<Longrightarrow> cmp y z = 0 \<Longrightarrow> cmp x z = 0"
    and compat: "cmp x y = 0 \<Longrightarrow> hash x = hash y"
begin

lemma separate_unique:
  assumes "separate hash cmp M" "x \<in># M" "y \<in># M" "cmp (it_data x) d = 0" "cmp (it_data y) d = 0"
  shows "x = y"
proof (rule ccontr)
  assume "x \<noteq> y"
  then have "y \<in># M - {#x#}" using assms(3) by (simp add: in_diff_count)
  then have "cmp (it_data x) (it_data y) \<noteq> 0" using assms(1,2) by (simp add: separate_def)
  then show False using trans [OF assms(4) sym [OF assms(5)]] by simp
qed

lemma lookup_iff:
  assumes "separate hash cmp (mset (items lh))"
  shows "lookup cmp lh d = Some v \<longleftrightarrow> (\<exists>it \<in># mset (items lh). it_data it = v \<and> cmp v d = 0)"
proof
  assume "lookup cmp lh d = Some v"
  then obtain it where "List.find (\<lambda>it. cmp (it_data it) d = 0) (items lh) = Some it" "it_data it = v"
    by (auto simp: lookup_def)
  then show "\<exists>it \<in># mset (items lh). it_data it = v \<and> cmp v d = 0" by (force simp: find_Some_iff)
next
  assume "\<exists>it \<in># mset (items lh). it_data it = v \<and> cmp v d = 0"
  then obtain it where it: "it \<in># mset (items lh)" "it_data it = v" "cmp v d = 0" by blast
  then obtain it' where f: "List.find (\<lambda>it. cmp (it_data it) d = 0) (items lh) = Some it'"
    by (cases "List.find (\<lambda>it. cmp (it_data it) d = 0) (items lh)") (auto simp: find_None_iff)
  then have "it' \<in># mset (items lh)" "cmp (it_data it') d = 0" by (force simp: find_Some_iff)+
  with separate_unique [OF assms, of it it' d] it have "it' = it" by simp
  with f it show "lookup cmp lh d = Some v" by (simp add: lookup_def)
qed

lemma lookup_eqI:
  assumes "separate hash cmp (mset (items lh))"
    and "\<And>v. f d = Some v \<longleftrightarrow> (\<exists>it \<in># mset (items lh). it_data it = v \<and> cmp v d = 0)"
  shows "lookup cmp lh d = f d"
  using lookup_iff [OF assms(1), of d] assms(2) by (metis not_Some_eq)

text \<open>Where an element is, or would be put.\<close>

lemma locate:
  assumes ok: "lh_ok hash cmp lh" and h: "call_hash (lh_hash lh) = hash" and c: "call_cmp (lh_comp lh) = cmp"
  obtains (absent) b where "get_next_ptr_and_hash lh d call_hash call_cmp = (hash d, b, length (buckets lh ! b))"
      "b = unat (hash d) mod num_buckets lh" "b < length (buckets lh)" "deref lh b (length (buckets lh ! b)) = None"
      "lookup cmp lh d = None" "\<forall>it \<in># mset (items lh). cmp (it_data it) d \<noteq> 0"
    | (present) b i it where "get_next_ptr_and_hash lh d call_hash call_cmp = (hash d, b, i)"
      "b = unat (hash d) mod num_buckets lh" "b < length (buckets lh)" "deref lh b i = Some it"
      "i < length (buckets lh ! b)" "buckets lh ! b ! i = it"
      "cmp (it_data it) d = 0" "lookup cmp lh d = Some (it_data it)" "it \<in># mset (items lh)"
proof -
  let ?b = "unat (hash d) mod num_buckets lh"
  have pl: "placed (num_buckets lh) (buckets lh)" "0 < num_buckets lh" and sp: "separate hash cmp (mset (items lh))"
    using ok by (simp_all add: lh_ok_def kMinNumBuckets_def)
  have b: "?b < num_buckets lh" "?b < length (buckets lh)" using pl by (simp_all add: placed_def)
  have here: "it \<in> set (buckets lh ! ?b)" if "it \<in># mset (items lh)" "cmp (it_data it) d = 0" for it
  proof -
    have "good_item hash it" using sp that(1) by (simp add: separate_def)
    then have "it_hash it = hash d" using compat [OF that(2)] by (simp add: good_item_def)
    with in_bucket [OF pl(1), of it] that(1) show ?thesis by (simp add: items_def)
  qed
  have inside: "it \<in># mset (items lh)" if "it \<in> set (buckets lh ! ?b)" for it
    using that b(2) by (auto simp: items_def)
  let ?P = "\<lambda>cur. cmp cur d = 0"
  let ?i = "chain_find ?P (buckets lh ! ?b)"
  have g: "get_next_ptr_and_hash lh d call_hash call_cmp = (hash d, ?b, ?i)"
    by (simp add: get_next_ptr_and_hash_def Let_def h c)
  show thesis
  proof (cases rule: chain_find_cases [of ?P "buckets lh ! ?b"])
    case none
    have no: "\<forall>it \<in># mset (items lh). cmp (it_data it) d \<noteq> 0" using here none(2) by blast
    then have "lookup cmp lh d = None" using lookup_iff [OF sp, of d] by (metis not_Some_eq)
    then show thesis using absent [of ?b] g b no none(1) by (simp add: deref_def)
  next
    case (found xs it ys)
    then have m: "it \<in># mset (items lh)" using inside by simp
    then have "lookup cmp lh d = Some (it_data it)" using lookup_iff [OF sp] found(3) by blast
    then show thesis using present [of ?b ?i it] g b found m by (simp add: deref_def)
  qed
qed

lemma retrieve_eq:
  assumes "lh_ok hash cmp lh" "call_hash (lh_hash lh) = hash" "call_cmp (lh_comp lh) = cmp"
  shows "lh_retrieve lh d call_hash call_cmp = (case lookup cmp lh d of None \<Rightarrow> 0 | Some x \<Rightarrow> x)"
  by (cases rule: locate [where d = d and call_hash = call_hash and call_cmp = call_cmp, OF assms]) (simp_all add: lh_retrieve_def)

lemma same_functions [simp]:
  "lh_hash (lh_maybe_resize h lh) = lh_hash lh" "lh_comp (lh_maybe_resize h lh) = lh_comp lh"
  by (simp_all add: lh_maybe_resize_def lh_rebucket_def Let_def)

lemma resized:
  assumes "lh_ok hash cmp lh"
  shows "lh_ok hash cmp (lh_maybe_resize h lh)" "lookup cmp (lh_maybe_resize h lh) = lookup cmp lh"
proof -
  note r = resize_ok [OF assms, of h]
  then show "lh_ok hash cmp (lh_maybe_resize h lh)" by simp
  have "separate hash cmp (mset (items lh))" using assms by (simp add: lh_ok_def)
  then show "lookup cmp (lh_maybe_resize h lh) = lookup cmp lh"
    using r lookup_iff [of lh] lookup_iff [of "lh_maybe_resize h lh"] by (intro ext) (metis not_Some_eq)
qed

lemma sep_add:
  "separate hash cmp (add_mset it M) \<longleftrightarrow>
    separate hash cmp M \<and> good_item hash it \<and> (\<forall>x \<in># M. cmp (it_data x) (it_data it) \<noteq> 0)"
  by (rule separate_add) (rule sym)

text \<open>A change of one bucket, as a change of the multiset of items.\<close>

lemma update_ok:
  assumes ok: "lh_ok hash cmp lh" and b: "b < length (buckets lh)"
    and c: "\<And>it. it \<in> set c \<Longrightarrow> it \<in> set (buckets lh ! b) \<or> unat (it_hash it) mod num_buckets lh = b"
    and m: "mset (items (lh\<lparr>buckets := (buckets lh)[b := c]\<rparr>)) = M" "size M = k" "separate hash cmp M"
  shows "lh_ok hash cmp (lh\<lparr>buckets := (buckets lh)[b := c], num_items := k\<rparr>)"
proof -
  have pl: "placed (num_buckets lh) (buckets lh)" "b < num_buckets lh" using ok b by (simp_all add: lh_ok_def placed_def)
  have "placed (num_buckets lh) ((buckets lh)[b := c])"
    by (rule placed_update [OF pl]) (use c placedD [OF pl] in blast)
  then show ?thesis using ok m by (auto simp: lh_ok_def items_def)
qed

lemma bucket_mset:
  "b < length (buckets lh) \<Longrightarrow>
   mset (items (lh\<lparr>buckets := (buckets lh)[b := c]\<rparr>)) + mset (buckets lh ! b) = mset (items lh) + mset c"
  using mset_concat_update [of b "buckets lh" c] by (simp add: items_def)

lemma replaced_ok:
  assumes ok: "lh_ok hash cmp lh" and b: "b = unat (hash d) mod num_buckets lh" "b < length (buckets lh)"
    and i: "i < length (buckets lh ! b)" "buckets lh ! b ! i = it" "it \<in># mset (items lh)" and eq: "cmp (it_data it) d = 0"
    and lh': "lh' = lh\<lparr>buckets := (buckets lh)[b := (buckets lh ! b)[i := it\<lparr>it_data := d\<rparr>]]\<rparr>"
  shows "lh_ok hash cmp lh' \<and> (\<forall>d'. lookup cmp lh' d' = (if cmp d d' = 0 then Some d else lookup cmp lh d'))"
proof -
  let ?it = "it\<lparr>it_data := d\<rparr>" and ?c = "(buckets lh ! b)[i := it\<lparr>it_data := d\<rparr>]"
  obtain M where M: "mset (items lh) = add_mset it M" using i(3) by (metis insert_DiffM)
  have inb: "it \<in># mset (buckets lh ! b)" using i by (metis nth_mem set_mset_mset)
  obtain R where R: "mset (buckets lh ! b) = add_mset it R" using inb by (metis insert_DiffM)
  have c: "mset ?c = add_mset ?it R" using mset_update [OF i(1), of ?it] i(2) R by simp
  have "mset (items lh') + add_mset it R = add_mset it M + add_mset ?it R"
    unfolding lh' using bucket_mset [OF b(2), of ?c] unfolding M R c by simp
  then have m: "mset (items lh') = add_mset ?it M" by simp
  have sp: "separate hash cmp (add_mset it M)" using ok M by (simp add: lh_ok_def)
  then have s: "separate hash cmp M" "good_item hash it" "\<forall>x \<in># M. cmp (it_data x) (it_data it) \<noteq> 0"
    using sep_add by blast+
  have nd: "cmp (it_data x) d \<noteq> 0" if "x \<in># M" for x using s(3) that trans [OF _ sym [OF eq]] by blast
  have g: "good_item hash ?it" using s(2) compat [OF eq] by (simp add: good_item_def)
  have sp': "separate hash cmp (add_mset ?it M)"
    unfolding sep_add using s(1) g nd by simp
  have k: "size (add_mset ?it M) = num_items lh" using ok M by (simp add: lh_ok_def flip: size_mset)
  have pl: "unat (it_hash ?it) mod num_buckets lh = b" using g b(1) by (simp add: good_item_def)
  have "lh_ok hash cmp (lh\<lparr>buckets := (buckets lh)[b := ?c], num_items := num_items lh\<rparr>)"
  proof (rule update_ok [OF ok b(2) _ _ k sp'])
    show "x \<in> set (buckets lh ! b) \<or> unat (it_hash x) mod num_buckets lh = b" if "x \<in> set ?c" for x
      using set_update_subset_insert [of "buckets lh ! b" i ?it] that pl by auto
  qed (use m lh' in simp)
  moreover have "lh\<lparr>buckets := (buckets lh)[b := ?c], num_items := num_items lh\<rparr> = lh'" by (simp add: lh')
  moreover have "lookup cmp lh' d' = (if cmp d d' = 0 then Some d else lookup cmp lh d')" for d'
  proof (rule lookup_eqI)
    show "separate hash cmp (mset (items lh'))" using sp' m by simp
    fix v
    have l: "lookup cmp lh d' = Some v \<longleftrightarrow> (\<exists>x \<in># add_mset it M. it_data x = v \<and> cmp v d' = 0)"
      using lookup_iff [of lh d' v] sp M by simp
    show "(if cmp d d' = 0 then Some d else lookup cmp lh d') = Some v \<longleftrightarrow>
        (\<exists>x \<in># mset (items lh'). it_data x = v \<and> cmp v d' = 0)"
    proof (cases "cmp d d' = 0")
      case True
      then have "cmp (it_data x) d' \<noteq> 0" if "x \<in># M" for x using nd [OF that] trans sym by blast
      then show ?thesis using True by (auto simp: m)
    next
      case False
      then have "cmp (it_data it) d' \<noteq> 0" using trans [OF sym [OF eq]] by blast
      then show ?thesis using False by (auto simp: m l)
    qed
  qed
  ultimately show ?thesis by simp
qed

lemma added_ok:
  assumes ok: "lh_ok hash cmp lh" and b: "b = unat (hash d) mod num_buckets lh" "b < length (buckets lh)"
    and new: "\<forall>it \<in># mset (items lh). cmp (it_data it) d \<noteq> 0"
    and lh': "lh' = lh\<lparr>buckets := (buckets lh)[b := buckets lh ! b @ [\<lparr>it_data = d, it_hash = hash d\<rparr>]],
      num_items := num_items lh + 1\<rparr>"
  shows "lh_ok hash cmp lh' \<and> (\<forall>d'. lookup cmp lh' d' = (if cmp d d' = 0 then Some d else lookup cmp lh d'))"
proof -
  let ?it = "\<lparr>it_data = d, it_hash = hash d\<rparr>" and ?M = "mset (items lh)"
  let ?c = "buckets lh ! b @ [\<lparr>it_data = d, it_hash = hash d\<rparr>]"
  have m: "mset (items (lh\<lparr>buckets := (buckets lh)[b := ?c]\<rparr>)) = add_mset ?it ?M"
    using bucket_mset [OF b(2), of ?c] by simp
  then have m': "mset (items lh') = add_mset ?it ?M" by (simp add: lh' items_def)
  have s: "separate hash cmp ?M" using ok by (simp add: lh_ok_def)
  have sp': "separate hash cmp (add_mset ?it ?M)"
    unfolding sep_add using s new by (simp add: good_item_def)
  have "size (add_mset ?it ?M) = num_items lh + 1" using ok by (simp add: lh_ok_def)
  from update_ok [OF ok b(2) _ m this sp'] have "lh_ok hash cmp lh'"
    unfolding lh' using b(1) by (metis (no_types, lifting) Un_iff lhash_item.select_convs(2) set_ConsD set_append empty_iff empty_set)
  moreover have "lookup cmp lh' d' = (if cmp d d' = 0 then Some d else lookup cmp lh d')" for d'
  proof (rule lookup_eqI)
    show "separate hash cmp (mset (items lh'))" using sp' m' by simp
    fix v
    have "cmp (it_data x) d' \<noteq> 0" if "x \<in># ?M" "cmp d d' = 0" for x
      using new that trans sym by blast
    then show "(if cmp d d' = 0 then Some d else lookup cmp lh d') = Some v \<longleftrightarrow>
        (\<exists>x \<in># mset (items lh'). it_data x = v \<and> cmp v d' = 0)"
      by (auto simp: m' lookup_iff [OF s])
  qed
  ultimately show ?thesis by simp
qed

lemma removed_ok:
  assumes ok: "lh_ok hash cmp lh" and b: "b < length (buckets lh)"
    and i: "i < length (buckets lh ! b)" "buckets lh ! b ! i = it" "it \<in># mset (items lh)" and eq: "cmp (it_data it) d = 0"
    and lh': "lh' = lh\<lparr>buckets := (buckets lh)[b := take i (buckets lh ! b) @ drop (i + 1) (buckets lh ! b)],
      num_items := num_items lh - 1\<rparr>"
  shows "lh_ok hash cmp lh' \<and> (\<forall>d'. lookup cmp lh' d' = (if cmp d d' = 0 then None else lookup cmp lh d'))"
proof -
  let ?c = "take i (buckets lh ! b) @ drop (i + 1) (buckets lh ! b)"
  obtain M where M: "mset (items lh) = add_mset it M" using i(3) by (metis insert_DiffM)
  have "buckets lh ! b = take i (buckets lh ! b) @ it # drop (i + 1) (buckets lh ! b)"
    using i(1,2) id_take_nth_drop by fastforce
  then have "mset (buckets lh ! b) = add_mset it (mset ?c)" by (metis mset_append mset.simps(2) union_mset_add_mset_right)
  then have m: "mset (items (lh\<lparr>buckets := (buckets lh)[b := ?c]\<rparr>)) = M"
    using bucket_mset [OF b, of ?c] M by simp
  then have m': "mset (items lh') = M" by (simp add: lh' items_def)
  have sp: "separate hash cmp (add_mset it M)" using ok M by (simp add: lh_ok_def)
  then have s: "separate hash cmp M" "\<forall>x \<in># M. cmp (it_data x) (it_data it) \<noteq> 0"
    using sep_add by blast+
  have "size (mset (items lh)) = num_items lh" using ok by (simp add: lh_ok_def)
  then have "size M = num_items lh - 1" using M by simp
  then have "lh_ok hash cmp lh'" unfolding lh'
    by (intro update_ok [OF ok b _ m _ s(1)]) (auto dest: in_set_takeD in_set_dropD)
  moreover have "lookup cmp lh' d' = (if cmp d d' = 0 then None else lookup cmp lh d')" for d'
  proof (rule lookup_eqI)
    show "separate hash cmp (mset (items lh'))" using s(1) m' by simp
    fix v
    have l: "lookup cmp lh d' = Some v \<longleftrightarrow> (\<exists>x \<in># add_mset it M. it_data x = v \<and> cmp v d' = 0)"
      using lookup_iff [of lh d' v] sp M by simp
    have e: "cmp (it_data it) d' = 0 \<longleftrightarrow> cmp d d' = 0" using eq trans sym by blast
    have "cmp (it_data x) d' \<noteq> 0" if "x \<in># M" "cmp d d' = 0" for x
      using s(2) that e trans sym by blast
    then show "(if cmp d d' = 0 then None else lookup cmp lh d') = Some v \<longleftrightarrow>
        (\<exists>x \<in># mset (items lh'). it_data x = v \<and> cmp v d' = 0)"
      using e by (auto simp: m' l)
  qed
  ultimately show ?thesis by simp
qed

lemma insert_refines:
  assumes "lh_ok hash cmp lh" "call_hash (lh_hash lh) = hash" "call_cmp (lh_comp lh) = cmp"
    and r: "lh_insert h lh d call_hash call_cmp = (res, old, lh')"
  shows "(res \<longrightarrow> lh_ok hash cmp lh' \<and> lh_hash lh' = lh_hash lh \<and> lh_comp lh' = lh_comp lh \<and>
      old = (case lookup cmp lh d of None \<Rightarrow> 0 | Some x \<Rightarrow> x) \<and>
      lookup cmp lh' = (\<lambda>d'. if cmp d d' = 0 then Some d else lookup cmp lh d')) \<and>
    (\<not> res \<longrightarrow> old = 0 \<and> lh' = lh \<and> lookup cmp lh d = None \<and> \<not> (\<forall>k. malloc_ok h k))"
proof (cases rule: locate [where d = d and call_hash = call_hash and call_cmp = call_cmp, OF assms(1-3)])
  case absent: (1 b)
  let ?lh = "lh\<lparr>buckets := (buckets lh)[b := buckets lh ! b @ [\<lparr>it_data = d, it_hash = hash d\<rparr>]],
      num_items := num_items lh + 1\<rparr>"
  have a: "lh_ok hash cmp ?lh \<and> (\<forall>d'. lookup cmp ?lh d' = (if cmp d d' = 0 then Some d else lookup cmp lh d'))"
    by (rule added_ok [OF assms(1) absent(2,3,6) HOL.refl])
  show ?thesis
  proof (cases "OPENSSL_malloc h SIZEOF_LHASH_ITEM = None")
    case True
    then have "\<not> (\<forall>k. malloc_ok h k)" by (auto simp: OPENSSL_malloc_def Let_def split: if_splits)
    then show ?thesis using r absent True by (simp add: lh_insert_def)
  next
    case False
    then have "res" "old = 0" "lh' = lh_maybe_resize h ?lh" using r absent by (simp_all add: lh_insert_def split: if_splits)
    then show ?thesis using a resized [of ?lh h] absent(5) by auto
  qed
next
  case present: (2 b i it)
  let ?lh = "lh\<lparr>buckets := (buckets lh)[b := (buckets lh ! b)[i := it\<lparr>it_data := d\<rparr>]]\<rparr>"
  have "res" "old = it_data it" "lh' = ?lh" using r present by (simp_all add: lh_insert_def)
  moreover have "lh_ok hash cmp ?lh \<and> (\<forall>d'. lookup cmp ?lh d' = (if cmp d d' = 0 then Some d else lookup cmp lh d'))"
    by (rule replaced_ok [OF assms(1) present(2,3,5,6,9,7) HOL.refl])
  ultimately show ?thesis using present(8) by auto
qed

lemma delete_refines:
  assumes "lh_ok hash cmp lh" "call_hash (lh_hash lh) = hash" "call_cmp (lh_comp lh) = cmp"
    and r: "lh_delete h lh d call_hash call_cmp = (old, lh')"
  shows "lh_ok hash cmp lh' \<and> lh_hash lh' = lh_hash lh \<and> lh_comp lh' = lh_comp lh \<and>
      old = (case lookup cmp lh d of None \<Rightarrow> 0 | Some x \<Rightarrow> x) \<and>
      lookup cmp lh' = (\<lambda>d'. if cmp d d' = 0 then None else lookup cmp lh d')"
proof (cases rule: locate [where d = d and call_hash = call_hash and call_cmp = call_cmp, OF assms(1-3)])
  case absent: (1 b)
  have "lookup cmp lh d' = None" if "cmp d d' = 0" for d'
  proof -
    have s: "separate hash cmp (mset (items lh))" using assms(1) by (simp add: lh_ok_def)
    have "cmp (it_data x) d' \<noteq> 0" if "x \<in># mset (items lh)" for x using absent(6) that \<open>cmp d d' = 0\<close> trans sym by blast
    then show ?thesis using lookup_iff [OF s, of d'] by (metis not_Some_eq)
  qed
  moreover have "old = 0" "lh' = lh" using r absent by (simp_all add: lh_delete_def)
  ultimately show ?thesis using assms(1) absent(5) by (auto simp: fun_eq_iff)
next
  case present: (2 b i it)
  let ?lh = "lh\<lparr>buckets := (buckets lh)[b := take i (buckets lh ! b) @ drop (i + 1) (buckets lh ! b)],
      num_items := num_items lh - 1\<rparr>"
  have "old = it_data it" "lh' = lh_maybe_resize h ?lh" using r present by (simp_all add: lh_delete_def)
  moreover have "lh_ok hash cmp ?lh \<and> (\<forall>d'. lookup cmp ?lh d' = (if cmp d d' = 0 then None else lookup cmp lh d'))"
    by (rule removed_ok [OF assms(1) present(3,5,6,9,7) HOL.refl])
  ultimately show ?thesis using present(8) resized [of ?lh h] by auto
qed

text \<open>Looking up by key, in a table whose key functions agree with those of some element.\<close>

lemma retrieve_key_eq:
  assumes ok: "lh_ok hash cmp lh" "call_hash (lh_hash lh) = hash" "call_cmp (lh_comp lh) = cmp"
  shows "lh_retrieve_key lh (hash d) (\<lambda>cur. cmp cur d) = (case lookup cmp lh d of None \<Rightarrow> 0 | Some x \<Rightarrow> x)"
  using retrieve_eq [where d = d and call_hash = call_hash and call_cmp = call_cmp, OF ok]
  by (simp add: lh_retrieve_key_def lh_retrieve_def get_next_ptr_by_key_def get_next_ptr_and_hash_def Let_def ok)

lemma data_distinct:
  "separate hash cmp (mset its) \<Longrightarrow> distinct (map it_data its)"
proof (induction its)
  case (Cons it its)
  have s: "separate hash cmp (mset its)" "\<forall>x \<in># mset its. cmp (it_data x) (it_data it) \<noteq> 0"
    using Cons.prems sep_add [of it "mset its"] by simp_all
  then have "it_data x \<noteq> it_data it" if "x \<in> set its" for x using refl that by fastforce
  then show ?case using Cons.IH [OF s(1)] by force
qed simp

lemma visited_spec:
  assumes ok: "lh_ok hash cmp lh"
  shows "\<exists>visited lh'. lh_doall_arg h (Some lh) (\<lambda>w p. w @ [p]) [] = (visited, Some lh') \<and>
    length visited = lh_num_items lh \<and> set visited = {v. lookup cmp lh v = Some v} \<and> distinct visited \<and>
    lh_ok hash cmp lh' \<and> lookup cmp lh' = lookup cmp lh"
proof -
  have s: "separate hash cmp (mset (items lh))" using ok by (simp add: lh_ok_def)
  have f: "foldl (\<lambda>w p. w @ [p]) w ps = w @ ps" for w ps :: "ptr list" by (induction ps arbitrary: w) simp_all
  from doall_visits [OF ok, of h "\<lambda>w p. w @ [p]" "[]"] obtain lh' where
    d: "lh_doall_arg h (Some lh) (\<lambda>w p. w @ [p]) [] = (map it_data (items lh), Some lh')" and
    ok': "lh_ok hash cmp lh'" and m: "mset (items lh') = mset (items lh)"
    by (auto simp: f)
  have "lookup cmp lh' d = lookup cmp lh d" for d
    using lookup_iff [OF s, of d] lookup_iff [of lh' d] s m by (metis not_Some_eq)
  moreover have "set (map it_data (items lh)) = {v. lookup cmp lh v = Some v}"
    using lookup_iff [OF s] refl by force
  ultimately show ?thesis using d ok' ok data_distinct [OF s]
    by (intro exI [of _ "map it_data (items lh)"] exI [of _ lh']) (auto simp: lh_num_items_def lh_ok_def)
qed

end

section \<open>The property\<close>

text \<open>C29: for a comparison function that answers 0 on an equivalence, and a hash function that
  respects it, a table is a finite map from classes of equal elements to the element stored. In
  every state of the table, locked against resizing or not and whatever memory the heap gives,
  looking up (by element or by key), inserting and deleting are lookup, update and removal of
  that map; both updates return the element stored before; an insertion fails only for a new
  element with memory refused, and then changes nothing; iteration visits every element once.\<close>

theorem lhash_refines_map:
  assumes "hash_contract hash cmp" "lh_ok hash cmp lh"
    and "call_hash (lh_hash lh) = hash" "call_cmp (lh_comp lh) = cmp"
  shows "lh_retrieve lh d call_hash call_cmp = (case lookup cmp lh d of None \<Rightarrow> 0 | Some x \<Rightarrow> x) \<and>
    lh_retrieve_key lh (hash d) (\<lambda>cur. cmp cur d) = (case lookup cmp lh d of None \<Rightarrow> 0 | Some x \<Rightarrow> x) \<and>
    (case lh_insert h lh d call_hash call_cmp of (res, old, lh') \<Rightarrow>
       if res then lh_ok hash cmp lh' \<and> lh_hash lh' = lh_hash lh \<and> lh_comp lh' = lh_comp lh \<and>
         old = (case lookup cmp lh d of None \<Rightarrow> 0 | Some x \<Rightarrow> x) \<and>
         lookup cmp lh' = (\<lambda>d'. if cmp d d' = 0 then Some d else lookup cmp lh d')
       else old = 0 \<and> lh' = lh \<and> lookup cmp lh d = None \<and> (\<exists>k. \<not> malloc_ok h k)) \<and>
    (case lh_delete h lh d call_hash call_cmp of (old, lh') \<Rightarrow>
       lh_ok hash cmp lh' \<and> lh_hash lh' = lh_hash lh \<and> lh_comp lh' = lh_comp lh \<and>
       old = (case lookup cmp lh d of None \<Rightarrow> 0 | Some x \<Rightarrow> x) \<and>
       lookup cmp lh' = (\<lambda>d'. if cmp d d' = 0 then None else lookup cmp lh d')) \<and>
    (\<exists>visited lh'. lh_doall_arg h (Some lh) (\<lambda>w p. w @ [p]) [] = (visited, Some lh') \<and>
       length visited = lh_num_items lh \<and> set visited = {v. lookup cmp lh v = Some v} \<and> distinct visited \<and>
       lookup cmp lh' = lookup cmp lh)"
proof -
  note laws = assms(1) and ok = assms(2-4)
  obtain res old lh' where i: "lh_insert h lh d call_hash call_cmp = (res, old, lh')" by (metis prod_cases3)
  obtain old2 lh2 where del: "lh_delete h lh d call_hash call_cmp = (old2, lh2)" by (metis prod.exhaust)
  show ?thesis
    using hash_contract.retrieve_eq [where d = d and call_hash = call_hash and call_cmp = call_cmp, OF laws ok]
      hash_contract.retrieve_key_eq [where d = d and call_hash = call_hash and call_cmp = call_cmp, OF laws ok]
      hash_contract.insert_refines [OF laws ok i]
      hash_contract.delete_refines [OF laws ok del]
      hash_contract.visited_spec [OF laws ok(1), of h]
    by (simp add: i del) blast
qed

definition word_at :: "ptr \<Rightarrow> u8 list option" where
  "word_at p = (if p = 0 then None else if p < 16 then Some [97, 98] else Some [99])"

lemma words_contract:
  "hash_contract (\<lambda>p. lh_strhash (word_at p)) (\<lambda>a b. if word_at a = word_at b then 0 else 1)"
  by unfold_locales (auto split: if_splits)

lemma lhash_refines_map_witness:
  "\<exists>lh. lh_new \<lparr>malloc_ok = (\<lambda>_. True), junk = (\<lambda>_. 0)\<rparr> 0 0 = Some lh \<and>
    fst (lh_insert \<lparr>malloc_ok = (\<lambda>_. True), junk = (\<lambda>_. 0)\<rparr> lh 8
      (\<lambda>_ p. lh_strhash (word_at p)) (\<lambda>_ a b. if word_at a = word_at b then 0 else 1))"
proof -
  let ?h = "\<lparr>malloc_ok = (\<lambda>_. True), junk = (\<lambda>_. 0)\<rparr> :: heap_env"
  obtain lh where n: "lh_new ?h 0 0 = Some lh" by (simp add: lh_new_def OPENSSL_malloc_def Let_def)
  note e = new_empty [OF n, of "\<lambda>p. lh_strhash (word_at p)" "\<lambda>a b. if word_at a = word_at b then 0 else 1"]
  show ?thesis
    using lhash_refines_map [OF words_contract, of lh "\<lambda>_ p. lh_strhash (word_at p)"
      "\<lambda>_ a b. if word_at a = word_at b then 0 else 1" 8 ?h] e n by (auto split: if_splits)
qed

end
