(* ===== verification/Bssl_Pool.thy ===== *)
theory Bssl_Pool
  imports Bssl_Lhash Bssl_Cbs
begin

text \<open>
  Shared buffers and their pool, \<open>crypto/pool/pool.c\<close>, with the reference counts of
  \<open>crypto/refcount_c11.c\<close>. Memory gives every address a buffer; which addresses are allocated is
  kept beside it, so that a use after free can be stated. What runs under the pool's lock is one
  definition: the model of \<open>CRYPTO_BUFFER_new\<close> is the sequence of its lookup under the read lock,
  its allocation without a lock, and its insertion under the write lock, between which other
  threads may run. An \<open>abort\<close> or a failed \<open>assert\<close> is None.
\<close>

section \<open>Reference counts\<close>

definition CRYPTO_REFCOUNT_MAX :: u32 where "CRYPTO_REFCOUNT_MAX = 0xffffffff"

text \<open>The iteration of the compare-and-exchange loop that succeeds.\<close>

definition CRYPTO_refcount_inc :: "u32 \<Rightarrow> u32" where
  "CRYPTO_refcount_inc expected = (if expected \<noteq> CRYPTO_REFCOUNT_MAX then expected + 1 else expected)"

definition CRYPTO_refcount_dec_and_test_zero :: "u32 \<Rightarrow> (bool \<times> u32) option" where
  "CRYPTO_refcount_dec_and_test_zero expected =
    (if expected = 0 then None
     else if expected = CRYPTO_REFCOUNT_MAX then Some (False, expected)
     else (let new_value = expected - 1 in Some (new_value = 0, new_value)))"

section \<open>Buffers\<close>

record crypto_buffer =
  buf_pool :: ptr
  buf_data :: "nat \<Rightarrow> u8"
  buf_len :: nat
  references :: u32

record buffers =
  mem :: "ptr \<Rightarrow> crypto_buffer"
  alive :: "ptr set"

definition SIZEOF_BUFFER :: nat where "SIZEOF_BUFFER = 32"
definition SIZEOF_POOL :: nat where "SIZEOF_POOL = 208"

definition bytes_of :: "crypto_buffer \<Rightarrow> u8 list" where
  "bytes_of b = map (buf_data b) [0..<buf_len b]"

definition CRYPTO_BUFFER_hash :: "(ptr \<Rightarrow> crypto_buffer) \<Rightarrow> ptr \<Rightarrow> u32" where
  "CRYPTO_BUFFER_hash m buf = OPENSSL_hash32 (bytes_of (m buf))"

definition CRYPTO_BUFFER_cmp :: "(ptr \<Rightarrow> crypto_buffer) \<Rightarrow> ptr \<Rightarrow> ptr \<Rightarrow> int" where
  "CRYPTO_BUFFER_cmp m a b =
    (if buf_len (m a) \<noteq> buf_len (m b) then 1
     else OPENSSL_memcmp (bytes_of (m a)) (bytes_of (m b)) (buf_len (m a)))"

text \<open>
  \<open>lh_CRYPTO_BUFFER_*\<close>: the functions stored in the pool's table are the two above. A pool is its
  table; it has the address \<open>pool\<close>.
\<close>

definition bufs_retrieve :: "lhash_st \<Rightarrow> (ptr \<Rightarrow> crypto_buffer) \<Rightarrow> ptr \<Rightarrow> ptr" where
  "bufs_retrieve bufs m p = lh_retrieve bufs p (\<lambda>_. CRYPTO_BUFFER_hash m) (\<lambda>_. CRYPTO_BUFFER_cmp m)"

definition bufs_insert :: "heap_env \<Rightarrow> lhash_st \<Rightarrow> (ptr \<Rightarrow> crypto_buffer) \<Rightarrow> ptr \<Rightarrow> bool \<times> ptr \<times> lhash_st" where
  "bufs_insert h bufs m p = lh_insert h bufs p (\<lambda>_. CRYPTO_BUFFER_hash m) (\<lambda>_. CRYPTO_BUFFER_cmp m)"

definition bufs_delete :: "heap_env \<Rightarrow> lhash_st \<Rightarrow> (ptr \<Rightarrow> crypto_buffer) \<Rightarrow> ptr \<Rightarrow> ptr \<times> lhash_st" where
  "bufs_delete h bufs m p = lh_delete h bufs p (\<lambda>_. CRYPTO_BUFFER_hash m) (\<lambda>_. CRYPTO_BUFFER_cmp m)"

definition CRYPTO_BUFFER_POOL_new :: "heap_env \<Rightarrow> lhash_st option" where
  "CRYPTO_BUFFER_POOL_new h =
    (if OPENSSL_malloc h SIZEOF_POOL = None then None else lh_new h 1 2)"

text \<open>What \<open>CRYPTO_BUFFER_POOL_free\<close> asserts.\<close>

definition pool_empty :: "lhash_st \<Rightarrow> bool" where
  "pool_empty bufs \<longleftrightarrow> lh_num_items bufs = 0"

definition set_refs :: "buffers \<Rightarrow> ptr \<Rightarrow> u32 \<Rightarrow> buffers" where
  "set_refs s p n = s\<lparr>mem := (mem s)(p := (mem s p)\<lparr>references := n\<rparr>)\<rparr>"

definition inc_refs :: "buffers \<Rightarrow> ptr \<Rightarrow> buffers" where
  "inc_refs s p = set_refs s p (CRYPTO_refcount_inc (references (mem s p)))"

definition free_at :: "buffers \<Rightarrow> ptr \<Rightarrow> buffers" where
  "free_at s p = s\<lparr>alive := alive s - {p}\<rparr>"

section \<open>Making buffers\<close>

text \<open>The local variable \<open>tmp\<close> of the source has the address \<open>tmp\<close>, given back before the function returns.\<close>

definition new_lookup :: "buffers \<Rightarrow> lhash_st \<Rightarrow> ptr \<Rightarrow> (nat \<Rightarrow> u8) \<Rightarrow> nat \<Rightarrow> ptr \<times> buffers" where
  "new_lookup s bufs tmp d len =
    (let m = (mem s)(tmp := (mem s tmp)\<lparr>buf_data := d, buf_len := len\<rparr>);
         duplicate = bufs_retrieve bufs m tmp in
     if duplicate \<noteq> 0 then (duplicate, inc_refs s duplicate) else (0, s))"

text \<open>\<open>at\<close> is the address \<open>malloc\<close> gives the new buffer. A null data pointer reads as zeros.\<close>

definition new_alloc :: "heap_env \<Rightarrow> buffers \<Rightarrow> ptr \<Rightarrow> (nat \<Rightarrow> u8) \<Rightarrow> nat \<Rightarrow> ptr \<times> buffers" where
  "new_alloc h s at d len =
    (if OPENSSL_malloc h SIZEOF_BUFFER = None then (0, s)
     else
       let blk = OPENSSL_memdup h (map d [0..<len]) in
       if len \<noteq> 0 \<and> blk = None then (0, s)
       else (at, s\<lparr>alive := insert at (alive s),
         mem := (mem s)(at := \<lparr>buf_pool = 0,
           buf_data = (case blk of None \<Rightarrow> (\<lambda>_. 0) | Some b \<Rightarrow> blk_data b), buf_len = len, references = 1\<rparr>)\<rparr>))"

definition set_pool :: "buffers \<Rightarrow> ptr \<Rightarrow> ptr \<Rightarrow> buffers" where
  "set_pool s p pool = s\<lparr>mem := (mem s)(p := (mem s p)\<lparr>buf_pool := pool\<rparr>)\<rparr>"

definition new_publish ::
    "heap_env \<Rightarrow> buffers \<Rightarrow> lhash_st \<Rightarrow> ptr \<Rightarrow> ptr \<Rightarrow> (ptr \<times> buffers \<times> lhash_st) option" where
  "new_publish h s bufs pool buf =
    (let s = set_pool s buf pool; duplicate = bufs_retrieve bufs (mem s) buf in
     if duplicate = 0 then
       (case bufs_insert h bufs (mem s) buf of (inserted, old, bufs') \<Rightarrow>
          if old \<noteq> 0 then None
          else if inserted then Some (buf, s, bufs')
          else Some (duplicate, free_at s buf, bufs'))
     else Some (duplicate, free_at (inc_refs s duplicate) buf, bufs))"

definition CRYPTO_BUFFER_new ::
    "heap_env \<Rightarrow> buffers \<Rightarrow> ptr \<Rightarrow> ptr \<Rightarrow> (nat \<Rightarrow> u8) \<Rightarrow> nat \<Rightarrow> (ptr \<times> lhash_st) option \<Rightarrow>
     (ptr \<times> buffers \<times> lhash_st option) option" where
  "CRYPTO_BUFFER_new h s tmp at d len pool =
    (case pool of
      None \<Rightarrow> (case new_alloc h s at d len of (p, s) \<Rightarrow> Some (p, s, None))
    | Some (pool, bufs) \<Rightarrow>
       (case new_lookup s bufs tmp d len of (duplicate, s) \<Rightarrow>
         if duplicate \<noteq> 0 then Some (duplicate, s, Some bufs)
         else (case new_alloc h s at d len of (buf, s) \<Rightarrow>
           if buf = 0 then Some (0, s, Some bufs)
           else map_option (\<lambda>(p, s, bufs). (p, s, Some bufs)) (new_publish h s bufs pool buf))))"

definition CRYPTO_BUFFER_alloc :: "heap_env \<Rightarrow> buffers \<Rightarrow> ptr \<Rightarrow> nat \<Rightarrow> ptr \<times> buffers" where
  "CRYPTO_BUFFER_alloc h s at len =
    (if OPENSSL_malloc h SIZEOF_BUFFER = None then (0, s)
     else
       let blk = OPENSSL_malloc h len in
       if len \<noteq> 0 \<and> blk = None then (0, s)
       else (at, s\<lparr>alive := insert at (alive s),
         mem := (mem s)(at := \<lparr>buf_pool = 0,
           buf_data = (case blk of None \<Rightarrow> (\<lambda>_. 0) | Some b \<Rightarrow> blk_data b), buf_len = len, references = 1\<rparr>)\<rparr>))"

definition CRYPTO_BUFFER_new_from_CBS ::
    "heap_env \<Rightarrow> buffers \<Rightarrow> ptr \<Rightarrow> ptr \<Rightarrow> cbs \<Rightarrow> (ptr \<times> lhash_st) option \<Rightarrow>
     (ptr \<times> buffers \<times> lhash_st option) option" where
  "CRYPTO_BUFFER_new_from_CBS h s tmp at cbs pool =
    CRYPTO_BUFFER_new h s tmp at (\<lambda>i. if i < CBS_len cbs then CBS_data cbs ! i else 0) (CBS_len cbs) pool"

section \<open>Sharing and releasing them\<close>

text \<open>
  The deletion compares the buffer with the table while its count is 0. \<open>bufs\<close> is the table of the
  pool the buffer points at.
\<close>

definition CRYPTO_BUFFER_free :: "heap_env \<Rightarrow> buffers \<Rightarrow> lhash_st \<Rightarrow> ptr \<Rightarrow> (buffers \<times> lhash_st) option" where
  "CRYPTO_BUFFER_free h s bufs buf =
    (if buf = 0 then Some (s, bufs)
     else
       (case CRYPTO_refcount_dec_and_test_zero (references (mem s buf)) of
         None \<Rightarrow> None
       | Some (zero, n) \<Rightarrow>
           let s = set_refs s buf n in
           if \<not> zero then Some (s, bufs)
           else if buf_pool (mem s buf) = 0 then Some (free_at s buf, bufs)
           else
             (case bufs_delete h bufs (mem s) buf of (found, bufs') \<Rightarrow>
                if found = 0 \<or> found \<noteq> buf then None else Some (free_at s buf, bufs'))))"

definition CRYPTO_BUFFER_up_ref :: "buffers \<Rightarrow> ptr \<Rightarrow> bool \<times> buffers" where
  "CRYPTO_BUFFER_up_ref s buf = (True, inc_refs s buf)"

definition CRYPTO_BUFFER_data :: "buffers \<Rightarrow> ptr \<Rightarrow> (nat \<Rightarrow> u8)" where
  "CRYPTO_BUFFER_data s buf = buf_data (mem s buf)"

definition CRYPTO_BUFFER_len :: "buffers \<Rightarrow> ptr \<Rightarrow> nat" where
  "CRYPTO_BUFFER_len s buf = buf_len (mem s buf)"

definition CRYPTO_BUFFER_init_CBS :: "buffers \<Rightarrow> ptr \<Rightarrow> cbs" where
  "CRYPTO_BUFFER_init_CBS s buf = CBS_init (bytes_of (mem s buf))"

end
