(* ===== verification/Bssl_Pool_Props.thy ===== *)
theory Bssl_Pool_Props
  imports Bssl_Pool Bssl_Lhash_Props
begin

text \<open>
  The pool shares buffers: a pool's table is a set of buffers with different contents, and every
  interleaving of the callers' lookups, insertions, references and releases keeps the reference
  counts true to the references the callers hold.
\<close>

section \<open>The table of a pool\<close>

lemma memcmp_zero: "length as = n \<Longrightarrow> length bs = n \<Longrightarrow> OPENSSL_memcmp as bs n = 0 \<longleftrightarrow> as = bs"
proof (induction as bs n rule: OPENSSL_memcmp.induct)
  case (1 a as b bs n)
  then show ?case by (auto simp: not_less intro: antisym)
qed auto

lemma cmp_zero: "CRYPTO_BUFFER_cmp m a b = 0 \<longleftrightarrow> bytes_of (m a) = bytes_of (m b)"
proof (cases "buf_len (m a) = buf_len (m b)")
  case True
  then show ?thesis
    using memcmp_zero [of "bytes_of (m a)" "buf_len (m a)" "bytes_of (m b)"] by (simp add: CRYPTO_BUFFER_cmp_def bytes_of_def)
next
  case False
  then have "length (bytes_of (m a)) \<noteq> length (bytes_of (m b))" by (simp add: bytes_of_def)
  then show ?thesis using False by (auto simp: CRYPTO_BUFFER_cmp_def)
qed

interpretation buffer_table: hash_contract "CRYPTO_BUFFER_hash m" "CRYPTO_BUFFER_cmp m" for m
  by unfold_locales (simp_all add: cmp_zero CRYPTO_BUFFER_hash_def)

definition members :: "lhash_st \<Rightarrow> ptr set" where
  "members t = it_data ` set (items t)"

definition table_ok :: "(ptr \<Rightarrow> crypto_buffer) \<Rightarrow> lhash_st \<Rightarrow> bool" where
  "table_ok m t \<longleftrightarrow> lh_ok (CRYPTO_BUFFER_hash m) (CRYPTO_BUFFER_cmp m) t \<and> 0 \<notin> members t"

lemma table_lookup:
  assumes "table_ok m t"
  shows "lookup (CRYPTO_BUFFER_cmp m) t d = Some v \<longleftrightarrow> v \<in> members t \<and> bytes_of (m v) = bytes_of (m d)"
  using buffer_table.lookup_iff [of m t d v] assms
  by (auto simp: table_ok_def lh_ok_def members_def cmp_zero)

lemma table_distinct:
  "table_ok m t \<Longrightarrow> p \<in> members t \<Longrightarrow> q \<in> members t \<Longrightarrow> bytes_of (m p) = bytes_of (m q) \<Longrightarrow> p = q"
  using table_lookup [of m t p p] table_lookup [of m t p q] by simp

lemma table_cong:
  assumes "table_ok m t" "\<And>p. p \<in> members t \<Longrightarrow> bytes_of (m' p) = bytes_of (m p)"
  shows "table_ok m' t"
proof -
  have s: "separate (CRYPTO_BUFFER_hash m) (CRYPTO_BUFFER_cmp m) (mset (items t))"
    using assms(1) by (simp add: table_ok_def lh_ok_def)
  have b: "bytes_of (m' (it_data x)) = bytes_of (m (it_data x))" if "x \<in># mset (items t)" for x
    using assms(2) that by (simp add: members_def)
  have "separate (CRYPTO_BUFFER_hash m') (CRYPTO_BUFFER_cmp m') (mset (items t))"
    using s b unfolding separate_def good_item_def CRYPTO_BUFFER_hash_def cmp_zero
    by (metis in_diffD)
  then show ?thesis using assms(1) by (simp add: table_ok_def lh_ok_def)
qed

lemma table_retrieve:
  assumes "table_ok m t" "bufs_retrieve t m p = r"
  shows "if r = 0 then \<forall>v \<in> members t. bytes_of (m v) \<noteq> bytes_of (m p)
    else r \<in> members t \<and> bytes_of (m r) = bytes_of (m p)"
proof -
  have "r = (case lookup (CRYPTO_BUFFER_cmp m) t p of None \<Rightarrow> 0 | Some x \<Rightarrow> x)"
    using assms buffer_table.retrieve_eq [where d = p and lh = t and m = m and
      call_hash = "\<lambda>_. CRYPTO_BUFFER_hash m" and call_cmp = "\<lambda>_. CRYPTO_BUFFER_cmp m"]
    by (simp add: bufs_retrieve_def table_ok_def)
  moreover have "0 \<notin> members t" using assms(1) by (simp add: table_ok_def)
  ultimately show ?thesis using table_lookup [OF assms(1), of p]
    by (cases "lookup (CRYPTO_BUFFER_cmp m) t p") auto
qed

lemma table_members:
  assumes "lh_ok (CRYPTO_BUFFER_hash m) (CRYPTO_BUFFER_cmp m) t"
  shows "v \<in> members t \<longleftrightarrow> lookup (CRYPTO_BUFFER_cmp m) t v = Some v"
  using buffer_table.lookup_iff [of m t v v] assms by (auto simp: lh_ok_def members_def cmp_zero)

lemma table_insert:
  assumes ok: "table_ok m t" and new: "\<forall>v \<in> members t. bytes_of (m v) \<noteq> bytes_of (m p)" "p \<noteq> 0"
    and r: "bufs_insert h t m p = (res, old, t')"
  shows "old = 0 \<and> (if res then table_ok m t' \<and> members t' = insert p (members t) else t' = t)"
proof -
  have none: "lookup (CRYPTO_BUFFER_cmp m) t p = None"
    using table_lookup [OF ok, of p] new(1) by (metis not_Some_eq)
  note i = buffer_table.insert_refines [where d = p and lh = t and m = m and res = res and old = old and lh' = t' and h = h and
      call_hash = "\<lambda>_. CRYPTO_BUFFER_hash m" and call_cmp = "\<lambda>_. CRYPTO_BUFFER_cmp m"]
  then have i: "(res \<longrightarrow> lh_ok (CRYPTO_BUFFER_hash m) (CRYPTO_BUFFER_cmp m) t' \<and> old = 0 \<and>
      lookup (CRYPTO_BUFFER_cmp m) t' = (\<lambda>d'. if CRYPTO_BUFFER_cmp m p d' = 0 then Some p else lookup (CRYPTO_BUFFER_cmp m) t d')) \<and>
      (\<not> res \<longrightarrow> old = 0 \<and> t' = t)"
    using ok r none by (simp add: bufs_insert_def table_ok_def)
  show ?thesis
  proof (cases res)
    case True
    then have ok': "lh_ok (CRYPTO_BUFFER_hash m) (CRYPTO_BUFFER_cmp m) t'" using i by simp
    have "v \<in> members t' \<longleftrightarrow> v \<in> insert p (members t)" for v
      using i True new table_members [OF ok', of v] table_lookup [OF ok, of v v] by (auto simp: cmp_zero)
    then have "members t' = insert p (members t)" by blast
    moreover have "0 \<notin> members t" using ok by (simp add: table_ok_def)
    ultimately show ?thesis using True ok' new(2) i by (simp add: table_ok_def)
  next
    case False
    then show ?thesis using i by simp
  qed
qed

lemma table_delete:
  assumes ok: "table_ok m t" and p: "p \<in> members t"
  shows "\<exists>t'. bufs_delete h t m p = (p, t') \<and> table_ok m t' \<and> members t' = members t - {p}"
proof -
  obtain old t' where r: "bufs_delete h t m p = (old, t')" by (metis prod.exhaust)
  have some: "lookup (CRYPTO_BUFFER_cmp m) t p = Some p" using table_lookup [OF ok] p by blast
  have d: "lh_ok (CRYPTO_BUFFER_hash m) (CRYPTO_BUFFER_cmp m) t' \<and> old = p \<and>
      lookup (CRYPTO_BUFFER_cmp m) t' = (\<lambda>d'. if CRYPTO_BUFFER_cmp m p d' = 0 then None else lookup (CRYPTO_BUFFER_cmp m) t d')"
    using buffer_table.delete_refines [where d = p and lh = t and m = m and old = old and lh' = t' and h = h and
      call_hash = "\<lambda>_. CRYPTO_BUFFER_hash m" and call_cmp = "\<lambda>_. CRYPTO_BUFFER_cmp m"] ok r some
    by (simp add: bufs_delete_def table_ok_def)
  then have ok': "lh_ok (CRYPTO_BUFFER_hash m) (CRYPTO_BUFFER_cmp m) t'" by simp
  have "v \<in> members t' \<longleftrightarrow> v \<in> members t - {p}" for v
    using d table_members [OF ok', of v] table_lookup [OF ok, of v v] table_distinct [OF ok p, of v]
    by (auto simp: cmp_zero)
  then have "members t' = members t - {p}" by blast
  then show ?thesis using r d ok by (auto simp: table_ok_def)
qed


section \<open>Interleaved callers\<close>

text \<open>
  The callers of a pool at address \<open>P\<close>: \<open>pending\<close> are the buffers of threads inside
  \<open>CRYPTO_BUFFER_new\<close>, between their allocation and the write lock, \<open>handles\<close> the references
  handed out and not yet released, each with the bytes that were asked for. The heap may refuse
  memory at any time.
\<close>

record pool_state =
  world :: buffers
  bufs_of :: lhash_st
  pending :: "(ptr \<times> u8 list) set"
  handles :: "(ptr \<times> u8 list) multiset"

definition fresh :: "buffers \<Rightarrow> ptr \<Rightarrow> bool" where
  "fresh w p \<longleftrightarrow> p \<noteq> 0 \<and> p \<notin> alive w"

inductive free_step :: "pool_state \<Rightarrow> pool_state \<Rightarrow> bool" where
  step_free: "(p, bs) \<in># handles s \<Longrightarrow> CRYPTO_BUFFER_free h (world s) (bufs_of s) p = Some (w, t) \<Longrightarrow>
    free_step s (s\<lparr>world := w, bufs_of := t, handles := handles s - {#(p, bs)#}\<rparr>)"

inductive pool_step :: "ptr \<Rightarrow> pool_state \<Rightarrow> pool_state \<Rightarrow> bool" for P where
  step_hit: "fresh (world s) tmp \<Longrightarrow> new_lookup (world s) (bufs_of s) tmp d len = (p, w) \<Longrightarrow> p \<noteq> 0 \<Longrightarrow>
    pool_step P s (s\<lparr>world := w, handles := add_mset (p, map d [0..<len]) (handles s)\<rparr>)"
| step_alloc: "fresh (world s) at \<Longrightarrow> new_alloc h (world s) at d len = (at, w) \<Longrightarrow>
    pool_step P s (s\<lparr>world := w, pending := insert (at, map d [0..<len]) (pending s)\<rparr>)"
| step_publish: "(buf, bs) \<in> pending s \<Longrightarrow> new_publish h (world s) (bufs_of s) P buf = Some (p, w, t) \<Longrightarrow>
    pool_step P s (s\<lparr>world := w, bufs_of := t, pending := pending s - {(buf, bs)},
      handles := (if p = 0 then handles s else add_mset (p, bs) (handles s))\<rparr>)"
| step_unpooled: "fresh (world s) at \<Longrightarrow> CRYPTO_BUFFER_new h (world s) tmp at d len None = Some (at, w, None) \<Longrightarrow>
    pool_step P s (s\<lparr>world := w, handles := add_mset (at, map d [0..<len]) (handles s)\<rparr>)"
| step_raw: "fresh (world s) at \<Longrightarrow> CRYPTO_BUFFER_alloc h (world s) at len = (at, w) \<Longrightarrow>
    pool_step P s (s\<lparr>world := w, handles := add_mset (at, bytes_of (mem w at)) (handles s)\<rparr>)"
| step_up_ref: "(p, bs) \<in># handles s \<Longrightarrow>
    pool_step P s (s\<lparr>world := snd (CRYPTO_BUFFER_up_ref (world s) p), handles := add_mset (p, bs) (handles s)\<rparr>)"
| step_release: "free_step s s' \<Longrightarrow> pool_step P s s'"

inductive_cases pool_stepE: "pool_step P s s'"

definition pool_start :: "pool_state \<Rightarrow> bool" where
  "pool_start s \<longleftrightarrow> (\<exists>h. CRYPTO_BUFFER_POOL_new h = Some (bufs_of s)) \<and> alive (world s) = {} \<and>
     pending s = {} \<and> handles s = {#}"

text \<open>
  The invariant, address by address: whether a buffer is allocated, pending, in the table, how many
  handles it has, and its fields. Counts are exact until they saturate.
\<close>

definition cell :: "ptr \<Rightarrow> bool \<Rightarrow> bool \<Rightarrow> bool \<Rightarrow> nat \<Rightarrow> crypto_buffer \<Rightarrow> bool" where
  "cell P live pend tabled n b \<longleftrightarrow> (pend \<longrightarrow> live) \<and> (tabled \<longleftrightarrow> live \<and> \<not> pend \<and> buf_pool b = P) \<and>
     (live \<and> \<not> pend \<longrightarrow> references b \<noteq> 0 \<and> (references b = CRYPTO_REFCOUNT_MAX \<or> unat (references b) = n) \<and>
        (buf_pool b = 0 \<or> buf_pool b = P)) \<and>
     (n \<noteq> 0 \<longrightarrow> live \<and> \<not> pend)"

definition shared_ok :: "ptr \<Rightarrow> buffers \<Rightarrow> lhash_st \<Rightarrow> ptr set \<Rightarrow> (ptr \<Rightarrow> nat) \<Rightarrow> bool" where
  "shared_ok P w t pend hs \<longleftrightarrow> table_ok (mem w) t \<and> 0 \<notin> alive w \<and>
     (\<forall>p. cell P (p \<in> alive w) (p \<in> pend) (p \<in> members t) (hs p) (mem w p))"

definition pool_ok :: "ptr \<Rightarrow> pool_state \<Rightarrow> bool" where
  "pool_ok P s \<longleftrightarrow> shared_ok P (world s) (bufs_of s) (fst ` pending s) (count (image_mset fst (handles s))) \<and>
     (\<forall>(p, bs) \<in> pending s. bytes_of (mem (world s) p) = bs \<and> references (mem (world s) p) = 1 \<and>
        buf_pool (mem (world s) p) = 0) \<and>
     (\<forall>(p, bs) \<in># handles s. bytes_of (mem (world s) p) = bs)"

text \<open>One lemma per change of the shared state.\<close>

lemma refcount_inc:
  assumes "n \<noteq> 0"
  shows "CRYPTO_refcount_inc n \<noteq> 0" "CRYPTO_refcount_inc n = CRYPTO_REFCOUNT_MAX \<or> unat (CRYPTO_refcount_inc n) = unat n + 1"
    "n = CRYPTO_REFCOUNT_MAX \<Longrightarrow> CRYPTO_refcount_inc n = n"
proof -
  have "unat (n + 1) = unat n + 1" if "n \<noteq> CRYPTO_REFCOUNT_MAX"
  proof -
    have "unat n \<noteq> unat CRYPTO_REFCOUNT_MAX" using that by (simp add: word_unat_eq_iff)
    then have "unat n \<noteq> 4294967295" by (simp add: CRYPTO_REFCOUNT_MAX_def)
    moreover have "unat n < 4294967296" by simp
    ultimately have "unat n + 1 < 4294967296" by linarith
    then show ?thesis by (simp add: unat_word_ariths)
  qed
  then show "CRYPTO_refcount_inc n \<noteq> 0" "CRYPTO_refcount_inc n = CRYPTO_REFCOUNT_MAX \<or> unat (CRYPTO_refcount_inc n) = unat n + 1"
    using assms by (auto simp: CRYPTO_refcount_inc_def)
qed (simp add: CRYPTO_refcount_inc_def)

lemma bytes_refs [simp]: "bytes_of (b\<lparr>references := n\<rparr>) = bytes_of b" "bytes_of (b\<lparr>buf_pool := P\<rparr>) = bytes_of b"
  by (simp_all add: bytes_of_def)

lemma shared_change:
  assumes ok: "shared_ok P w t pend hs" and t': "table_ok (mem w') t'" and p: "p \<noteq> 0"
    and same: "\<And>q. q \<noteq> p \<Longrightarrow> (q \<in> alive w' \<longleftrightarrow> q \<in> alive w) \<and> (q \<in> pend' \<longleftrightarrow> q \<in> pend) \<and>
      (q \<in> members t' \<longleftrightarrow> q \<in> members t) \<and> hs' q = hs q \<and> mem w' q = mem w q"
    and here: "cell P (p \<in> alive w') (p \<in> pend') (p \<in> members t') (hs' p) (mem w' p)"
  shows "shared_ok P w' t' pend' hs'"
  unfolding shared_ok_def
proof (intro conjI allI)
  show "0 \<notin> alive w'" using same [of 0] p ok by (simp add: shared_ok_def)
  fix q show "cell P (q \<in> alive w') (q \<in> pend') (q \<in> members t') (hs' q) (mem w' q)"
  proof (cases "q = p")
    case False
    moreover have "cell P (q \<in> alive w) (q \<in> pend) (q \<in> members t) (hs q) (mem w q)" using ok by (simp add: shared_ok_def)
    ultimately show ?thesis using same [of q] by simp
  qed (use here in simp)
qed (rule t')

lemma shared_cell:
  assumes "shared_ok P w t pend hs"
  shows "cell P (p \<in> alive w) (p \<in> pend) (p \<in> members t) (hs p) (mem w p)" "p \<in> alive w \<Longrightarrow> p \<noteq> 0" "table_ok (mem w) t"
  using assms by (auto simp: shared_ok_def)

lemma set_refs_ok:
  assumes ok: "shared_ok P w t pend hs" and p: "p \<in> alive w - pend"
    and n: "n \<noteq> 0" "n = CRYPTO_REFCOUNT_MAX \<or> unat n = k"
  shows "shared_ok P (set_refs w p n) t pend (hs(p := k))"
proof (rule shared_change [OF ok])
  show "table_ok (mem (set_refs w p n)) t"
    by (rule table_cong [OF shared_cell(3) [OF ok]]) (simp add: set_refs_def)
  show "p \<noteq> 0" using shared_cell(2) [OF ok] p by simp
  show "cell P (p \<in> alive (set_refs w p n)) (p \<in> pend) (p \<in> members t) ((hs(p := k)) p) (mem (set_refs w p n) p)"
    using shared_cell(1) [OF ok, of p] p n by (simp add: cell_def set_refs_def)
qed (simp add: set_refs_def)

lemma inc_ok:
  assumes ok: "shared_ok P w t pend hs" and p: "p \<in> alive w - pend"
  shows "shared_ok P (inc_refs w p) t pend (hs(p := hs p + 1))"
proof -
  have c: "references (mem w p) \<noteq> 0" "references (mem w p) = CRYPTO_REFCOUNT_MAX \<or> unat (references (mem w p)) = hs p"
    using shared_cell(1) [OF ok, of p] p by (simp_all add: cell_def)
  show ?thesis unfolding inc_refs_def
    by (rule set_refs_ok [OF ok p refcount_inc(1) [OF c(1)]]) (use refcount_inc [OF c(1)] c(2) in metis)
qed

lemma alloc_ok:
  assumes ok: "shared_ok P w t pend hs" and f: "fresh w p" and b: "buf_pool b = 0" "P \<noteq> 0"
    and w': "w' = w\<lparr>alive := insert p (alive w), mem := (mem w)(p := b)\<rparr>"
  shows "shared_ok P w' t (insert p pend) hs"
    and "references b = 1 \<Longrightarrow> shared_ok P w' t pend (hs(p := hs p + 1))"
proof -
  have new: "p \<notin> alive w" "p \<noteq> 0" using f by (simp_all add: fresh_def)
  then have c: "hs p = 0" "p \<notin> members t" "p \<notin> pend" using shared_cell(1) [OF ok, of p] by (auto simp: cell_def)
  have t: "table_ok (mem w') t"
    by (rule table_cong [OF shared_cell(3) [OF ok]]) (use c(2) w' in auto)
  show "shared_ok P w' t (insert p pend) hs"
    by (rule shared_change [OF ok t new(2)]) (use new c b in \<open>simp_all add: w' cell_def\<close>)
  show "shared_ok P w' t pend (hs(p := hs p + 1))" if "references b = 1"
    by (rule shared_change [OF ok t new(2)]) (use new c b that in \<open>simp_all add: w' cell_def\<close>)
qed

text \<open>A pending buffer leaves the pending ones: into the table, or back to the heap.\<close>

lemma publish_insert:
  assumes ok: "shared_ok P w t pend hs" and p: "p \<in> pend" "references (mem w p) = 1"
    and t': "table_ok (mem (set_pool w p P)) t'" "members t' = insert p (members t)"
  shows "shared_ok P (set_pool w p P) t' (pend - {p}) (hs(p := hs p + 1))"
proof -
  have c: "hs p = 0" "p \<in> alive w" "p \<noteq> 0" using shared_cell(1,2) [OF ok, of p] p by (auto simp: cell_def)
  show ?thesis
    by (rule shared_change [OF ok t'(1) c(3)]) (use c p t'(2) in \<open>simp_all add: set_pool_def cell_def\<close>)
qed

lemma publish_drop:
  assumes ok: "shared_ok P w t pend hs" and p: "p \<in> pend"
  shows "shared_ok P (free_at (set_pool w p P) p) t (pend - {p}) hs"
proof -
  have c: "hs p = 0" "p \<in> alive w" "p \<noteq> 0" "p \<notin> members t" using shared_cell(1,2) [OF ok, of p] p by (auto simp: cell_def)
  have t: "table_ok (mem (free_at (set_pool w p P) p)) t"
    by (rule table_cong [OF shared_cell(3) [OF ok]]) (simp add: free_at_def set_pool_def)
  show ?thesis
    by (rule shared_change [OF ok t c(3)]) (use c p in \<open>simp_all add: set_pool_def free_at_def cell_def\<close>)
qed

lemma release_ok:
  assumes ok: "shared_ok P w t pend hs" and p: "p \<in> alive w - pend" "hs p = 1"
    and t': "table_ok (mem w') t'" "members t' = members t - {p}"
    and w': "alive w' = alive w - {p}" "\<And>q. q \<noteq> p \<Longrightarrow> mem w' q = mem w q"
  shows "shared_ok P w' t' pend (hs(p := hs p - 1))"
proof -
  have nz: "p \<noteq> 0" using shared_cell(2) [OF ok] p by simp
  show ?thesis
  proof (rule shared_change [OF ok t'(1) nz])
    show "cell P (p \<in> alive w') (p \<in> pend) (p \<in> members t') ((hs(p := hs p - 1)) p) (mem w' p)"
      using p t'(2) w'(1) by (simp add: cell_def)
  qed (use t'(2) w' in simp)
qed

text \<open>The operations on the shared state.\<close>

lemma lookup_ok:
  assumes ok: "shared_ok P w t pend hs" and f: "fresh w tmp"
    and r: "new_lookup w t tmp d len = (p, w')" "p \<noteq> 0"
  shows "shared_ok P w' t pend (hs(p := hs p + 1)) \<and> p \<in> members t \<and> bytes_of (mem w' p) = map d [0..<len] \<and>
    (\<forall>q. bytes_of (mem w' q) = bytes_of (mem w q) \<and> references (mem w' q) = (if q = p then references (mem w' p) else references (mem w q)) \<and>
      buf_pool (mem w' q) = buf_pool (mem w q))"
proof -
  define m where "m = (mem w)(tmp := (mem w tmp)\<lparr>buf_data := d, buf_len := len\<rparr>)"
  have t: "tmp \<notin> members t" using shared_cell(1) [OF ok, of tmp] f by (simp add: cell_def fresh_def)
  have b: "bytes_of (m tmp) = map d [0..<len]" "\<And>q. q \<noteq> tmp \<Longrightarrow> bytes_of (m q) = bytes_of (mem w q)"
    by (simp_all add: m_def bytes_of_def)
  have tm: "table_ok m t" by (rule table_cong [OF shared_cell(3) [OF ok]]) (use b(2) t in metis)
  have p: "bufs_retrieve t m tmp = p" "w' = inc_refs w p"
    using r by (auto simp: new_lookup_def Let_def m_def split: if_splits)
  from table_retrieve [OF tm p(1)] r(2) b(1) have in_t: "p \<in> members t" "bytes_of (m p) = map d [0..<len]" by simp_all
  then have eq: "bytes_of (mem w p) = map d [0..<len]" using b(2) t by metis
  have "p \<in> alive w - pend" using shared_cell(1) [OF ok, of p] in_t(1) by (simp add: cell_def)
  from inc_ok [OF ok this] eq in_t(1) show ?thesis by (simp add: p(2) inc_refs_def set_refs_def)
qed

lemma new_alloc_result:
  assumes "new_alloc h w p d len = (p, w')" "p \<noteq> 0"
  shows "\<exists>b. w' = w\<lparr>alive := insert p (alive w), mem := (mem w)(p := b)\<rparr> \<and> buf_pool b = 0 \<and> references b = 1 \<and>
    bytes_of b = map d [0..<len]"
proof (cases "OPENSSL_memdup h (map d [0..<len])")
  case None
  then have "len = 0" using assms by (auto simp: new_alloc_def Let_def split: if_splits)
  then show ?thesis using assms None by (auto simp: new_alloc_def Let_def bytes_of_def split: if_splits)
next
  case (Some b)
  then have "map (blk_data b) [0..<len] = map d [0..<len]"
    by (auto simp: OPENSSL_memdup_def blk_write_def split: if_splits option.splits)
  then show ?thesis using assms Some by (auto simp: new_alloc_def Let_def bytes_of_def split: if_splits)
qed

lemma raw_alloc_result:
  assumes "CRYPTO_BUFFER_alloc h w p len = (p, w')" "p \<noteq> 0"
  shows "\<exists>b. w' = w\<lparr>alive := insert p (alive w), mem := (mem w)(p := b)\<rparr> \<and> buf_pool b = 0 \<and> references b = 1"
  using assms by (auto simp: CRYPTO_BUFFER_alloc_def Let_def split: if_splits)

lemma publish_ok:
  assumes ok: "shared_ok P w t pend hs" and P: "P \<noteq> 0" and p: "buf \<in> pend" "references (mem w buf) = 1"
  shows "\<exists>p w' t'. new_publish h w t P buf = Some (p, w', t') \<and>
    shared_ok P w' t' (pend - {buf}) (if p = 0 then hs else hs(p := hs p + 1)) \<and>
    (p \<noteq> 0 \<longrightarrow> bytes_of (mem w' p) = bytes_of (mem w buf)) \<and>
    (\<forall>q. bytes_of (mem w' q) = bytes_of (mem w q)) \<and>
    (\<forall>q \<in> pend - {buf}. references (mem w' q) = references (mem w q) \<and> buf_pool (mem w' q) = buf_pool (mem w q))"
proof -
  let ?w = "set_pool w buf P"
  have b: "bytes_of (mem ?w q) = bytes_of (mem w q)" for q by (simp add: set_pool_def)
  have nz: "buf \<noteq> 0" "buf \<notin> members t" using shared_cell(1,2) [OF ok, of buf] p by (auto simp: cell_def)
  have tm: "table_ok (mem ?w) t" by (rule table_cong [OF shared_cell(3) [OF ok]]) (simp add: b)
  obtain r where r: "bufs_retrieve t (mem ?w) buf = r" by simp
  note found = table_retrieve [OF tm r]
  show ?thesis
  proof (cases "r = 0")
    case True
    obtain res old t' where i: "bufs_insert h t (mem ?w) buf = (res, old, t')" by (metis prod_cases3)
    have ins: "old = 0 \<and> (if res then table_ok (mem ?w) t' \<and> members t' = insert buf (members t) else t' = t)"
      using table_insert [OF tm _ nz(1) i] found True by simp
    show ?thesis
    proof (cases res)
      case True
      have "shared_ok P ?w t' (pend - {buf}) (hs(buf := hs buf + 1))"
        by (rule publish_insert [OF ok p]) (use ins True in simp_all)
      moreover have "new_publish h w t P buf = Some (buf, ?w, t')"
        using r \<open>r = 0\<close> i ins True by (simp add: new_publish_def)
      ultimately show ?thesis using nz b by (simp add: set_pool_def)
    next
      case False
      then have "new_publish h w t P buf = Some (0, free_at ?w buf, t)"
        using r \<open>r = 0\<close> i ins by (simp add: new_publish_def)
      then show ?thesis using publish_drop [OF ok p(1)] b by (simp add: free_at_def set_pool_def)
    qed
  next
    case False
    then have in_t: "r \<in> members t" "bytes_of (mem w r) = bytes_of (mem w buf)" using found b by simp_all
    then have a: "r \<in> alive w - pend" "r \<noteq> buf" using shared_cell(1) [OF ok, of r] p by (auto simp: cell_def)
    have c: "free_at (inc_refs ?w r) buf = free_at (set_pool (inc_refs w r) buf P) buf"
      using a(2) by (simp add: inc_refs_def set_refs_def set_pool_def free_at_def fun_upd_twist)
    have "new_publish h w t P buf = Some (r, free_at (inc_refs ?w r) buf, t)"
      using r False by (simp add: new_publish_def)
    moreover have "shared_ok P (free_at (inc_refs ?w r) buf) t (pend - {buf}) (hs(r := hs r + 1))"
      unfolding c by (rule publish_drop [OF inc_ok [OF ok a(1)] p(1)])
    ultimately show ?thesis using False in_t a by (auto simp: c free_at_def set_pool_def inc_refs_def set_refs_def)
  qed
qed

lemma free_ok:
  assumes ok: "shared_ok P w t pend hs" and P: "P \<noteq> 0" and p: "hs p \<noteq> 0"
  shows "\<exists>w' t'. CRYPTO_BUFFER_free h w t p = Some (w', t') \<and> shared_ok P w' t' pend (hs(p := hs p - 1)) \<and>
    (\<forall>q. bytes_of (mem w' q) = bytes_of (mem w q)) \<and> (\<forall>q. q \<noteq> p \<longrightarrow> mem w' q = mem w q) \<and>
    (references (mem w p) = CRYPTO_REFCOUNT_MAX \<longrightarrow> references (mem w' p) = CRYPTO_REFCOUNT_MAX) \<and>
    (references (mem w p) \<noteq> CRYPTO_REFCOUNT_MAX \<longrightarrow> references (mem w' p) \<noteq> CRYPTO_REFCOUNT_MAX) \<and>
    alive w' \<subseteq> alive w"
proof -
  note c = shared_cell(1,2) [OF ok, of p]
  define n where "n = references (mem w p)"
  have a: "p \<in> alive w - pend" "p \<noteq> 0" "n \<noteq> 0" "n = CRYPTO_REFCOUNT_MAX \<or> unat n = hs p"
    using c p by (simp_all add: cell_def n_def)
  have b: "bytes_of (mem (set_refs w p k) q) = bytes_of (mem w q)" for k q by (simp add: set_refs_def)
  show ?thesis
  proof (cases "n = CRYPTO_REFCOUNT_MAX")
    case True
    have f: "CRYPTO_BUFFER_free h w t p = Some (set_refs w p CRYPTO_REFCOUNT_MAX, t)"
      using a(2,3) True by (simp add: CRYPTO_BUFFER_free_def CRYPTO_refcount_dec_and_test_zero_def n_def)
    have s: "shared_ok P (set_refs w p CRYPTO_REFCOUNT_MAX) t pend (hs(p := hs p - 1))"
      by (rule set_refs_ok [OF ok a(1)]) (simp_all add: CRYPTO_REFCOUNT_MAX_def)
    show ?thesis using f s b True by (simp add: set_refs_def n_def)
  next
    case False
    then have n: "unat n = hs p" using a(4) by simp
    have le: "1 \<le> n" using a(3) by (metis unat_eq_zero word_le_nat_alt unat_1 One_nat_def Suc_leI neq0_conv)
    then have dec: "unat (n - 1) = hs p - 1" using n by (simp add: unat_sub)
    have max: "n - 1 \<noteq> CRYPTO_REFCOUNT_MAX"
    proof
      assume "n - 1 = CRYPTO_REFCOUNT_MAX"
      then have "unat (n - 1) = 4294967295" by (simp add: CRYPTO_REFCOUNT_MAX_def)
      moreover have "unat n < 4294967296" by simp
      ultimately show False using dec n p by linarith
    qed
    let ?w = "set_refs w p (n - 1)"
    have r: "references (mem w p) = n" by (simp add: n_def)
    show ?thesis
    proof (cases "n - 1 = 0")
      case one: False
      have "CRYPTO_BUFFER_free h w t p = Some (?w, t)"
        using a(2,3) False one by (simp add: CRYPTO_BUFFER_free_def CRYPTO_refcount_dec_and_test_zero_def r)
      moreover have "shared_ok P ?w t pend (hs(p := hs p - 1))"
        by (rule set_refs_ok [OF ok a(1) one]) (use dec in simp)
      ultimately show ?thesis using b False max by (simp add: set_refs_def r)
    next
      case zero: True
      then have h1: "hs p = 1" using dec n a(3) p by simp
      have tm: "table_ok (mem ?w) t" by (rule table_cong [OF shared_cell(3) [OF ok]]) (simp add: b)
      have w': "alive (free_at ?w p) = alive w - {p}" "\<And>q. q \<noteq> p \<Longrightarrow> mem (free_at ?w p) q = mem w q"
        "mem (free_at ?w p) = mem ?w"
        by (simp_all add: free_at_def set_refs_def)
      have rest: "(\<forall>q. bytes_of (mem (free_at ?w p) q) = bytes_of (mem w q)) \<and> (\<forall>q. q \<noteq> p \<longrightarrow> mem (free_at ?w p) q = mem w q) \<and>
          references (mem (free_at ?w p) p) \<noteq> CRYPTO_REFCOUNT_MAX \<and> alive (free_at ?w p) \<subseteq> alive w"
        using b w' max by (auto simp: free_at_def set_refs_def)
      show ?thesis
      proof (cases "buf_pool (mem w p) = 0")
        case True
        then have "p \<notin> members t" using c P by (simp add: cell_def)
        moreover have "CRYPTO_BUFFER_free h w t p = Some (free_at ?w p, t)"
          using a(2,3) False zero True by (simp add: CRYPTO_BUFFER_free_def CRYPTO_refcount_dec_and_test_zero_def r set_refs_def)
        moreover have "shared_ok P (free_at ?w p) t pend (hs(p := hs p - 1))"
          by (rule release_ok [OF ok a(1) h1 _ _ w'(1,2)]) (use tm w'(3) \<open>p \<notin> members t\<close> in simp_all)
        ultimately show ?thesis using rest r False by blast
      next
        case pooled: False
        then have m: "p \<in> members t" using c a(1) by (simp add: cell_def)
        obtain t' where d: "bufs_delete h t (mem ?w) p = (p, t')" "table_ok (mem ?w) t'" "members t' = members t - {p}"
          using table_delete [OF tm m] by blast
        then have "CRYPTO_BUFFER_free h w t p = Some (free_at ?w p, t')"
          using a(2,3) False zero pooled by (simp add: CRYPTO_BUFFER_free_def CRYPTO_refcount_dec_and_test_zero_def r set_refs_def)
        moreover have "shared_ok P (free_at ?w p) t' pend (hs(p := hs p - 1))"
          by (rule release_ok [OF ok a(1) h1 _ _ w'(1,2)]) (use d w'(3) in simp_all)
        ultimately show ?thesis using rest r False by blast
      qed
    qed
  qed
qed

section \<open>The invariant\<close>

lemma count_add: "count (image_mset fst (add_mset (p, bs) H)) = (count (image_mset fst H))(p := count (image_mset fst H) p + 1)"
  by (simp add: fun_eq_iff)

lemma count_remove:
  assumes "(p, bs) \<in># H"
  shows "count (image_mset fst (H - {#(p, bs)#})) = (count (image_mset fst H))(p := count (image_mset fst H) p - 1)"
    "count (image_mset fst H) p \<noteq> 0"
proof -
  obtain H' where "H = add_mset (p, bs) H'" using assms by (metis insert_DiffM)
  then show "count (image_mset fst (H - {#(p, bs)#})) = (count (image_mset fst H))(p := count (image_mset fst H) p - 1)"
    "count (image_mset fst H) p \<noteq> 0" by (simp_all add: fun_eq_iff)
qed

lemma pool_okD:
  assumes "pool_ok P s"
  shows "shared_ok P (world s) (bufs_of s) (fst ` pending s) (count (image_mset fst (handles s)))"
    "(p, bs) \<in> pending s \<Longrightarrow> bytes_of (mem (world s) p) = bs \<and> references (mem (world s) p) = 1 \<and> buf_pool (mem (world s) p) = 0"
    "(p, bs) \<in># handles s \<Longrightarrow> bytes_of (mem (world s) p) = bs"
  using assms by (auto simp: pool_ok_def)

lemma pool_okI:
  assumes "shared_ok P (world s) (bufs_of s) (fst ` pending s) (count (image_mset fst (handles s)))"
    "\<And>p bs. (p, bs) \<in> pending s \<Longrightarrow> bytes_of (mem (world s) p) = bs \<and> references (mem (world s) p) = 1 \<and> buf_pool (mem (world s) p) = 0"
    "\<And>p bs. (p, bs) \<in># handles s \<Longrightarrow> bytes_of (mem (world s) p) = bs"
  shows "pool_ok P s"
  using assms by (auto simp: pool_ok_def)

lemma free_step_ok:
  assumes ok: "pool_ok P s" and P: "P \<noteq> 0" and st: "free_step s s'"
  shows "pool_ok P s'"
  using st
proof cases
  case (step_free p bs h w t)
  note k = count_remove [OF step_free(2)]
  obtain w' t' where f: "CRYPTO_BUFFER_free h (world s) (bufs_of s) p = Some (w', t')"
    "shared_ok P w' t' (fst ` pending s) ((count (image_mset fst (handles s)))(p := count (image_mset fst (handles s)) p - 1))"
    "\<forall>q. bytes_of (mem w' q) = bytes_of (mem (world s) q)" "\<forall>q. q \<noteq> p \<longrightarrow> mem w' q = mem (world s) q"
    using free_ok [OF pool_okD(1) [OF ok] P k(2), of h] by blast
  then have w: "w = w'" "t = t'" using step_free(3) by simp_all
  have np: "p \<notin> fst ` pending s" using shared_cell(1) [OF pool_okD(1) [OF ok], of p] k(2) by (simp add: cell_def)
  show ?thesis
  proof (rule pool_okI)
    show "shared_ok P (world s') (bufs_of s') (fst ` pending s') (count (image_mset fst (handles s')))"
      using f(2) unfolding step_free(1) w by (simp add: k(1))
    show "bytes_of (mem (world s') q) = bs' \<and> references (mem (world s') q) = 1 \<and> buf_pool (mem (world s') q) = 0"
      if "(q, bs') \<in> pending s'" for q bs'
    proof -
      have q: "(q, bs') \<in> pending s" using that step_free(1) by simp
      then have "q \<noteq> p" using np by force
      then show ?thesis using pool_okD(2) [OF ok q] f(4) unfolding step_free(1) w by simp
    qed
    show "bytes_of (mem (world s') q) = bs'" if "(q, bs') \<in># handles s'" for q bs'
      using that f(3) pool_okD(3) [OF ok, of q bs'] unfolding step_free(1) w by (auto dest: in_diffD)
  qed
qed

text \<open>A step that adds one handle and leaves the others and the pending buffers as they are.\<close>

lemma handle_added:
  assumes ok: "pool_ok P s"
    and sh: "shared_ok P w (bufs_of s) (fst ` pending s) ((count (image_mset fst (handles s)))(p := count (image_mset fst (handles s)) p + 1))"
    and keep: "\<And>q. q \<noteq> p \<Longrightarrow> mem w q = mem (world s) q" and b: "bytes_of (mem w p) = bs"
    and old: "p \<in> alive (world s) \<Longrightarrow> bytes_of (mem w p) = bytes_of (mem (world s) p)"
  shows "pool_ok P (s\<lparr>world := w, handles := add_mset (p, bs) (handles s)\<rparr>)"
proof (rule pool_okI, goal_cases)
  case 1
  then show ?case using sh by (simp add: count_add del: image_mset_add_mset count_add_mset)
next
  case (2 q bs')
  then have q: "(q, bs') \<in> pending s" by simp
  then have "q \<in> fst ` pending s" by force
  then have "q \<noteq> p" using shared_cell(1) [OF sh, of q] by (auto simp: cell_def)
  then show ?case using pool_okD(2) [OF ok q] keep by simp
next
  case (3 q bs')
  show ?case
  proof (cases "(q, bs') \<in># handles s")
    case True
    then have "count (image_mset fst (handles s)) q \<noteq> 0" by (rule count_remove(2))
    then have "q \<in> alive (world s)" using shared_cell(1) [OF pool_okD(1) [OF ok], of q] by (simp add: cell_def)
    then show ?thesis using pool_okD(3) [OF ok True] keep [of q] old by (cases "q = p") simp_all
  next
    case False
    then show ?thesis using 3 b by simp
  qed
qed

lemma pending_added:
  assumes ok: "pool_ok P s" and f: "fresh (world s) p" and P: "P \<noteq> 0"
    and w: "w = (world s)\<lparr>alive := insert p (alive (world s)), mem := (mem (world s))(p := b)\<rparr>"
    and b: "buf_pool b = 0" "references b = 1" "bytes_of b = bs"
  shows "pool_ok P (s\<lparr>world := w, pending := insert (p, bs) (pending s)\<rparr>)"
proof (rule pool_okI, goal_cases)
  case 1
  then show ?case using alloc_ok(1) [OF pool_okD(1) [OF ok] f b(1) P w] by simp
next
  case (2 q bs')
  note np = shared_cell(1) [OF pool_okD(1) [OF ok], of p]
  show ?case
  proof (cases "(q, bs') \<in> pending s")
    case True
    then have "q \<noteq> p" using np f by (force simp: cell_def fresh_def)
    then show ?thesis using pool_okD(2) [OF ok True] by (simp add: w)
  next
    case False
    then show ?thesis using 2 b by (simp add: w)
  qed
next
  case (3 q bs')
  then have m: "(q, bs') \<in># handles s" by simp
  then have "count (image_mset fst (handles s)) q \<noteq> 0" by (rule count_remove(2))
  then have "q \<in> alive (world s)" using shared_cell(1) [OF pool_okD(1) [OF ok], of q] by (simp add: cell_def)
  then have "q \<noteq> p" using f by (auto simp: fresh_def)
  then show ?case using pool_okD(3) [OF ok m] by (simp add: w)
qed

lemma publish_step_ok:
  assumes ok: "pool_ok P s" and P: "P \<noteq> 0" and m: "(buf, bs) \<in> pending s"
  shows "\<exists>p w t. new_publish h (world s) (bufs_of s) P buf = Some (p, w, t) \<and>
    pool_ok P (s\<lparr>world := w, bufs_of := t, pending := pending s - {(buf, bs)},
      handles := (if p = 0 then handles s else add_mset (p, bs) (handles s))\<rparr>)"
proof -
  have pm: "buf \<in> fst ` pending s" using m by force
  have uniq: "bs' = bs" if "(buf, bs') \<in> pending s" for bs'
    using pool_okD(2) [OF ok that] pool_okD(2) [OF ok m] by simp
  then have fst_rest: "fst ` (pending s - {(buf, bs)}) = fst ` pending s - {buf}" by force
  obtain p w t where r: "new_publish h (world s) (bufs_of s) P buf = Some (p, w, t)"
    "shared_ok P w t (fst ` pending s - {buf}) (if p = 0 then count (image_mset fst (handles s))
       else (count (image_mset fst (handles s)))(p := count (image_mset fst (handles s)) p + 1))"
    "p \<noteq> 0 \<longrightarrow> bytes_of (mem w p) = bytes_of (mem (world s) buf)"
    "\<forall>q. bytes_of (mem w q) = bytes_of (mem (world s) q)"
    "\<forall>q \<in> fst ` pending s - {buf}. references (mem w q) = references (mem (world s) q) \<and> buf_pool (mem w q) = buf_pool (mem (world s) q)"
    using publish_ok [OF pool_okD(1) [OF ok] P pm, of h] pool_okD(2) [OF ok m] by blast
  have "pool_ok P (s\<lparr>world := w, bufs_of := t, pending := pending s - {(buf, bs)},
      handles := (if p = 0 then handles s else add_mset (p, bs) (handles s))\<rparr>)"
  proof (rule pool_okI, goal_cases)
    case 1
    show ?case
    proof (cases "p = 0")
      case True
      then show ?thesis using r(2) by (simp add: fst_rest)
    next
      case False
      then show ?thesis using r(2)
        by (simp add: fst_rest count_add del: image_mset_add_mset count_add_mset)
    qed
  next
    case (2 q bs')
    then have q: "(q, bs') \<in> pending s" "(q, bs') \<noteq> (buf, bs)" by simp_all
    have "q \<noteq> buf" using q uniq by blast
    then have m: "q \<in> fst ` pending s - {buf}" using imageI [OF q(1), of fst] by simp
    show ?case using pool_okD(2) [OF ok q(1)] bspec [OF r(5) m] spec [OF r(4), of q] by simp
  next
    case (3 q bs')
    then have "(q, bs') \<in># handles s \<or> p \<noteq> 0 \<and> (q, bs') = (p, bs)" by (auto split: if_splits)
    then show ?case using r(3,4) pool_okD(2) [OF ok m] pool_okD(3) [OF ok, of q bs'] by auto
  qed
  then show ?thesis using r(1) by blast
qed

lemma pool_step_ok:
  assumes ok: "pool_ok P s" and P: "P \<noteq> 0" and st: "pool_step P s s'"
  shows "pool_ok P s'"
  using st
proof cases
  case (step_hit tmp d len p w)
  note l = lookup_ok [OF pool_okD(1) [OF ok] step_hit(2-4)]
  have w: "w = inc_refs (world s) p" using step_hit(3,4) by (auto simp: new_lookup_def Let_def split: if_splits)
  show ?thesis unfolding step_hit(1)
    by (rule handle_added [OF ok]) (use l in \<open>simp_all add: w inc_refs_def set_refs_def\<close>)
next
  case (step_alloc at h d len w)
  then have "at \<noteq> 0" by (simp add: fresh_def)
  from new_alloc_result [OF step_alloc(3) this] obtain b where
    "w = (world s)\<lparr>alive := insert at (alive (world s)), mem := (mem (world s))(at := b)\<rparr>"
    "buf_pool b = 0" "references b = 1" "bytes_of b = map d [0..<len]" by blast
  then show ?thesis unfolding step_alloc(1) by (intro pending_added [OF ok step_alloc(2) P])
next
  case (step_publish buf bs h p w t)
  then show ?thesis using publish_step_ok [OF ok P step_publish(2), of h] by auto
next
  case (step_unpooled at h tmp d len w)
  then have nz: "at \<noteq> 0" and na: "new_alloc h (world s) at d len = (at, w)"
    by (auto simp: fresh_def CRYPTO_BUFFER_new_def split: prod.splits)
  from new_alloc_result [OF na nz] obtain b where b:
    "w = (world s)\<lparr>alive := insert at (alive (world s)), mem := (mem (world s))(at := b)\<rparr>"
    "buf_pool b = 0" "references b = 1" and bb: "bytes_of b = map d [0..<len]" by blast
  have na': "at \<notin> alive (world s)" using step_unpooled(2) by (simp add: fresh_def)
  show ?thesis unfolding step_unpooled(1)
    by (rule handle_added [OF ok alloc_ok(2) [OF pool_okD(1) [OF ok] step_unpooled(2) b(2) P b(1,3)]])
      (use na' in \<open>simp_all add: b(1) bb\<close>)
next
  case (step_raw at h len w)
  then have nz: "at \<noteq> 0" by (simp add: fresh_def)
  from raw_alloc_result [OF step_raw(3) nz] obtain b where b:
    "w = (world s)\<lparr>alive := insert at (alive (world s)), mem := (mem (world s))(at := b)\<rparr>"
    "buf_pool b = 0" "references b = 1" and bb: True by blast
  have na': "at \<notin> alive (world s)" using step_raw(2) by (simp add: fresh_def)
  show ?thesis unfolding step_raw(1)
    by (rule handle_added [OF ok alloc_ok(2) [OF pool_okD(1) [OF ok] step_raw(2) b(2) P b(1,3)]])
      (use na' in \<open>simp_all add: b(1) bb\<close>)
next
  case (step_up_ref p bs)
  have "p \<in> alive (world s) - fst ` pending s"
    using shared_cell(1) [OF pool_okD(1) [OF ok], of p] count_remove(2) [OF step_up_ref(2)] by (simp add: cell_def)
  note i = inc_ok [OF pool_okD(1) [OF ok] this]
  have w: "snd (CRYPTO_BUFFER_up_ref (world s) p) = inc_refs (world s) p" by (simp add: CRYPTO_BUFFER_up_ref_def)
  show ?thesis unfolding step_up_ref(1) w
    by (rule handle_added [OF ok i]) (use pool_okD(3) [OF ok step_up_ref(2)] in \<open>simp_all add: inc_refs_def set_refs_def\<close>)
next
  case step_release
  then show ?thesis by (rule free_step_ok [OF ok P])
qed

lemma pool_start_ok:
  assumes "pool_start s"
  shows "pool_ok P s"
proof -
  obtain h where "CRYPTO_BUFFER_POOL_new h = Some (bufs_of s)" using assms by (auto simp: pool_start_def)
  then have n: "lh_new h 1 2 = Some (bufs_of s)" by (simp add: CRYPTO_BUFFER_POOL_new_def split: if_splits)
  have t: "table_ok (mem (world s)) (bufs_of s)" "members (bufs_of s) = {}"
    using new_empty [OF n] by (simp_all add: table_ok_def members_def)
  show ?thesis using assms t by (simp add: pool_ok_def shared_ok_def pool_start_def cell_def)
qed

lemma pool_reach_ok:
  assumes "P \<noteq> 0" "pool_start s0" "(pool_step P)\<^sup>*\<^sup>* s0 s"
  shows "pool_ok P s"
  using assms(3) by (induction) (use pool_start_ok [OF assms(2)] pool_step_ok [OF _ assms(1)] in auto)

lemma handle_alive:
  assumes ok: "pool_ok P s" and m: "(p, bs) \<in># handles s"
  shows "p \<in> alive (world s)" "bytes_of (mem (world s) p) = bs" "buf_pool (mem (world s) p) = P \<Longrightarrow> p \<in> members (bufs_of s)"
    "buf_pool (mem (world s) p) \<in> {0, P}"
  using shared_cell(1) [OF pool_okD(1) [OF ok], of p] count_remove(2) [OF m] pool_okD(3) [OF ok m]
  by (auto simp: cell_def)




section \<open>The properties\<close>

text \<open>A run of two calls: one buffer without a pool, one on its way into it.\<close>

definition plenty :: heap_env where "plenty = \<lparr>malloc_ok = (\<lambda>_. True), junk = (\<lambda>_. 0)\<rparr>"

definition two_bytes :: crypto_buffer where
  "two_bytes = \<lparr>buf_pool = 0, buf_data = blk_data (blk_write \<lparr>blk_size = 2, blk_room = 2, blk_data = junk plenty\<rparr> 0 [7, 7]),
     buf_len = 2, references = 1\<rparr>"

definition nothing :: buffers where "nothing = \<lparr>mem = (\<lambda>_. two_bytes), alive = {}\<rparr>"

lemma alloc_two:
  "new_alloc plenty w at (\<lambda>_. 7) 2 = (at, w\<lparr>alive := insert at (alive w), mem := (mem w)(at := two_bytes)\<rparr>)"
proof -
  have m: "map (\<lambda>_. 7) [0..<2] = [7, 7 :: u8]" by (simp add: numeral_2_eq_2)
  have "OPENSSL_memdup plenty [7, 7] = Some (blk_write \<lparr>blk_size = 2, blk_room = 2, blk_data = junk plenty\<rparr> 0 [7, 7])"
    by (simp add: OPENSSL_memdup_def OPENSSL_malloc_def plenty_def SIZE_T_def OPENSSL_MALLOC_PREFIX_def
      flip: numeral_2_eq_2)
  moreover obtain x where "OPENSSL_malloc plenty SIZEOF_BUFFER = Some x" by (simp add: OPENSSL_malloc_def Let_def plenty_def)
  ultimately show ?thesis by (simp add: new_alloc_def Let_def two_bytes_def m)
qed

definition one_table :: lhash_st where
  "one_table = \<lparr>num_items = 0, buckets = replicate kMinNumBuckets [], num_buckets = kMinNumBuckets,
     callback_depth = 0, lh_comp = 2, lh_hash = 1\<rparr>"

definition started :: pool_state where
  "started = \<lparr>world = nothing, bufs_of = one_table, pending = {}, handles = {#}\<rparr>"

definition one_unpooled :: pool_state where
  "one_unpooled = started\<lparr>world := \<lparr>mem = (\<lambda>_. two_bytes), alive = {8}\<rparr>, handles := {#(8, [7, 7])#}\<rparr>"

lemma started_ok: "pool_start started"
proof -
  have "CRYPTO_BUFFER_POOL_new plenty = Some one_table"
    by (simp add: CRYPTO_BUFFER_POOL_new_def lh_new_def OPENSSL_malloc_def Let_def plenty_def one_table_def)
  then show ?thesis unfolding pool_start_def started_def nothing_def by auto
qed

lemma run_unpooled: "pool_step P started one_unpooled"
proof -
  have m: "map (\<lambda>_. 7) [0..<2] = [7, 7 :: u8]" by (simp add: numeral_2_eq_2)
  have w: "(\<lambda>_. two_bytes)(p := two_bytes) = (\<lambda>_. two_bytes)" for p :: ptr by auto
  have "CRYPTO_BUFFER_new plenty nothing 16 8 (\<lambda>_. 7) 2 None = Some (8, \<lparr>mem = (\<lambda>_. two_bytes), alive = {8}\<rparr>, None)"
    by (simp add: CRYPTO_BUFFER_new_def alloc_two nothing_def w)
  then show ?thesis
    using pool_step.step_unpooled [of started 8 plenty 16 "\<lambda>_. 7" 2 "\<lparr>mem = (\<lambda>_. two_bytes), alive = {8}\<rparr>" P]
    by (simp add: started_def one_unpooled_def m fresh_def nothing_def)
qed

lemma run_pending:
  "pool_step P one_unpooled (one_unpooled\<lparr>world := \<lparr>mem = (\<lambda>_. two_bytes), alive = {24, 8}\<rparr>, pending := {(24, [7, 7])}\<rparr>)"
proof -
  have m: "map (\<lambda>_. 7) [0..<2] = [7, 7 :: u8]" by (simp add: numeral_2_eq_2)
  have w: "(\<lambda>_. two_bytes)(p := two_bytes) = (\<lambda>_. two_bytes)" for p :: ptr by auto
  show ?thesis
    using pool_step.step_alloc [of one_unpooled 24 plenty "\<lambda>_. 7" 2 "\<lparr>mem = (\<lambda>_. two_bytes), alive = {24, 8}\<rparr>" P]
    by (simp add: one_unpooled_def started_def m fresh_def alloc_two w)
qed

text \<open>C27: whatever the interleaving of lookups, insertions, references and releases by the callers of
  a pool, and whatever memory the heap refuses: every handle is the address of an allocated buffer with
  the bytes it was asked for, two handles of the pool on equal bytes are the same buffer, and
  neither releasing a handle nor inserting a pending buffer aborts or fails an assertion.\<close>

theorem pool_handles_safe:
  assumes "P \<noteq> 0" "pool_start s0" "(pool_step P)\<^sup>*\<^sup>* s0 s"
  shows "(\<forall>(p, bs) \<in># handles s. p \<in> alive (world s) \<and> CRYPTO_BUFFER_init_CBS (world s) p = bs \<and>
      CRYPTO_BUFFER_len (world s) p = length bs \<and> CRYPTO_BUFFER_free h (world s) (bufs_of s) p \<noteq> None) \<and>
    (\<forall>(p, bs) \<in># handles s. \<forall>(q, bs') \<in># handles s. buf_pool (mem (world s) p) = P \<and>
      buf_pool (mem (world s) q) = P \<and> bs = bs' \<longrightarrow> p = q) \<and>
    (\<forall>(p, bs) \<in> pending s. new_publish h (world s) (bufs_of s) P p \<noteq> None)"
proof -
  note ok = pool_reach_ok [OF assms]
  have a: "p \<in> alive (world s) \<and> CRYPTO_BUFFER_init_CBS (world s) p = bs \<and>
      CRYPTO_BUFFER_len (world s) p = length bs \<and> CRYPTO_BUFFER_free h (world s) (bufs_of s) p \<noteq> None"
    if m: "(p, bs) \<in># handles s" for p bs
  proof -
    have "CRYPTO_BUFFER_len (world s) p = length (bytes_of (mem (world s) p))"
      by (simp add: CRYPTO_BUFFER_len_def bytes_of_def)
    then show ?thesis
      using handle_alive [OF ok m] free_ok [OF pool_okD(1) [OF ok] assms(1) count_remove(2) [OF m], of h]
      by (auto simp: CRYPTO_BUFFER_init_CBS_def CBS_init_def)
  qed
  have b: "p = q" if m: "(p, bs) \<in># handles s" "(q, bs) \<in># handles s"
    and P: "buf_pool (mem (world s) p) = P" "buf_pool (mem (world s) q) = P" for p bs q
    using table_distinct [OF shared_cell(3) [OF pool_okD(1) [OF ok]]]
      handle_alive(2,3) [OF ok m(1)] handle_alive(2,3) [OF ok m(2)] P by simp
  have c: "new_publish h (world s) (bufs_of s) P p \<noteq> None" if "(p, bs) \<in> pending s" for p bs
    using publish_step_ok [OF ok assms(1) that, of h] by auto
  show ?thesis
  proof (intro conjI)
    show "\<forall>(p, bs) \<in># handles s. p \<in> alive (world s) \<and> CRYPTO_BUFFER_init_CBS (world s) p = bs \<and>
      CRYPTO_BUFFER_len (world s) p = length bs \<and> CRYPTO_BUFFER_free h (world s) (bufs_of s) p \<noteq> None" using a by blast
    show "\<forall>(p, bs) \<in># handles s. \<forall>(q, bs') \<in># handles s. buf_pool (mem (world s) p) = P \<and>
      buf_pool (mem (world s) q) = P \<and> bs = bs' \<longrightarrow> p = q" using b by blast
    show "\<forall>(p, bs) \<in> pending s. new_publish h (world s) (bufs_of s) P p \<noteq> None" using c by blast
  qed
qed

theorem pool_handles_safe_witness:
  "new_publish plenty \<lparr>mem = (\<lambda>_. two_bytes), alive = {24, 8}\<rparr> one_table 100 24 \<noteq> None \<and>
   CRYPTO_BUFFER_free plenty \<lparr>mem = (\<lambda>_. two_bytes), alive = {24, 8}\<rparr> one_table 8 \<noteq> None"
proof -
  have "(pool_step 100)\<^sup>*\<^sup>* started
      (one_unpooled\<lparr>world := \<lparr>mem = (\<lambda>_. two_bytes), alive = {24, 8}\<rparr>, pending := {(24, [7, 7])}\<rparr>)"
    by (rule rtranclp.rtrancl_into_rtrancl [OF r_into_rtranclp [of "pool_step 100", OF run_unpooled] run_pending])
  from pool_handles_safe [OF _ started_ok this, of plenty] show ?thesis
    by (simp add: one_unpooled_def started_def)
qed



end
