(* ===== verification/Bssl_Base64.thy ===== *)
theory Bssl_Base64
  imports Bssl_Mem
begin

text \<open>
  Base64, \<open>crypto/base64/base64.c\<close>, with the constant-time selections of \<open>crypto/internal.h\<close> it is
  built from. An output pointer that only moves forward is the list of the bytes written through
  it; the lengths a function reports are returned beside it.
\<close>

section \<open>Selections without branches\<close>

definition constant_time_msb_w :: "u64 \<Rightarrow> u64" where
  "constant_time_msb_w a = 0 - drop_bit 63 a"

definition constant_time_lt_w :: "u64 \<Rightarrow> u64 \<Rightarrow> u64" where
  "constant_time_lt_w a b = constant_time_msb_w (a XOR ((a XOR b) OR ((a - b) XOR a)))"

definition constant_time_ge_w :: "u64 \<Rightarrow> u64 \<Rightarrow> u64" where
  "constant_time_ge_w a b = NOT (constant_time_lt_w a b)"

definition constant_time_is_zero_w :: "u64 \<Rightarrow> u64" where
  "constant_time_is_zero_w a = constant_time_msb_w (NOT a AND (a - 1))"

definition constant_time_eq_w :: "u64 \<Rightarrow> u64 \<Rightarrow> u64" where
  "constant_time_eq_w a b = constant_time_is_zero_w (a XOR b)"

definition constant_time_eq_8 :: "u64 \<Rightarrow> u64 \<Rightarrow> u8" where
  "constant_time_eq_8 a b = ucast (constant_time_eq_w a b)"

definition constant_time_select_w :: "u64 \<Rightarrow> u64 \<Rightarrow> u64 \<Rightarrow> u64" where
  "constant_time_select_w m a b = (m AND a) OR (NOT m AND b)"

text \<open>
  The 8-bit mask is widened by zeros, so \<open>NOT mask\<close> has ones above it; the cast drops them.
\<close>

definition constant_time_select_8 :: "u8 \<Rightarrow> u8 \<Rightarrow> u8 \<Rightarrow> u8" where
  "constant_time_select_8 m a b = ucast (constant_time_select_w (ucast m) (ucast a) (ucast b))"

definition constant_time_lt_args_8 :: "u8 \<Rightarrow> u8 \<Rightarrow> u8" where
  "constant_time_lt_args_8 a b = ucast (constant_time_msb_w (ucast a - ucast b))"

definition constant_time_in_range_8 :: "u8 \<Rightarrow> u8 \<Rightarrow> u8 \<Rightarrow> u8" where
  "constant_time_in_range_8 a lo hi = constant_time_lt_args_8 (a - lo) (hi - lo + 1)"

section \<open>Encoding\<close>

record evp_encode_ctx =
  data_used :: nat
  ctx_data :: "u8 list"
  eof_seen :: bool
  error_encountered :: bool

definition INT_MAX :: nat where "INT_MAX = 2 ^ 31 - 1"
definition CTX_DATA :: nat where "CTX_DATA = 48"

definition conv_bin2ascii :: "u8 \<Rightarrow> u8" where
  "conv_bin2ascii a0 =
    (let a = a0 AND 0x3f;
         ret = constant_time_select_8 (constant_time_eq_8 (ucast a) 62) 43 47;
         ret = constant_time_select_8 (constant_time_lt_args_8 a 62) (a - 52 + 48) ret;
         ret = constant_time_select_8 (constant_time_lt_args_8 a 52) (a - 26 + 97) ret
     in constant_time_select_8 (constant_time_lt_args_8 a 26) (a + 65) ret)"

definition EVP_EncodedLength :: "nat \<Rightarrow> nat option" where
  "EVP_EncodedLength n =
    (if (n + 2) mod SIZE_T < n then None
     else
       let len = (n + 2) div 3 in
       if ((len * 4) mod SIZE_T) div 4 \<noteq> len then None
       else if (len * 4 + 1) mod SIZE_T < len * 4 then None
       else Some (len * 4 + 1))"

definition EVP_EncodeInit :: evp_encode_ctx where
  "EVP_EncodeInit = \<lparr>data_used = 0, ctx_data = replicate CTX_DATA 0, eof_seen = False, error_encountered = False\<rparr>"

text \<open>The characters written, without the final NUL; the second component is the length returned.\<close>

fun encode_block_loop :: "u8 list \<Rightarrow> nat \<Rightarrow> u8 list \<times> nat" where
  "encode_block_loop [] ret = ([], ret)"
| "encode_block_loop (s0 # s1 # s2 # src) ret =
    (let l = push_bit 16 (ucast s0 :: u32) OR push_bit 8 (ucast s1) OR ucast s2;
         quad = [conv_bin2ascii (ucast (drop_bit 18 l)), conv_bin2ascii (ucast (drop_bit 12 l)),
                 conv_bin2ascii (ucast (drop_bit 6 l)), conv_bin2ascii (ucast l)];
         rest = encode_block_loop src (ret + 4)
     in (quad @ fst rest, snd rest))"
| "encode_block_loop [s0, s1] ret =
    (let l = push_bit 16 (ucast s0 :: u32) OR push_bit 8 (ucast s1) in
     ([conv_bin2ascii (ucast (drop_bit 18 l)), conv_bin2ascii (ucast (drop_bit 12 l)),
       conv_bin2ascii (ucast (drop_bit 6 l)), 61], ret + 4))"
| "encode_block_loop [s0] ret =
    (let l = push_bit 16 (ucast s0 :: u32) in
     ([conv_bin2ascii (ucast (drop_bit 18 l)), conv_bin2ascii (ucast (drop_bit 12 l)), 61, 61], ret + 4))"

definition EVP_EncodeBlock :: "u8 list \<Rightarrow> u8 list \<times> nat" where
  "EVP_EncodeBlock src = (case encode_block_loop src 0 of (dst, ret) \<Rightarrow> (dst @ [0], ret))"

text \<open>\<open>EVP_EncodeBlock\<close> to \<open>out\<close>, then the pointer moved past the encoded characters and a newline, and the NUL.\<close>

definition encode_line :: "u8 list \<Rightarrow> u8 list \<Rightarrow> u8 list" where
  "encode_line out d = (case EVP_EncodeBlock d of (dst, encoded) \<Rightarrow> out @ take encoded dst @ [10])"

text \<open>Whether \<open>total\<close> did not overflow, what is left of the input, the output and its length.\<close>

function encode_lines :: "u8 list \<Rightarrow> u8 list \<Rightarrow> nat \<Rightarrow> bool \<times> u8 list \<times> u8 list \<times> nat" where
  "encode_lines src out tot =
    (if length src \<ge> CTX_DATA then
       (let encoded = snd (EVP_EncodeBlock (take CTX_DATA src));
            out = encode_line out (take CTX_DATA src);
            src = drop CTX_DATA src in
        if (tot + encoded + 1) mod SIZE_T < tot then (False, src, out, tot)
        else encode_lines src out (tot + encoded + 1))
     else (True, src, out, tot))"
  by pat_completeness auto
termination by (relation "measure (\<lambda>(src, _, _). length src)") (auto simp: CTX_DATA_def)

text \<open>The bytes written from \<open>out\<close> on, \<open>*out_len\<close> and the context.\<close>

definition memcpy_to :: "u8 list \<Rightarrow> nat \<Rightarrow> u8 list \<Rightarrow> u8 list" where
  "memcpy_to xs i ys = take i xs @ ys @ drop (i + length ys) xs"

definition EVP_EncodeUpdate :: "evp_encode_ctx \<Rightarrow> u8 list \<Rightarrow> u8 list \<times> nat \<times> evp_encode_ctx" where
  "EVP_EncodeUpdate ctx src =
    (if length src = 0 then ([], 0, ctx)
     else if CTX_DATA - data_used ctx > length src then
       ([], 0, ctx\<lparr>ctx_data := memcpy_to (ctx_data ctx) (data_used ctx) src, data_used := data_used ctx + length src\<rparr>)
     else
       let todo = CTX_DATA - data_used ctx;
           fill = data_used ctx \<noteq> 0;
           ctx1 = (if fill then ctx\<lparr>ctx_data := memcpy_to (ctx_data ctx) (data_used ctx) (take todo src), data_used := 0\<rparr>
                  else ctx);
           src1 = (if fill then drop todo src else src);
           out1 = (if fill then encode_line [] (ctx_data ctx1) else []);
           tot1 = (if fill then snd (EVP_EncodeBlock (ctx_data ctx1)) + 1 else 0)
       in (case encode_lines src1 out1 tot1 of (ok, rest, out, tot) \<Rightarrow>
            if \<not> ok then (out @ [0], 0, ctx1)
            else
              let ctx2 = ctx1\<lparr>ctx_data := memcpy_to (ctx_data ctx1) 0 rest, data_used := length rest\<rparr>
              in (if out = [] then [] else out @ [0], if tot > INT_MAX then 0 else tot, ctx2)))"

definition EVP_EncodeFinal :: "evp_encode_ctx \<Rightarrow> u8 list \<times> nat \<times> evp_encode_ctx" where
  "EVP_EncodeFinal ctx =
    (if data_used ctx = 0 then ([], 0, ctx)
     else (case EVP_EncodeBlock (take (data_used ctx) (ctx_data ctx)) of (dst, encoded) \<Rightarrow>
       (take encoded dst @ [10, 0], encoded + 1, ctx\<lparr>data_used := 0\<rparr>)))"

section \<open>Decoding\<close>

definition EVP_DecodedLength :: "nat \<Rightarrow> nat option" where
  "EVP_DecodedLength n = (if n mod 4 \<noteq> 0 then None else Some (n div 4 * 3))"

definition EVP_DecodeInit :: evp_encode_ctx where
  "EVP_DecodeInit = \<lparr>data_used = 0, ctx_data = replicate CTX_DATA 0, eof_seen = False, error_encountered = False\<rparr>"

definition base64_ascii_to_bin :: "u8 \<Rightarrow> u8" where
  "base64_ascii_to_bin a =
    (let is_upper = constant_time_in_range_8 a 65 90;
         is_lower = constant_time_in_range_8 a 97 122;
         is_digit = constant_time_in_range_8 a 48 57;
         is_plus = constant_time_eq_8 (ucast a) 43;
         is_slash = constant_time_eq_8 (ucast a) 47;
         is_equals = constant_time_eq_8 (ucast a) 61;
         ret = 0xff;
         ret = constant_time_select_8 is_upper (a - 65) ret;
         ret = constant_time_select_8 is_lower (a - 97 + 26) ret;
         ret = constant_time_select_8 is_digit (a - 48 + 52) ret;
         ret = constant_time_select_8 is_plus 62 ret;
         ret = constant_time_select_8 is_slash 63 ret
     in constant_time_select_8 is_equals 0 ret)"

text \<open>The bytes a quad stands for, at most three; None for an error.\<close>

definition base64_decode_quad :: "u8 \<Rightarrow> u8 \<Rightarrow> u8 \<Rightarrow> u8 \<Rightarrow> u8 list option" where
  "base64_decode_quad in0 in1 in2 in3 =
    (let a = base64_ascii_to_bin in0; b = base64_ascii_to_bin in1;
         c = base64_ascii_to_bin in2; d = base64_ascii_to_bin in3 in
     if a = 0xff \<or> b = 0xff \<or> c = 0xff \<or> d = 0xff then None
     else
       let v = push_bit 18 (ucast a :: u32) OR push_bit 12 (ucast b) OR push_bit 6 (ucast c) OR ucast d;
           padding_pattern = (of_bool (in0 = 61) * 8 + of_bool (in1 = 61) * 4 + of_bool (in2 = 61) * 2 + of_bool (in3 = 61) :: nat)
       in if padding_pattern = 0 then Some [ucast (drop_bit 16 v), ucast (drop_bit 8 v), ucast v]
          else if padding_pattern = 1 then Some [ucast (drop_bit 16 v), ucast (drop_bit 8 v)]
          else if padding_pattern = 3 then Some [ucast (drop_bit 16 v)]
          else None)"

text \<open>The loop of \<open>EVP_DecodeUpdate\<close>: False after an error; the bytes written and the context.\<close>

fun decode_update_loop :: "u8 list \<Rightarrow> u8 list \<Rightarrow> evp_encode_ctx \<Rightarrow> bool \<times> u8 list \<times> evp_encode_ctx" where
  "decode_update_loop [] out ctx = (True, out, ctx)"
| "decode_update_loop (c # src) out ctx =
    (if c \<in> {32, 9, 13, 10} then decode_update_loop src out ctx
     else if eof_seen ctx then (False, out, ctx\<lparr>error_encountered := True\<rparr>)
     else
       let ctx = ctx\<lparr>ctx_data := memcpy_to (ctx_data ctx) (data_used ctx) [c], data_used := data_used ctx + 1\<rparr> in
       if data_used ctx = 4 then
         (case base64_decode_quad (ctx_data ctx ! 0) (ctx_data ctx ! 1) (ctx_data ctx ! 2) (ctx_data ctx ! 3) of
            None \<Rightarrow> (False, out, ctx\<lparr>error_encountered := True\<rparr>)
          | Some bs \<Rightarrow>
              let ctx = ctx\<lparr>data_used := 0\<rparr>;
                  ctx = (if length bs < 3 then ctx\<lparr>eof_seen := True\<rparr> else ctx)
              in decode_update_loop src (out @ bs) ctx)
       else decode_update_loop src out ctx)"

text \<open>The result, the bytes written, \<open>*out_len\<close> and the context.\<close>

definition EVP_DecodeUpdate :: "evp_encode_ctx \<Rightarrow> u8 list \<Rightarrow> int \<times> u8 list \<times> nat \<times> evp_encode_ctx" where
  "EVP_DecodeUpdate ctx src =
    (if error_encountered ctx then (-1, [], 0, ctx)
     else (case decode_update_loop src [] ctx of (ok, out, ctx) \<Rightarrow>
       if \<not> ok then (-1, out, 0, ctx)
       else if length out > INT_MAX then (-1, out, 0, ctx\<lparr>error_encountered := True\<rparr>)
       else if eof_seen ctx then (0, out, length out, ctx)
       else (1, out, length out, ctx)))"

definition EVP_DecodeFinal :: "evp_encode_ctx \<Rightarrow> int \<times> nat" where
  "EVP_DecodeFinal ctx = (if error_encountered ctx \<or> data_used ctx \<noteq> 0 then (-1, 0) else (1, 0))"

text \<open>The loop of \<open>EVP_DecodeBase64\<close> from a multiple of four on; False after an error.\<close>

fun decode_loop :: "u8 list \<Rightarrow> u8 list \<Rightarrow> bool \<times> u8 list" where
  "decode_loop (a # b # c # d # src) out =
    (case base64_decode_quad a b c d of
       None \<Rightarrow> (False, out)
     | Some bs \<Rightarrow>
         if length bs \<noteq> 3 \<and> src \<noteq> [] then (False, out @ bs)
         else decode_loop src (out @ bs))"
| "decode_loop _ out = (True, out)"

text \<open>Whether it succeeds, the bytes written and \<open>*out_len\<close>.\<close>

definition EVP_DecodeBase64 :: "nat \<Rightarrow> u8 list \<Rightarrow> bool \<times> u8 list \<times> nat" where
  "EVP_DecodeBase64 max_out src =
    (if length src mod 4 \<noteq> 0 then (False, [], 0)
     else (case EVP_DecodedLength (length src) of
       None \<Rightarrow> (False, [], 0)
     | Some max_len \<Rightarrow>
         if max_out < max_len then (False, [], 0)
         else (case decode_loop src [] of (ok, out) \<Rightarrow>
           if ok then (True, out, length out) else (False, out, 0))))"

definition trim_left :: "u8 list \<Rightarrow> u8 list" where
  "trim_left src = dropWhile (\<lambda>c. c = 32 \<or> c = 9) src"

definition trim_right :: "u8 list \<Rightarrow> u8 list" where
  "trim_right src = rev (dropWhile (\<lambda>c. c \<in> {32, 9, 13, 10}) (rev src))"

text \<open>The result, -1 for an error, and the bytes written, padded with NULs to a multiple of three.\<close>

definition EVP_DecodeBlock :: "u8 list \<Rightarrow> int \<times> u8 list" where
  "EVP_DecodeBlock src =
    (let src = trim_right (trim_left src) in
     (case EVP_DecodedLength (length src) of
        None \<Rightarrow> (-1, [])
      | Some dst_len \<Rightarrow>
          if dst_len > INT_MAX then (-1, [])
          else (case EVP_DecodeBase64 dst_len src of (ok, out, n) \<Rightarrow>
            if \<not> ok then (-1, out)
            else let pad = (3 - n mod 3) mod 3 in (int (n + pad), out @ replicate pad 0))))"

end
