(* ===== verification/Bssl_Base64_Props.thy ===== *)
theory Bssl_Base64_Props
  imports Bssl_Base64
begin

text \<open>
  The branch-free selections are the conditionals they stand for; the alphabet, quads, blocks and
  streams decode to what was encoded, however a stream is cut into pieces.
\<close>

section \<open>Selections\<close>

lemma size_64: "size (a :: u64) = 64" and size_8: "size (b :: u8) = 8"
  by (simp_all add: word_size)

lemma bit63: "bit (a :: u64) 63 \<longleftrightarrow> 2 ^ 63 \<le> unat a"
proof -
  have "unat a < 2 * 2 ^ 63" by simp
  then have "unat a div 2 ^ 63 < 2" by (rule less_mult_imp_div_less)
  then have "odd (unat a div 2 ^ 63) \<longleftrightarrow> unat a div 2 ^ 63 \<noteq> 0" by (auto simp: less_2_cases_iff)
  also have "\<dots> \<longleftrightarrow> 2 ^ 63 \<le> unat a" by (simp add: div_eq_0_iff not_less)
  finally show ?thesis using bit_unsigned_iff [of a 63, where 'a = nat] by (simp add: bit_iff_odd [of "unat a"])
qed

lemma msb_mask: "constant_time_msb_w a = (if bit a 63 then - 1 else 0)"
proof -
  have "unat a < 2 * 2 ^ 63" by simp
  then have "unat a div 2 ^ 63 < 2" by (rule less_mult_imp_div_less)
  then have "unat (drop_bit 63 a) = (if 2 ^ 63 \<le> unat a then 1 else 0)"
    unfolding unat_drop_bit by (cases "2 ^ 63 \<le> unat a") (auto simp: less_2_cases_iff div_eq_0_iff)
  then have "drop_bit 63 a = (if bit a 63 then 1 else 0)" unfolding bit63
    by (auto simp: word_unat_eq_iff)
  then show ?thesis by (simp add: constant_time_msb_w_def)
qed

lemma nat_msb:
  fixes A B M :: nat
  assumes "A < 2 * M" "B < 2 * M" "(M \<le> A) = (M \<le> B)"
  shows "M \<le> (if B \<le> A then A - B else 2 * M + A - B) \<longleftrightarrow> A < B"
  using assms by (cases "M \<le> A"; cases "B \<le> A") auto

lemma bit63_sub: "bit (a :: u64) 63 = bit b 63 \<Longrightarrow> bit (a - b) 63 \<longleftrightarrow> a < b"
proof -
  assume h: "bit a 63 = bit b 63"
  have s: "unat (a - b) = (if unat b \<le> unat a then unat a - unat b else 2 * 2 ^ 63 + unat a - unat b)"
    using unat_sub_if_size [of a b] by (simp add: size_64 add.commute)
  show ?thesis using nat_msb [of "unat a" "2 ^ 63" "unat b"] h unfolding bit63 s word_less_nat_alt by simp
qed

lemma lt_w: "constant_time_lt_w a b = (if a < b then - 1 else 0)"
proof -
  have "bit (a XOR ((a XOR b) OR ((a - b) XOR a))) 63 \<longleftrightarrow> (if bit a 63 = bit b 63 then bit (a - b) 63 else bit b 63)"
    by (auto simp: bit_xor_iff bit_or_iff)
  also have "\<dots> \<longleftrightarrow> a < b"
    using bit63_sub [of a b] by (auto simp: bit63 word_less_nat_alt)
  finally show ?thesis by (simp add: constant_time_lt_w_def msb_mask)
qed

lemma is_zero_w: "constant_time_is_zero_w a = (if a = 0 then - 1 else 0)"
proof (cases "a = 0")
  case True
  then show ?thesis by (simp add: constant_time_is_zero_w_def msb_mask)
next
  case False
  then have "unat (a - 1) = unat a - 1" by (simp add: unat_minus_one)
  then have "bit (a - 1) 63 \<longrightarrow> bit a 63" unfolding bit63 by linarith
  then have "\<not> bit (NOT a AND (a - 1)) 63" by (auto simp: bit_and_iff bit_not_iff)
  then show ?thesis using False by (simp add: constant_time_is_zero_w_def msb_mask)
qed

lemma eq_w: "constant_time_eq_w a b = (if a = b then - 1 else 0)"
  by (simp add: constant_time_eq_w_def is_zero_w bit_eq_iff [of a b] bit_eq_iff [of "a XOR b"] bit_xor_iff)

lemma ucast_minus_one: "ucast (- 1 :: u64) = (- 1 :: u8)"
  by (rule bit_word_eqI) (simp add: bit_simps)

lemma eq_8: "constant_time_eq_8 a b = (if a = b then - 1 else 0)"
  by (simp add: constant_time_eq_8_def eq_w ucast_minus_one)

lemma select_8: "constant_time_select_8 (if c then - 1 else 0) a b = (if c then a else b)"
proof (cases c)
  case True
  then show ?thesis unfolding constant_time_select_8_def constant_time_select_w_def
    by (intro bit_word_eqI) (simp add: bit_simps)
next
  case False
  then show ?thesis unfolding constant_time_select_8_def constant_time_select_w_def
    by (intro bit_word_eqI) (simp add: bit_simps)
qed

lemma unat_wide: "unat (ucast (a :: u8) :: u64) = unat a"
  by (rule unat_ucast_8_64)

lemma lt_args_8: "constant_time_lt_args_8 a b = (if a < b then - 1 else 0)"
proof -
  have l: "unat a < 256" "unat b < 256" by simp_all
  have u: "unat (ucast a :: u64) = unat a" "unat (ucast b :: u64) = unat b" by (simp_all only: unat_wide)
  have "bit (ucast a - ucast b :: u64) 63 \<longleftrightarrow> (ucast a :: u64) < ucast b"
  proof (rule bit63_sub)
    have "\<not> bit (ucast a :: u64) 63" unfolding bit63 u not_le by (rule less_le_trans [OF unat_lt_u8]) simp
    moreover have "\<not> bit (ucast b :: u64) 63" unfolding bit63 u not_le by (rule less_le_trans [OF unat_lt_u8]) simp
    ultimately show "bit (ucast a :: u64) 63 = bit (ucast b :: u64) 63" by simp
  qed
  then have "bit (ucast a - ucast b :: u64) 63 \<longleftrightarrow> a < b" by (simp add: word_less_nat_alt u)
  then show ?thesis by (simp add: constant_time_lt_args_8_def msb_mask ucast_minus_one)
qed

lemma in_range_8: "lo \<le> hi \<Longrightarrow> hi < 255 \<Longrightarrow> constant_time_in_range_8 a lo hi = (if lo \<le> a \<and> a \<le> hi then - 1 else 0)"
proof -
  assume h: "lo \<le> hi" "hi < 255"
  have l: "unat a < 256" "unat lo < 256" "unat hi < 255" "unat lo \<le> unat hi"
    using h by (simp_all add: word_less_nat_alt word_le_nat_alt)
  have s: "unat (a - lo) = (if unat lo \<le> unat a then unat a - unat lo else 256 + unat a - unat lo)"
    using unat_sub_if_size [of a lo] by (simp add: size_8 add.commute [of 256])
  have "unat (hi - lo) = unat hi - unat lo" using h by (simp add: unat_sub)
  then have t: "unat (hi - lo + 1) = unat hi - unat lo + 1" using l by (simp add: unat_word_ariths)
  have "a - lo < hi - lo + 1 \<longleftrightarrow> lo \<le> a \<and> a \<le> hi"
    unfolding word_less_nat_alt word_le_nat_alt s t using l by auto
  then show ?thesis by (simp add: constant_time_in_range_8_def lt_args_8)
qed

section \<open>The alphabet\<close>

lemma bin2ascii: "conv_bin2ascii x = (let a = x AND 63 in
    if a < 26 then a + 65 else if a < 52 then a + 71 else if a < 62 then a - 4 else if a = 62 then 43 else 47)"
proof -
  have "ucast (x AND 63) = (62 :: u64) \<longleftrightarrow> x AND 63 = 62"
    by (simp add: word_unat_eq_iff unat_wide)
  then show ?thesis by (simp add: conv_bin2ascii_def Let_def eq_8 select_8 lt_args_8)
qed

lemma ascii2bin: "base64_ascii_to_bin c =
    (if c = 61 then 0 else if c = 47 then 63 else if c = 43 then 62 else if 48 \<le> c \<and> c \<le> 57 then c + 4
     else if 97 \<le> c \<and> c \<le> 122 then c - 71 else if 65 \<le> c \<and> c \<le> 90 then c - 65 else 0xff)"
proof -
  have e: "ucast c = (43 :: u64) \<longleftrightarrow> c = 43" "ucast c = (47 :: u64) \<longleftrightarrow> c = 47" "ucast c = (61 :: u64) \<longleftrightarrow> c = 61"
    by (simp_all add: word_unat_eq_iff unat_wide)
  show ?thesis
    by (simp add: base64_ascii_to_bin_def Let_def eq_8 select_8 in_range_8 e)
qed

lemma small_words:
  assumes "\<forall>n \<in> set [0..<64]. P (of_nat n :: u8)"
  shows "P (x AND 63)"
proof -
  have "unat (x AND 63) = unat x mod 64"
    using unat_take_bit [of 6 x] by (simp add: take_bit_eq_mask mask_eq_exp_minus_1)
  then have "unat (x AND 63) < 64" by simp
  then have "unat (x AND 63) \<in> set [0..<64]" by simp
  with assms have "P (of_nat (unat (x AND 63)))" by blast
  then show ?thesis by simp
qed

lemma alphabet_roundtrip: "base64_ascii_to_bin (conv_bin2ascii x) = x AND 63"
proof -
  have "base64_ascii_to_bin (conv_bin2ascii (x AND 63)) = (x AND 63) AND 63"
    by (rule small_words) (simp add: upt_conv_Cons bin2ascii ascii2bin del: One_nat_def)
  then show ?thesis by (simp add: bin2ascii and.assoc)
qed

lemma not_equals: "conv_bin2ascii x \<noteq> 61"
proof -
  have "conv_bin2ascii (x AND 63) \<noteq> 61" 
    by (rule small_words) (simp add: upt_conv_Cons bin2ascii)
  then show ?thesis by (simp add: bin2ascii and.assoc)
qed

section \<open>Quads\<close>

lemma six_bits: "x AND 63 \<noteq> (255 :: u8)"
proof
  assume "x AND 63 = 255"
  then have "bit (x AND 63) 7 \<longleftrightarrow> bit (255 :: u8) 7" by simp
  then show False by (simp add: bit_and_iff)
qed

lemma byte_eqI:
  assumes "bit a 0 = bit b 0" "bit a 1 = bit b 1" "bit a 2 = bit b 2" "bit a 3 = bit b 3"
    "bit a 4 = bit b 4" "bit a 5 = bit b 5" "bit a 6 = bit b 6" "bit a 7 = bit b 7"
  shows "(a :: u8) = b"
proof (rule bit_word_eqI)
  fix n assume "n < LENGTH(8)"
  then have "n = 0 \<or> n = 1 \<or> n = 2 \<or> n = 3 \<or> n = 4 \<or> n = 5 \<or> n = 6 \<or> n = 7" by auto
  then show "bit a n = bit b n" using assms by blast
qed

lemma no_high_bit: "8 \<le> n \<Longrightarrow> \<not> bit (s :: u8) n"
  by (auto dest: bit_imp_le_length)

lemma quad_full:
  fixes s0 s1 s2 :: u8
  defines "l \<equiv> push_bit 16 (ucast s0 :: u32) OR push_bit 8 (ucast s1) OR ucast s2"
  shows "base64_decode_quad (conv_bin2ascii (ucast (drop_bit 18 l))) (conv_bin2ascii (ucast (drop_bit 12 l)))
    (conv_bin2ascii (ucast (drop_bit 6 l))) (conv_bin2ascii (ucast l)) = Some [s0, s1, s2]"
proof -
  define v where "v = push_bit 18 (ucast ((ucast (drop_bit 18 l) :: u8) AND 63) :: u32) OR
    push_bit 12 (ucast ((ucast (drop_bit 12 l) :: u8) AND 63)) OR
    push_bit 6 (ucast ((ucast (drop_bit 6 l) :: u8) AND 63)) OR ucast ((ucast l :: u8) AND 63)"
  have "ucast (drop_bit 16 v) = s0" "ucast (drop_bit 8 v) = s1" "ucast v = s2"
    by (rule byte_eqI; simp add: v_def l_def bit_simps no_high_bit)+
  then show ?thesis
    by (simp add: base64_decode_quad_def Let_def alphabet_roundtrip six_bits not_equals flip: v_def)
qed

lemma quad_two:
  fixes s0 s1 :: u8
  defines "l \<equiv> push_bit 16 (ucast s0 :: u32) OR push_bit 8 (ucast s1)"
  shows "base64_decode_quad (conv_bin2ascii (ucast (drop_bit 18 l))) (conv_bin2ascii (ucast (drop_bit 12 l)))
    (conv_bin2ascii (ucast (drop_bit 6 l))) 61 = Some [s0, s1]"
proof -
  define v where "v = push_bit 18 (ucast ((ucast (drop_bit 18 l) :: u8) AND 63) :: u32) OR
    push_bit 12 (ucast ((ucast (drop_bit 12 l) :: u8) AND 63)) OR
    push_bit 6 (ucast ((ucast (drop_bit 6 l) :: u8) AND 63))"
  have "ucast (drop_bit 16 v) = s0" "ucast (drop_bit 8 v) = s1"
    by (rule byte_eqI; simp add: v_def l_def bit_simps no_high_bit)+
  then show ?thesis
    by (simp add: base64_decode_quad_def Let_def alphabet_roundtrip six_bits not_equals ascii2bin [of 61] flip: v_def)
qed

lemma quad_one:
  fixes s0 :: u8
  defines "l \<equiv> push_bit 16 (ucast s0 :: u32)"
  shows "base64_decode_quad (conv_bin2ascii (ucast (drop_bit 18 l))) (conv_bin2ascii (ucast (drop_bit 12 l))) 61 61 = Some [s0]"
proof -
  define v where "v = push_bit 18 (ucast ((ucast (drop_bit 18 l) :: u8) AND 63) :: u32) OR
    push_bit 12 (ucast ((ucast (drop_bit 12 l) :: u8) AND 63))"
  have "ucast (drop_bit 16 v) = s0"
    by (rule byte_eqI; simp add: v_def l_def bit_simps no_high_bit)
  then show ?thesis
    by (simp add: base64_decode_quad_def Let_def alphabet_roundtrip six_bits not_equals ascii2bin [of 61] flip: v_def)
qed

section \<open>Blocks\<close>

definition b64 :: "u8 list \<Rightarrow> u8 list" where "b64 src = fst (encode_block_loop src 0)"

lemma encode_loop_any:
  "fst (encode_block_loop src ret) = fst (encode_block_loop src 0) \<and>
     snd (encode_block_loop src ret) = ret + length (fst (encode_block_loop src 0))"
proof (induction "length src" arbitrary: src ret rule: less_induct)
  case less
  consider "src = []" | s0 where "src = [s0]" | s0 s1 where "src = [s0, s1]" | s0 s1 s2 rest where "src = s0 # s1 # s2 # rest"
    by (metis list.exhaust)
  then show ?case
  proof cases
    case (4 s0 s1 s2 rest)
    then show ?thesis using less [of rest "ret + 4"] less [of rest 4] by (simp add: Let_def)
  qed (simp_all add: Let_def)
qed

lemma encode_loop: "encode_block_loop src ret = (b64 src, ret + length (b64 src))"
  using encode_loop_any [of src] by (simp add: prod_eq_iff b64_def)

lemma encode_block: "EVP_EncodeBlock src = (b64 src @ [0], length (b64 src))"
  by (simp add: EVP_EncodeBlock_def encode_loop)

lemma b64_Nil [simp]: "b64 [] = []"
  by (simp add: b64_def)

definition join3 :: "u8 \<Rightarrow> u8 \<Rightarrow> u8 \<Rightarrow> u32" where
  "join3 s0 s1 s2 = push_bit 16 (ucast s0) OR push_bit 8 (ucast s1) OR ucast s2"

lemma b64_step: "b64 (s0 # s1 # s2 # rest) =
    conv_bin2ascii (ucast (drop_bit 18 (join3 s0 s1 s2))) # conv_bin2ascii (ucast (drop_bit 12 (join3 s0 s1 s2))) #
    conv_bin2ascii (ucast (drop_bit 6 (join3 s0 s1 s2))) # conv_bin2ascii (ucast (join3 s0 s1 s2)) # b64 rest"
  using encode_loop [of rest 4] by (simp add: b64_def join3_def Let_def)

text \<open>A block is a quad and the block of what follows.\<close>

lemma b64_cases:
  assumes "src \<noteq> []"
  obtains a b c d where "b64 src = a # b # c # d # b64 (drop 3 src)" "base64_decode_quad a b c d = Some (take 3 src)"
    "{a, b, c, d} \<inter> {32, 9, 13, 10} = {}"
proof -
  have ws: "conv_bin2ascii x \<notin> {32, 9, 13, 10}" for x
  proof -
    have "conv_bin2ascii (x AND 63) \<notin> {32, 9, 13, 10}"
      by (rule small_words) (simp add: upt_conv_Cons bin2ascii)
    then show ?thesis by (simp add: bin2ascii and.assoc)
  qed
  consider s0 where "src = [s0]" | s0 s1 where "src = [s0, s1]" | s0 s1 s2 rest where "src = s0 # s1 # s2 # rest"
    using assms by (metis list.exhaust)
  then show thesis
  proof cases
    case (1 s0)
    show thesis by (rule that) (use 1 quad_one [of s0] ws in \<open>auto simp: b64_def Let_def\<close>)
  next
    case (2 s0 s1)
    show thesis by (rule that) (use 2 quad_two [of s0 s1] ws in \<open>auto simp: b64_def Let_def\<close>)
  next
    case (3 s0 s1 s2 rest)
    show thesis
    proof (rule that)
      show "b64 src = conv_bin2ascii (ucast (drop_bit 18 (join3 s0 s1 s2))) #
          conv_bin2ascii (ucast (drop_bit 12 (join3 s0 s1 s2))) # conv_bin2ascii (ucast (drop_bit 6 (join3 s0 s1 s2))) #
          conv_bin2ascii (ucast (join3 s0 s1 s2)) # b64 (drop 3 src)"
        using 3 b64_step by simp
      show "base64_decode_quad (conv_bin2ascii (ucast (drop_bit 18 (join3 s0 s1 s2))))
          (conv_bin2ascii (ucast (drop_bit 12 (join3 s0 s1 s2)))) (conv_bin2ascii (ucast (drop_bit 6 (join3 s0 s1 s2))))
          (conv_bin2ascii (ucast (join3 s0 s1 s2))) = Some (take 3 src)"
        unfolding 3 join3_def using quad_full [of s0 s1 s2] by simp
    qed (use ws in simp)
  qed
qed

lemma length_b64: "length (b64 src) = 4 * ((length src + 2) div 3)"
proof (induction "length src" arbitrary: src rule: less_induct)
  case less
  show ?case
  proof (cases "src = []")
    case False
    then obtain a b c d where q: "b64 src = a # b # c # d # b64 (drop 3 src)" by (rule b64_cases)
    have "length (drop 3 src) < length src" using False by simp
    from less(1) [OF this] q have "length (b64 src) = 4 + 4 * ((length src - 3 + 2) div 3)" by simp
    moreover have "(length src - 3 + 2) div 3 + 1 = (length src + 2) div 3"
    proof (cases "length src \<ge> 3")
      case True
      then obtain k where "length src = 3 + k" by (auto simp: le_iff_add)
      then show ?thesis using div_add_self2 [of 3 "k + 2"] by (simp add: add.commute)
    next
      case short: False
      moreover have "0 < length src" using False by simp
      ultimately have "length src = 1 \<or> length src = 2" by linarith
      then show ?thesis by auto
    qed
    ultimately show ?thesis by simp
  qed simp
qed

lemma decode_b64: "decode_loop (b64 src) out = (True, out @ src)"
proof (induction "length src" arbitrary: src out rule: less_induct)
  case less
  show ?case
  proof (cases "src = []")
    case False
    then obtain a b c d where q: "b64 src = a # b # c # d # b64 (drop 3 src)" "base64_decode_quad a b c d = Some (take 3 src)"
      by (rule b64_cases)
    have short: "b64 (drop 3 src) = []" if "length src < 3" using that by simp
    have "length (drop 3 src) < length src" using False by simp
    from less(1) [OF this, of "out @ take 3 src"] q show ?thesis
      using short by (cases "length src < 3") (auto simp: min_def)
  qed simp
qed

section \<open>Lines\<close>

text \<open>The full lines of a text, what is left of it, and the text with its last line.\<close>

function full_lines :: "u8 list \<Rightarrow> u8 list" where
  "full_lines xs = (if length xs \<ge> CTX_DATA then b64 (take CTX_DATA xs) @ [10] @ full_lines (drop CTX_DATA xs) else [])"
  by pat_completeness auto
termination by (relation "measure length") (auto simp: CTX_DATA_def)

function left_over :: "u8 list \<Rightarrow> u8 list" where
  "left_over xs = (if length xs \<ge> CTX_DATA then left_over (drop CTX_DATA xs) else xs)"
  by pat_completeness auto
termination by (relation "measure length") (auto simp: CTX_DATA_def)

declare full_lines.simps [simp del] left_over.simps [simp del] encode_lines.simps [simp del]

definition last_line :: "u8 list \<Rightarrow> u8 list" where
  "last_line p = (if p = [] then [] else b64 p @ [10])"

lemma left_over_length: "length (left_over xs) < CTX_DATA"
  by (induction xs rule: left_over.induct) (subst left_over.simps, simp)

lemma lines_short: "length xs < CTX_DATA \<Longrightarrow> full_lines xs = []" "length xs < CTX_DATA \<Longrightarrow> left_over xs = xs"
  by (simp_all add: full_lines.simps [of xs] left_over.simps [of xs])

lemma lines_append:
  "full_lines (xs @ ys) = full_lines xs @ full_lines (left_over xs @ ys) \<and> left_over (xs @ ys) = left_over (left_over xs @ ys)"
proof (induction xs rule: full_lines.induct)
  case (1 xs)
  show ?case
  proof (cases "length xs \<ge> CTX_DATA")
    case True
    then show ?thesis using 1
      by (simp add: full_lines.simps [of "xs @ ys"] full_lines.simps [of xs] left_over.simps [of "xs @ ys"] left_over.simps [of xs])
  next
    case False
    then show ?thesis by (simp add: lines_short)
  qed
qed

lemma length_full_lines: "length (full_lines xs) = 65 * (length xs div CTX_DATA)"
proof (induction xs rule: full_lines.induct)
  case (1 xs)
  show ?case
  proof (cases "length xs \<ge> CTX_DATA")
    case True
    have "length xs div CTX_DATA = (length xs - CTX_DATA) div CTX_DATA + 1"
      using True by (simp add: le_div_geq CTX_DATA_def)
    moreover have "length (b64 (take CTX_DATA xs)) = 64" using True by (simp add: length_b64 CTX_DATA_def)
    ultimately show ?thesis using 1 True by (simp add: full_lines.simps [of xs])
  next
    case False
    then show ?thesis by (simp add: lines_short not_le)
  qed
qed

lemma encode_line: "encode_line out xs = out @ b64 xs @ [10]"
  by (simp add: encode_line_def encode_block)

lemma encode_lines_spec:
  assumes "tot + length (full_lines src) < SIZE_T"
  shows "encode_lines src out tot = (True, left_over src, out @ full_lines src, tot + length (full_lines src))"
  using assms
proof (induction src out tot rule: encode_lines.induct)
  case (1 src out tot)
  show ?case
  proof (cases "length src \<ge> CTX_DATA")
    case True
    have l: "length (b64 (take CTX_DATA src)) = 64" using True by (simp add: length_b64 CTX_DATA_def)
    have f: "full_lines src = b64 (take CTX_DATA src) @ [10] @ full_lines (drop CTX_DATA src)" "left_over src = left_over (drop CTX_DATA src)"
      using True by (simp_all add: full_lines.simps [of src] left_over.simps [of src])
    have b: "tot + 64 + 1 + length (full_lines (drop CTX_DATA src)) < SIZE_T" using 1(2) l f by simp
    then have "\<not> (tot + 64 + 1) mod SIZE_T < tot" by simp
    with 1(1) [OF True refl refl refl] b l True f show ?thesis
      by (subst encode_lines.simps) (simp add: encode_block encode_line)
  next
    case False
    then show ?thesis by (simp add: encode_lines.simps [of src] lines_short)
  qed
qed

section \<open>Encoding in pieces\<close>

definition enc_ok :: "evp_encode_ctx \<Rightarrow> u8 list \<Rightarrow> bool" where
  "enc_ok ctx p \<longleftrightarrow> length (ctx_data ctx) = CTX_DATA \<and> data_used ctx = length p \<and> length p < CTX_DATA \<and>
     take (length p) (ctx_data ctx) = p"

lemma memcpy_to_spec:
  "i + length ys \<le> length xs \<Longrightarrow> length (memcpy_to xs i ys) = length xs \<and> take (i + length ys) (memcpy_to xs i ys) = take i xs @ ys"
  by (simp add: memcpy_to_def)

lemma encode_update:
  assumes ok: "enc_ok ctx p" and short: "length src \<le> 2 ^ 30"
  shows "\<exists>out n ctx'. EVP_EncodeUpdate ctx src = (out, n, ctx') \<and> take n out = full_lines (p @ src) \<and> n \<le> length out \<and>
    enc_ok ctx' (left_over (p @ src))"
proof -
  have d: "length (ctx_data ctx) = CTX_DATA" "data_used ctx = length p" "length p < CTX_DATA" "take (length p) (ctx_data ctx) = p"
    using ok by (simp_all add: enc_ok_def)
  consider "src = []" | "src \<noteq> []" "CTX_DATA - length p > length src" | "src \<noteq> []" "CTX_DATA - length p \<le> length src" by linarith
  then show ?thesis
  proof cases
    case 1
    then show ?thesis using ok d lines_short [of p] by (simp add: EVP_EncodeUpdate_def)
  next
    case 2
    then have l: "length p + length src < CTX_DATA" by simp
    note m = memcpy_to_spec [of "length p" src "ctx_data ctx"]
    have "enc_ok (ctx\<lparr>ctx_data := memcpy_to (ctx_data ctx) (length p) src, data_used := length p + length src\<rparr>) (p @ src)"
      using m d l by (simp add: enc_ok_def)
    then show ?thesis using 2 d l lines_short [of "p @ src"] by (simp add: EVP_EncodeUpdate_def)
  next
    case 3
    define todo where "todo = CTX_DATA - length p"
    define ctx1 where "ctx1 = (if length p \<noteq> 0 then ctx\<lparr>ctx_data := memcpy_to (ctx_data ctx) (length p) (take todo src), data_used := 0\<rparr> else ctx)"
    define src1 where "src1 = (if length p \<noteq> 0 then drop todo src else src)"
    define out1 where "out1 = (if length p \<noteq> 0 then b64 (ctx_data ctx1) @ [10] else [])"
    have t: "length (take todo src) = todo" "length p + todo = CTX_DATA" using 3 d by (simp_all add: todo_def)
    have data1: "length p \<noteq> 0 \<Longrightarrow> ctx_data ctx1 = p @ take todo src" "length (ctx_data ctx1) = CTX_DATA"
      using memcpy_to_spec [of "length p" "take todo src" "ctx_data ctx"] t d by (simp_all add: ctx1_def memcpy_to_def)
    have whole: "full_lines (p @ src) = out1 @ full_lines src1" "left_over (p @ src) = left_over src1"
    proof (atomize (full), cases "p = []")
      case True
      then show "full_lines (p @ src) = out1 @ full_lines src1 \<and> left_over (p @ src) = left_over src1"
        by (simp add: out1_def src1_def)
    next
      case False
      have "take CTX_DATA (p @ src) = p @ take todo src" "drop CTX_DATA (p @ src) = drop todo src"
        using t d by (simp_all add: todo_def)
      moreover have "length (p @ src) \<ge> CTX_DATA" using 3 d by simp
      ultimately show "full_lines (p @ src) = out1 @ full_lines src1 \<and> left_over (p @ src) = left_over src1"
        using data1(1) False by (simp_all add: full_lines.simps [of "p @ src"] left_over.simps [of "p @ src"] out1_def src1_def)
    qed
    have bound: "length (full_lines (p @ src)) \<le> 1500000000"
    proof -
      have "length (p @ src) div CTX_DATA \<le> (48 + 2 ^ 30) div 48"
        using short d by (simp add: CTX_DATA_def div_le_mono)
      then show ?thesis by (simp add: length_full_lines)
    qed
    have sum: "length out1 + length (full_lines src1) = length (full_lines (p @ src))" using whole(1) by simp
    have lines: "encode_lines src1 out1 (length out1) = (True, left_over src1, out1 @ full_lines src1, length out1 + length (full_lines src1))"
      by (rule encode_lines_spec) (use sum bound in \<open>simp add: SIZE_T_def\<close>)
    define ctx2 where "ctx2 = ctx1\<lparr>ctx_data := memcpy_to (ctx_data ctx1) 0 (left_over src1), data_used := length (left_over src1)\<rparr>"
    have small: "\<not> length (full_lines (p @ src)) > INT_MAX" using bound by (simp add: INT_MAX_def)
    have tot1: "(if length p \<noteq> 0 then snd (EVP_EncodeBlock (ctx_data ctx1)) + 1 else 0) = length out1"
      by (simp add: encode_block out1_def)
    have upd: "EVP_EncodeUpdate ctx src =
        (if out1 @ full_lines src1 = [] then [] else (out1 @ full_lines src1) @ [0], length (full_lines (p @ src)), ctx2)"
    proof (cases "p = []")
      case True
      then show ?thesis using 3 lines small sum
        by (simp add: EVP_EncodeUpdate_def d ctx2_def ctx1_def src1_def out1_def)
    next
      case False
      have c: "ctx1 = ctx\<lparr>ctx_data := memcpy_to (ctx_data ctx) (length p) (take todo src), data_used := 0\<rparr>"
        "src1 = drop todo src" "out1 = b64 (ctx_data ctx1) @ [10]" using False by (simp_all add: ctx1_def src1_def out1_def)
      have "\<not> CTX_DATA - data_used ctx > length src" using 3 d by simp
      then show ?thesis using False 3(1) lines small sum unfolding EVP_EncodeUpdate_def Let_def d(2)
        by (simp add: encode_block encode_line flip: todo_def c(1,2)) (simp add: c(3) ctx2_def, simp add: c(1) todo_def)
    qed
    have "enc_ok ctx2 (left_over (p @ src))"
      using memcpy_to_spec [of 0 "left_over src1" "ctx_data ctx1"] left_over_length [of src1] data1(2)
      by (simp add: enc_ok_def ctx2_def whole(2))
    then show ?thesis unfolding upd using whole(1) by auto
  qed
qed

text \<open>A text encoded piece by piece, and decoded piece by piece.\<close>

fun encode_pieces :: "evp_encode_ctx \<Rightarrow> u8 list list \<Rightarrow> u8 list" where
  "encode_pieces ctx [] = (case EVP_EncodeFinal ctx of (out, n, _) \<Rightarrow> take n out)"
| "encode_pieces ctx (c # cs) = (case EVP_EncodeUpdate ctx c of (out, n, ctx') \<Rightarrow> take n out @ encode_pieces ctx' cs)"

fun decode_pieces :: "evp_encode_ctx \<Rightarrow> u8 list list \<Rightarrow> u8 list option" where
  "decode_pieces ctx [] = (if fst (EVP_DecodeFinal ctx) = 1 then Some [] else None)"
| "decode_pieces ctx (c # cs) = (case EVP_DecodeUpdate ctx c of (r, out, n, ctx') \<Rightarrow>
     if r = -1 then None else map_option (\<lambda>ys. take n out @ ys) (decode_pieces ctx' cs))"

lemma encode_pieces_spec:
  "enc_ok ctx p \<Longrightarrow> list_all (\<lambda>c. length c \<le> 2 ^ 30) cs \<Longrightarrow>
   encode_pieces ctx cs = full_lines (p @ concat cs) @ last_line (left_over (p @ concat cs))"
proof (induction cs arbitrary: ctx p)
  case Nil
  then have "length p < CTX_DATA" "take (length p) (ctx_data ctx) = p" "data_used ctx = length p" by (simp_all add: enc_ok_def)
  then show ?case using lines_short [of p]
    by (auto simp: EVP_EncodeFinal_def last_line_def encode_block)
next
  case (Cons c cs)
  then obtain out n ctx' where u: "EVP_EncodeUpdate ctx c = (out, n, ctx')" "take n out = full_lines (p @ c)"
    "enc_ok ctx' (left_over (p @ c))"
    using encode_update [of ctx p c] by auto
  have "list_all (\<lambda>c. length c \<le> 2 ^ 30) cs" using Cons.prems(2) by simp
  from Cons.IH [OF u(3) this] show ?case using lines_append [of "p @ c" "concat cs"] by (simp add: u)
qed

lemma init_ok: "enc_ok EVP_EncodeInit []"
  by (simp add: enc_ok_def EVP_EncodeInit_def CTX_DATA_def)

section \<open>Decoding in pieces\<close>

lemma loop_append:
  "decode_update_loop (xs @ ys) out ctx = (case decode_update_loop xs out ctx of (ok, out', ctx') \<Rightarrow>
     if ok then decode_update_loop ys out' ctx' else (False, out', ctx'))"
proof (induction xs out ctx rule: decode_update_loop.induct)
  case (2 c src out ctx)
  then show ?case by (auto simp: Let_def split: option.split)
qed simp

lemma loop_prefix:
  "decode_update_loop xs (pre @ out) ctx = (case decode_update_loop xs out ctx of (ok, out', ctx') \<Rightarrow> (ok, pre @ out', ctx'))"
proof (induction xs out ctx rule: decode_update_loop.induct)
  case (2 c src out ctx)
  then show ?case by (auto simp: Let_def split: option.split)
qed simp

lemma loop_error: "decode_update_loop xs out ctx = (True, out', ctx') \<Longrightarrow> error_encountered ctx' = error_encountered ctx"
proof (induction xs out ctx rule: decode_update_loop.induct)
  case (2 c src out ctx)
  then show ?case by (auto simp: Let_def split: option.splits if_splits)
qed simp

lemma decode_pieces_spec:
  assumes "decode_update_loop (concat cs) [] ctx = (True, out, ctx')" "length out \<le> INT_MAX"
    "\<not> error_encountered ctx" "data_used ctx' = 0"
  shows "decode_pieces ctx cs = Some out"
  using assms
proof (induction cs arbitrary: ctx out)
  case Nil
  then show ?case by (simp add: EVP_DecodeFinal_def)
next
  case (Cons c cs)
  obtain ok out1 ctx1 where l: "decode_update_loop c [] ctx = (ok, out1, ctx1)" by (metis prod_cases3)
  have ok: "ok" using Cons.prems(1) l by (simp add: loop_append split: if_splits)
  obtain ok2 out2 ctx2 where l2: "decode_update_loop (concat cs) [] ctx1 = (ok2, out2, ctx2)" by (metis prod_cases3)
  have r: "ok2" "out = out1 @ out2" "ctx2 = ctx'"
    using Cons.prems(1) l l2 ok loop_prefix [of "concat cs" out1 "[]" ctx1] by (simp_all add: loop_append)
  have e: "\<not> error_encountered ctx1" using loop_error l ok Cons.prems(3) by metis
  have "decode_pieces ctx1 cs = Some out2"
    by (rule Cons.IH [OF _ _ e Cons.prems(4)]) (use l2 r Cons.prems(2) in simp_all)
  then show ?case using l ok r Cons.prems(2,3) by (auto simp: EVP_DecodeUpdate_def)
qed

definition dec_ok :: "evp_encode_ctx \<Rightarrow> bool" where
  "dec_ok ctx \<longleftrightarrow> length (ctx_data ctx) = CTX_DATA \<and> data_used ctx = 0 \<and> \<not> eof_seen ctx"

text \<open>Four characters that are not white space are a quad.\<close>

lemma one_quad:
  assumes ok: "dec_ok ctx" and q: "base64_decode_quad a b c d = Some bs"
    and ws: "{a, b, c, d} \<inter> {32, 9, 13, 10} = {}"
  shows "\<exists>ctx'. decode_update_loop (a # b # c # d # xs) out ctx = decode_update_loop xs (out @ bs) ctx' \<and>
    data_used ctx' = 0 \<and> (length bs \<ge> 3 \<longrightarrow> dec_ok ctx') \<and> (length bs < 3 \<longrightarrow> eof_seen ctx')"
proof -
  obtain x0 x1 x2 x3 ds where d: "ctx_data ctx = x0 # x1 # x2 # x3 # ds" "length ds = 44"
    using ok by (auto simp: dec_ok_def CTX_DATA_def length_Suc_conv numeral_eq_Suc)
  have n: "a \<notin> {32, 9, 13, 10}" "b \<notin> {32, 9, 13, 10}" "c \<notin> {32, 9, 13, 10}" "d \<notin> {32, 9, 13, 10}" using ws by blast+
  have u: "data_used ctx = 0" "\<not> eof_seen ctx" using ok by (simp_all add: dec_ok_def)
  define ctx' where "ctx' = ctx\<lparr>ctx_data := a # b # c # d # ds, data_used := 0, eof_seen := (length bs < 3)\<rparr>"
  have "decode_update_loop (a # b # c # d # xs) out ctx = decode_update_loop xs (out @ bs) ctx'"
  proof -
    have e: "ctx\<lparr>ctx_data := y, data_used := 0, eof_seen := False\<rparr> = ctx\<lparr>ctx_data := y, data_used := 0\<rparr>" for y
      using u(2) by (cases ctx) simp
    show ?thesis using n u q by (auto simp: d Let_def memcpy_to_def ctx'_def e)
  qed
  moreover have "data_used ctx' = 0 \<and> (length bs \<ge> 3 \<longrightarrow> dec_ok ctx') \<and> (length bs < 3 \<longrightarrow> eof_seen ctx')"
    using d by (simp add: ctx'_def dec_ok_def CTX_DATA_def)
  ultimately show ?thesis by blast
qed

lemma loop_b64:
  assumes "dec_ok ctx"
  shows "\<exists>ctx'. decode_update_loop (b64 ys @ xs) out ctx = decode_update_loop xs (out @ ys) ctx' \<and>
    data_used ctx' = 0 \<and> (length ys mod 3 = 0 \<longrightarrow> dec_ok ctx')"
  using assms
proof (induction "length ys" arbitrary: ys out ctx rule: less_induct)
  case less
  show ?case
  proof (cases "ys = []")
    case True
    then show ?thesis using less(2) by (auto simp: dec_ok_def)
  next
    case False
    then obtain a b c d where q: "b64 ys = a # b # c # d # b64 (drop 3 ys)" "base64_decode_quad a b c d = Some (take 3 ys)"
      "{a, b, c, d} \<inter> {32, 9, 13, 10} = {}" by (rule b64_cases)
    obtain ctx1 where c1: "decode_update_loop (a # b # c # d # b64 (drop 3 ys) @ xs) out ctx =
        decode_update_loop (b64 (drop 3 ys) @ xs) (out @ take 3 ys) ctx1"
      "data_used ctx1 = 0" "length (take 3 ys) \<ge> 3 \<longrightarrow> dec_ok ctx1"
      using one_quad [OF less(2) q(2,3)] by blast
    show ?thesis
    proof (cases "length ys \<ge> 3")
      case True
      then have ok1: "dec_ok ctx1" using c1(3) by simp
      have l: "length (drop 3 ys) < length ys" using True by simp
      from less(1) [OF l ok1, of "out @ take 3 ys"]
      obtain ctx' where c2: "decode_update_loop (b64 (drop 3 ys) @ xs) (out @ take 3 ys) ctx1 =
          decode_update_loop xs ((out @ take 3 ys) @ drop 3 ys) ctx' \<and> data_used ctx' = 0 \<and>
          (length (drop 3 ys) mod 3 = 0 \<longrightarrow> dec_ok ctx')" ..
      have "length ys mod 3 = length (drop 3 ys) mod 3" using True by (simp add: le_mod_geq)
      then show ?thesis using c1(1) c2 q(1) by (intro exI [of _ ctx']) simp
    next
      case short: False
      moreover have "0 < length ys" using False by simp
      ultimately have "length ys = 1 \<or> length ys = 2" by linarith
      then have "length ys mod 3 \<noteq> 0" by auto
      then show ?thesis using c1(1,2) q(1) short by (intro exI [of _ ctx1]) simp
    qed
  qed
qed

lemma loop_space: "x \<in> {32, 9, 13, 10} \<Longrightarrow> decode_update_loop (x # xs) out ctx = decode_update_loop xs out ctx"
  by auto

lemma loop_text:
  assumes "dec_ok ctx"
  shows "\<exists>ctx'. decode_update_loop (full_lines ys @ last_line (left_over ys)) out ctx = (True, out @ ys, ctx') \<and> data_used ctx' = 0"
  using assms
proof (induction ys arbitrary: out ctx rule: full_lines.induct)
  case (1 ys)
  show ?case
  proof (cases "length ys \<ge> CTX_DATA")
    case True
    have t: "full_lines ys @ last_line (left_over ys) =
        b64 (take CTX_DATA ys) @ 10 # (full_lines (drop CTX_DATA ys) @ last_line (left_over (drop CTX_DATA ys)))"
      using True by (simp add: full_lines.simps [of ys] left_over.simps [of ys])
    from loop_b64 [OF 1(2), of "take CTX_DATA ys" "10 # (full_lines (drop CTX_DATA ys) @ last_line (left_over (drop CTX_DATA ys)))" out]
    obtain ctx1 where c0: "decode_update_loop (b64 (take CTX_DATA ys) @ 10 #
          (full_lines (drop CTX_DATA ys) @ last_line (left_over (drop CTX_DATA ys)))) out ctx =
        decode_update_loop (10 # (full_lines (drop CTX_DATA ys) @ last_line (left_over (drop CTX_DATA ys)))) (out @ take CTX_DATA ys) ctx1 \<and>
        data_used ctx1 = 0 \<and> (length (take CTX_DATA ys) mod 3 = 0 \<longrightarrow> dec_ok ctx1)" ..
    have "length (take CTX_DATA ys) mod 3 = 0" using True by (simp add: CTX_DATA_def)
    then have c1: "decode_update_loop (b64 (take CTX_DATA ys) @ 10 #
          (full_lines (drop CTX_DATA ys) @ last_line (left_over (drop CTX_DATA ys)))) out ctx =
        decode_update_loop (10 # (full_lines (drop CTX_DATA ys) @ last_line (left_over (drop CTX_DATA ys)))) (out @ take CTX_DATA ys) ctx1"
      "dec_ok ctx1" using c0 by simp_all
    obtain ctx' where "decode_update_loop (full_lines (drop CTX_DATA ys) @ last_line (left_over (drop CTX_DATA ys))) (out @ take CTX_DATA ys) ctx1 =
        (True, (out @ take CTX_DATA ys) @ drop CTX_DATA ys, ctx')" "data_used ctx' = 0"
      using 1(1) [OF True c1(2), of "out @ take CTX_DATA ys"] by blast
    then show ?thesis unfolding t c1(1) by simp
  next
    case False
    then have t: "full_lines ys @ last_line (left_over ys) = (if ys = [] then [] else b64 ys @ [10])"
      using lines_short [of ys] by (simp add: last_line_def)
    obtain ctx' where "decode_update_loop (b64 ys @ [10]) out ctx = decode_update_loop [10] (out @ ys) ctx'" "data_used ctx' = 0"
      using loop_b64 [OF 1(2), of ys "[10]" out] by blast
    then show ?thesis unfolding t using 1(2) by (auto simp: dec_ok_def)
  qed
qed

section \<open>The properties\<close>

lemma b64_not_space: "x \<in> set (b64 src) \<Longrightarrow> x \<notin> {32, 9, 13, 10}"
proof (induction "length src" arbitrary: src rule: less_induct)
  case less
  show ?case
  proof (cases "src = []")
    case False
    then obtain a b c d where q: "b64 src = a # b # c # d # b64 (drop 3 src)" "{a, b, c, d} \<inter> {32, 9, 13, 10} = {}"
      by (rule b64_cases)
    have "length (drop 3 src) < length src" using False by simp
    from less(1) [OF this] less(2) q show ?thesis by (metis Int_iff empty_iff insert_iff set_ConsD)
  qed (use less(2) in simp)
qed

lemma trim_b64: "trim_right (trim_left (b64 src)) = b64 src"
proof -
  have "trim_left (b64 src) = b64 src"
  proof (cases "b64 src")
    case (Cons c cs)
    then show ?thesis using b64_not_space [of c src] by (simp add: trim_left_def)
  qed (simp add: trim_left_def)
  moreover have "trim_right (b64 src) = b64 src"
  proof (cases "rev (b64 src)")
    case Nil
    then show ?thesis by (simp add: trim_right_def)
  next
    case (Cons c cs)
    then have "c \<in> set (b64 src)" by (metis list.set_intros(1) set_rev)
    then have "dropWhile (\<lambda>c. c \<in> {32, 9, 13, 10}) (rev (b64 src)) = rev (b64 src)"
      unfolding Cons using b64_not_space by (simp only: dropWhile.simps if_False)
    then show ?thesis by (simp add: trim_right_def)
  qed
  ultimately show ?thesis by simp
qed

lemma encoded_length:
  assumes "n < SIZE_T"
  shows "EVP_EncodedLength n = (if 4 * ((n + 2) div 3) < SIZE_T then Some (4 * ((n + 2) div 3) + 1) else None)"
proof -
  define q where "q = (n + 2) div 3"
  have nq: "n + 2 < 3 * q + 3" by (simp add: q_def)
  have S: "SIZE_T = 4 * 4611686018427387904" by (simp add: SIZE_T_def)
  have u: "EVP_EncodedLength n = (if (n + 2) mod SIZE_T < n then None else if (q * 4) mod SIZE_T div 4 \<noteq> q then None
      else if (q * 4 + 1) mod SIZE_T < q * 4 then None else Some (q * 4 + 1))"
    by (simp only: EVP_EncodedLength_def Let_def q_def)
  show ?thesis
  proof (cases "4 * q < SIZE_T")
    case True
    then have q: "q < 4611686018427387904" using S by linarith
    then have "n + 2 < SIZE_T" using nq S by linarith
    then have "(n + 2) mod SIZE_T = n + 2" by (rule mod_less)
    moreover have "q * 4 + 1 < SIZE_T" using q S by linarith
    then have "(q * 4 + 1) mod SIZE_T = q * 4 + 1" "(q * 4) mod SIZE_T = q * 4" by simp_all
    ultimately have "EVP_EncodedLength n = Some (q * 4 + 1)" using u by simp
    then show ?thesis using True unfolding q_def by (simp add: mult.commute)
  next
    case False
    have "(q * 4) mod SIZE_T < SIZE_T" by (simp add: S)
    then have "(q * 4) mod SIZE_T div 4 < 4611686018427387904" using S by linarith
    then have "(q * 4) mod SIZE_T div 4 \<noteq> q" using False S by linarith
    then have "EVP_EncodedLength n = None" using u by simp
    then show ?thesis using False unfolding q_def by simp
  qed
qed

lemma quad_length: "base64_decode_quad a b c d = Some bs \<Longrightarrow> length bs \<le> 3"
  by (auto simp: base64_decode_quad_def Let_def split: if_splits)

lemma decode_loop_bound: "length (snd (decode_loop src out)) \<le> length out + length src div 4 * 3"
proof (induction src out rule: decode_loop.induct)
  case (1 a b c d src out)
  have "length src div 4 * 3 + 3 = length (a # b # c # d # src) div 4 * 3"
    using div_add_self1 [of 4 "length src"] by simp
  then show ?case using 1 quad_length [of a b c d] by (fastforce split: option.split)
qed auto

text \<open>C33: encoding a block and decoding it gives the bytes back. \<open>EVP_EncodedLength\<close> is exactly the room
  the encoder uses, NUL included, and fails exactly when that exceeds a \<open>size_t\<close>; \<open>EVP_DecodeBase64\<close> returns
  the bytes for every output buffer it accepts, \<open>EVP_DecodeBlock\<close> the bytes padded with NULs; on
  any input the decoder writes at most \<open>max_out\<close> bytes.\<close>

theorem base64_block_roundtrip:
  assumes "length src < SIZE_T"
  shows "(case EVP_EncodeBlock src of (dst, n) \<Rightarrow>
      dst = take n dst @ [0] \<and> EVP_EncodedLength (length src) = (if n < SIZE_T then Some (length dst) else None) \<and>
      EVP_DecodeBase64 max_out (take n dst) = (if max_out < n div 4 * 3 then (False, [], 0) else (True, src, length src)) \<and>
      EVP_DecodeBlock (take n dst) = (if n div 4 * 3 > INT_MAX then (-1, [])
        else (int (n div 4 * 3), src @ replicate (n div 4 * 3 - length src) 0))) \<and>
    length (fst (snd (EVP_DecodeBase64 max_out any))) \<le> max_out"
proof (intro conjI)
  have n: "length (b64 src) = 4 * ((length src + 2) div 3)" by (rule length_b64)
  have d: "EVP_DecodeBase64 k (b64 src) = (if k < length (b64 src) div 4 * 3 then (False, [], 0) else (True, src, length src))" for k
    using decode_b64 [of src "[]"] by (simp add: EVP_DecodeBase64_def EVP_DecodedLength_def n)
  have pad: "length src + (3 - length src mod 3) mod 3 = (length src + 2) div 3 * 3"
  proof -
    have "(length src + 2) div 3 * 3 + (length src + 2) mod 3 = length src + 2" by (rule div_mult_mod_eq)
    moreover have "length src mod 3 < 3" by simp
    moreover have "(length src + 2) mod 3 = (length src mod 3 + 2) mod 3" by (simp add: mod_simps)
    ultimately show ?thesis by (cases "length src mod 3 = 0"; cases "length src mod 3 = 1"; cases "length src mod 3 = 2") auto
  qed
  have "EVP_DecodeBlock (b64 src) = (if length (b64 src) div 4 * 3 > INT_MAX then (-1, [])
      else (int (length (b64 src) div 4 * 3), src @ replicate (length (b64 src) div 4 * 3 - length src) 0))"
    using pad by (simp add: EVP_DecodeBlock_def trim_b64 EVP_DecodedLength_def n d Let_def) (metis add_diff_cancel_left')
  then show "case EVP_EncodeBlock src of (dst, n) \<Rightarrow>
      dst = take n dst @ [0] \<and> EVP_EncodedLength (length src) = (if n < SIZE_T then Some (length dst) else None) \<and>
      EVP_DecodeBase64 max_out (take n dst) = (if max_out < n div 4 * 3 then (False, [], 0) else (True, src, length src)) \<and>
      EVP_DecodeBlock (take n dst) = (if n div 4 * 3 > INT_MAX then (-1, [])
        else (int (n div 4 * 3), src @ replicate (n div 4 * 3 - length src) 0))"
    using d encoded_length [OF assms] by (simp add: encode_block n)
  show "length (fst (snd (EVP_DecodeBase64 max_out any))) \<le> max_out"
    using decode_loop_bound [of any "[]"] by (auto simp: EVP_DecodeBase64_def EVP_DecodedLength_def split: prod.split)
qed

text \<open>C34: the streaming interfaces invert each other. However the input of the encoder is cut into pieces,
  its output is the same text of lines of 48 bytes; and however that text is cut into pieces,
  the decoder accepts them and returns the input.\<close>

theorem base64_stream_roundtrip:
  assumes "list_all (\<lambda>c. length c \<le> 2 ^ 30) cs" "length (concat cs) \<le> INT_MAX"
    and "concat ds = encode_pieces EVP_EncodeInit cs"
  shows "encode_pieces EVP_EncodeInit cs = full_lines (concat cs) @ last_line (left_over (concat cs)) \<and>
    decode_pieces EVP_DecodeInit ds = Some (concat cs)"
proof -
  have e: "encode_pieces EVP_EncodeInit cs = full_lines (concat cs) @ last_line (left_over (concat cs))"
    using encode_pieces_spec [OF init_ok assms(1)] by simp
  have "dec_ok EVP_DecodeInit" by (simp add: dec_ok_def EVP_DecodeInit_def)
  from loop_text [OF this, of "concat cs" "[]"] obtain ctx' where
    "decode_update_loop (concat ds) [] EVP_DecodeInit = (True, concat cs, ctx')" "data_used ctx' = 0"
    by (auto simp: assms(3) e)
  then have "decode_pieces EVP_DecodeInit ds = Some (concat cs)"
    by (intro decode_pieces_spec) (use assms(2) in \<open>simp_all add: EVP_DecodeInit_def\<close>)
  then show ?thesis using e by simp
qed

theorem base64_block_roundtrip_witness:
  "EVP_DecodeBase64 3 (take 4 (fst (EVP_EncodeBlock [1, 2]))) = (True, [1, 2], 2)"
proof -
  have "(2 + 2 :: nat) div 3 = 1" by simp
  then show ?thesis
    using base64_block_roundtrip [of "[1, 2]" 3 "[]"] by (simp add: encode_block length_b64 SIZE_T_def)
qed

theorem base64_stream_roundtrip_witness:
  "\<exists>ds. list_all (\<lambda>d. length d \<le> 1) ds \<and> concat ds = encode_pieces EVP_EncodeInit [[1, 2], [3]] \<and>
    decode_pieces EVP_DecodeInit ds = Some [1, 2, 3]"
proof -
  let ?ds = "map (\<lambda>c. [c]) (encode_pieces EVP_EncodeInit [[1, 2], [3]])"
  have "concat ?ds = encode_pieces EVP_EncodeInit [[1, 2], [3]]" by (simp del: encode_pieces.simps)
  note r = conjunct2 [OF base64_stream_roundtrip [OF _ _ this]]
  have "list_all (\<lambda>c. length c \<le> 2 ^ 30) [[1, 2], [3 :: u8]]" "length (concat [[1, 2], [3 :: u8]]) \<le> INT_MAX"
    by (simp_all add: INT_MAX_def)
  from r [OF this] have "decode_pieces EVP_DecodeInit ?ds = Some [1, 2, 3]" by (simp del: encode_pieces.simps)
  then show ?thesis by (intro exI [of _ ?ds]) (simp add: list_all_iff del: encode_pieces.simps)
qed

end
