(* ===== verification/Cls_Data.thy ===== *)
theory Cls_Data
  imports Prelude "HOL-Library.Monad_Syntax"
begin

text \<open>
  Crashlytics' readers of unwind data, \<open>Unwind/Dwarf/FIRCLSDataParsing.c\<close>, and its view of the
  thread's registers on 64-bit ARM, \<open>Helpers/FIRCLSThreadState.c\<close> and the register access of
  \<open>Unwind/FIRCLSUnwind_arm.c\<close>. A function that reads through a cursor returns its value and the
  cursor after it; None is undefined behaviour: a read of an address that is not mapped, pointer
  arithmetic past the address space, or a shift out of \<open>int\<close>. Signed additions wrap. What the
  kernel answers to \<open>vm_read_overwrite\<close> is a parameter.
\<close>

section \<open>Memory\<close>

record cls_env =
  cls_mem :: mem
  mapped :: "u64 \<Rightarrow> bool"
  vm_read :: "u64 \<Rightarrow> nat \<Rightarrow> u8 list option"

definition is_valid_pointer :: "u64 \<Rightarrow> bool" where
  "is_valid_pointer x \<longleftrightarrow> x \<ge> 4096"

text \<open>\<open>FIRCLSReadMemory\<close> of eight bytes.\<close>

definition read_word :: "cls_env \<Rightarrow> u64 \<Rightarrow> u64 option" where
  "read_word e src =
    (if \<not> is_valid_pointer src then None
     else map_option (\<lambda>bs. of_nat (of_le bs)) (vm_read e src 8))"

text \<open>A dereference of \<open>n\<close> bytes, and pointer arithmetic.\<close>

definition deref :: "cls_env \<Rightarrow> u64 \<Rightarrow> nat \<Rightarrow> u8 list option" where
  "deref e a n = (if \<forall>i < n. mapped e (a + of_nat i) then Some (rd_bytes (cls_mem e) a n) else None)"

definition advance :: "u64 \<Rightarrow> nat \<Rightarrow> u64 option" where
  "advance c n = (if unat c + n < 2 ^ 64 then Some (c + of_nat n) else None)"

definition parse_bytes :: "cls_env \<Rightarrow> u64 \<Rightarrow> nat \<Rightarrow> (nat \<times> u64) option" where
  "parse_bytes e c n = do { bs \<leftarrow> deref e c n; c' \<leftarrow> advance c n; Some (of_le bs, c') }"

section \<open>Fixed-width values\<close>

definition FIRCLSParseUint8AndAdvance :: "cls_env \<Rightarrow> u64 \<Rightarrow> (u8 \<times> u64) option" where
  "FIRCLSParseUint8AndAdvance e c = do { (v, c) \<leftarrow> parse_bytes e c 1; Some (of_nat v, c) }"

definition FIRCLSParseUint16AndAdvance :: "cls_env \<Rightarrow> u64 \<Rightarrow> (u16 \<times> u64) option" where
  "FIRCLSParseUint16AndAdvance e c = do { (v, c) \<leftarrow> parse_bytes e c 2; Some (of_nat v, c) }"

definition FIRCLSParseInt16AndAdvance :: "cls_env \<Rightarrow> u64 \<Rightarrow> (u16 \<times> u64) option" where
  "FIRCLSParseInt16AndAdvance e c = do { (v, c) \<leftarrow> parse_bytes e c 2; Some (of_nat v, c) }"

definition FIRCLSParseUint32AndAdvance :: "cls_env \<Rightarrow> u64 \<Rightarrow> (u32 \<times> u64) option" where
  "FIRCLSParseUint32AndAdvance e c = do { (v, c) \<leftarrow> parse_bytes e c 4; Some (of_nat v, c) }"

definition FIRCLSParseInt32AndAdvance :: "cls_env \<Rightarrow> u64 \<Rightarrow> (u32 \<times> u64) option" where
  "FIRCLSParseInt32AndAdvance e c = do { (v, c) \<leftarrow> parse_bytes e c 4; Some (of_nat v, c) }"

definition FIRCLSParseUint64AndAdvance :: "cls_env \<Rightarrow> u64 \<Rightarrow> (u64 \<times> u64) option" where
  "FIRCLSParseUint64AndAdvance e c = do { (v, c) \<leftarrow> parse_bytes e c 8; Some (of_nat v, c) }"

definition FIRCLSParseInt64AndAdvance :: "cls_env \<Rightarrow> u64 \<Rightarrow> (u64 \<times> u64) option" where
  "FIRCLSParseInt64AndAdvance e c = do { (v, c) \<leftarrow> parse_bytes e c 8; Some (of_nat v, c) }"

definition FIRCLSParsePointerAndAdvance :: "cls_env \<Rightarrow> u64 \<Rightarrow> (u64 \<times> u64) option" where
  "FIRCLSParsePointerAndAdvance e c = do { (v, c) \<leftarrow> parse_bytes e c 8; Some (of_nat v, c) }"

text \<open>The cursor moves forward, by exactly the size of the value.\<close>

named_theorems forward \<open>how far a reader moves its cursor\<close>

lemma advance_forward [forward]: "advance c n = Some c' \<Longrightarrow> unat c' = unat c + n"
  by (auto simp: advance_def unat_word_ariths unat_of_nat split: if_splits)

lemma parse_bytes_forward [forward]: "parse_bytes e c n = Some (v, c') \<Longrightarrow> unat c' = unat c + n"
  by (auto simp: parse_bytes_def bind_eq_Some_conv dest: advance_forward)

lemma uint8_forward [forward]: "FIRCLSParseUint8AndAdvance e c = Some (v, c') \<Longrightarrow> unat c' = unat c + 1"
  by (auto simp: FIRCLSParseUint8AndAdvance_def bind_eq_Some_conv dest: parse_bytes_forward)

section \<open>Variable-width values\<close>

text \<open>\<open>v << shift\<close> in \<open>int\<close>, for \<open>v\<close> not negative, converted to \<open>uint64_t\<close>.\<close>

definition int_shl :: "nat \<Rightarrow> nat \<Rightarrow> u64 option" where
  "int_shl v shift = (if shift < 32 \<and> v * 2 ^ shift < 2 ^ 31 then Some (of_nat (v * 2 ^ shift)) else None)"

text \<open>\<open>n\<close> iterations are left.\<close>

fun uleb_loop :: "cls_env \<Rightarrow> nat \<Rightarrow> u64 \<Rightarrow> nat \<Rightarrow> u64 \<Rightarrow> (u64 \<times> u64) option" where
  "uleb_loop e 0 result shift c = Some (result, c)"
| "uleb_loop e (Suc n) result shift c = do {
     (byte, c) \<leftarrow> FIRCLSParseUint8AndAdvance e c;
     x \<leftarrow> int_shl (unat (0x7F AND byte)) shift;
     let result = result OR x in
     if 0x80 AND byte = 0 then Some (result, c) else uleb_loop e n result (shift + 7) c }"

definition FIRCLSParseULEB128AndAdvance :: "cls_env \<Rightarrow> u64 \<Rightarrow> (u64 \<times> u64) option" where
  "FIRCLSParseULEB128AndAdvance e c = uleb_loop e 8 0 0 c"

text \<open>The result, the shift, the last byte and the cursor.\<close>

fun leb_loop :: "cls_env \<Rightarrow> nat \<Rightarrow> u64 \<Rightarrow> nat \<Rightarrow> u8 \<Rightarrow> u64 \<Rightarrow> (u64 \<times> nat \<times> u8 \<times> u64) option" where
  "leb_loop e 0 result shift prev c = Some (result, shift, prev, c)"
| "leb_loop e (Suc n) result shift prev c = do {
     (byte, c) \<leftarrow> FIRCLSParseUint8AndAdvance e c;
     x \<leftarrow> int_shl (unat (0x7F AND byte)) shift;
     let result = result OR x in
     if 0x80 AND byte = 0 then Some (result, shift + 7, byte, c) else leb_loop e n result (shift + 7) byte c }"

definition FIRCLSParseLEB128AndAdvance :: "cls_env \<Rightarrow> u64 \<Rightarrow> (u64 \<times> u64) option" where
  "FIRCLSParseLEB128AndAdvance e c = do {
     (result, shift, byte, c) \<leftarrow> leb_loop e 8 0 0 0 c;
     if shift < 64 \<and> 0x40 AND byte \<noteq> 0 then
       do { one \<leftarrow> int_shl 1 shift; Some (result OR (- one), c) }
     else Some (result, c) }"

lemma uleb_loop_forward: "uleb_loop e n r s c = Some (v, c') \<Longrightarrow> unat c \<le> unat c'"
proof (induction e n r s c rule: uleb_loop.induct)
  case (2 e n r s c)
  then show ?case
    by (fastforce simp: bind_eq_Some_conv Let_def dest: uint8_forward split: if_splits)
qed simp

lemma uleb_forward [forward]: "FIRCLSParseULEB128AndAdvance e c = Some (v, c') \<Longrightarrow> unat c \<le> unat c'"
  by (simp add: FIRCLSParseULEB128AndAdvance_def uleb_loop_forward)

lemma leb_loop_forward: "leb_loop e n r s b c = Some (v, s', b', c') \<Longrightarrow> unat c \<le> unat c'"
proof (induction e n r s b c rule: leb_loop.induct)
  case (2 e n r s b c)
  then show ?case
    by (fastforce simp: bind_eq_Some_conv Let_def dest: uint8_forward split: if_splits)
qed simp

lemma leb_forward [forward]: "FIRCLSParseLEB128AndAdvance e c = Some (v, c') \<Longrightarrow> unat c \<le> unat c'"
  by (auto simp: FIRCLSParseLEB128AndAdvance_def bind_eq_Some_conv dest: leb_loop_forward split: if_splits)

function strlen_at :: "cls_env \<Rightarrow> u64 \<Rightarrow> nat option" where
  "strlen_at e c =
    (case deref e c 1 of
      None \<Rightarrow> None
    | Some bs \<Rightarrow>
        if bs ! 0 = 0 then Some 0
        else if unat c + 1 < 2 ^ 64 then map_option Suc (strlen_at e (c + 1)) else None)"
  by pat_completeness auto
termination
  by (relation "measure (\<lambda>(e, c). 2 ^ 64 - unat c)") (auto simp: unat_word_ariths)

definition FIRCLSParseStringAndAdvance :: "cls_env \<Rightarrow> u64 \<Rightarrow> (u64 \<times> u64) option" where
  "FIRCLSParseStringAndAdvance e c = do {
     n \<leftarrow> strlen_at e c;
     c' \<leftarrow> advance c (n + 1);
     Some (c, c') }"

definition DWARF_EXTENDED_LENGTH_FLAG :: u64 where "DWARF_EXTENDED_LENGTH_FLAG = 0xffffffff"

definition FIRCLSParseRecordLengthAndAdvance :: "cls_env \<Rightarrow> u64 \<Rightarrow> (u64 \<times> u64) option" where
  "FIRCLSParseRecordLengthAndAdvance e c = do {
     (n, c) \<leftarrow> FIRCLSParseUint32AndAdvance e c;
     if ucast n = DWARF_EXTENDED_LENGTH_FLAG then FIRCLSParseUint64AndAdvance e c
     else Some (ucast n, c) }"

section \<open>Encoded addresses\<close>

definition CLS_INVALID_ADDRESS :: u64 where "CLS_INVALID_ADDRESS = 0xffffffffffffffff"
definition DW_EH_PE_VALUE_MASK :: u8 where "DW_EH_PE_VALUE_MASK = 0x0F"
definition DW_EH_PE_RELATIVE_OFFSET_MASK :: u8 where "DW_EH_PE_RELATIVE_OFFSET_MASK = 0x70"
definition DW_EH_PE_indirect :: u8 where "DW_EH_PE_indirect = 0x80"
definition DW_EH_PE_omit :: u8 where "DW_EH_PE_omit = 0xFF"

text \<open>The switch on the value encoding; the inner None is the default case.\<close>

definition parse_encoded_value :: "cls_env \<Rightarrow> u64 \<Rightarrow> u8 \<Rightarrow> (u64 \<times> u64) option option" where
  "parse_encoded_value e c v =
    (if v = 0x00 then Some (FIRCLSParsePointerAndAdvance e c)
     else if v = 0x01 then Some (FIRCLSParseULEB128AndAdvance e c)
     else if v = 0x02 then Some (do { (x, c) \<leftarrow> FIRCLSParseUint16AndAdvance e c; Some (ucast x, c) })
     else if v = 0x03 then Some (do { (x, c) \<leftarrow> FIRCLSParseUint32AndAdvance e c; Some (ucast x, c) })
     else if v = 0x04 then Some (FIRCLSParseUint64AndAdvance e c)
     else if v = 0x09 then Some (FIRCLSParseLEB128AndAdvance e c)
     else if v = 0x0A then Some (do { (x, c) \<leftarrow> FIRCLSParseInt16AndAdvance e c; Some (scast x, c) })
     else if v = 0x0B then Some (do { (x, c) \<leftarrow> FIRCLSParseInt32AndAdvance e c; Some (scast x, c) })
     else if v = 0x0C then Some (FIRCLSParseInt64AndAdvance e c)
     else None)"

definition FIRCLSParseAddressWithEncodingAndAdvance :: "cls_env \<Rightarrow> u64 \<Rightarrow> u8 \<Rightarrow> (u64 \<times> u64) option" where
  "FIRCLSParseAddressWithEncodingAndAdvance e c encoding =
    (if encoding = DW_EH_PE_omit then Some (0, c)
     else if c = 0 then Some (CLS_INVALID_ADDRESS, c)
     else
       (case parse_encoded_value e c (encoding AND DW_EH_PE_VALUE_MASK) of
         None \<Rightarrow> Some (CLS_INVALID_ADDRESS, c)
       | Some parsed \<Rightarrow> do {
           (addr, c') \<leftarrow> parsed;
           let relative = encoding AND DW_EH_PE_RELATIVE_OFFSET_MASK in
           if relative \<noteq> 0x00 \<and> relative \<noteq> 0x10 then Some (CLS_INVALID_ADDRESS, c')
           else let addr = (if relative = 0x10 then addr + c else addr) in
             if encoding AND DW_EH_PE_indirect \<noteq> 0 then
               (if addr = 0 then Some (CLS_INVALID_ADDRESS, c')
                else do { bs \<leftarrow> deref e addr 8; Some (of_nat (of_le bs), c') })
             else Some (addr, c') }))"

section \<open>Registers\<close>

text \<open>\<open>CLS_PTRAUTH_STRIP\<close> keeps 36 bits of the frame pointer, link register, stack pointer and pc.\<close>

record cls_context =
  x_regs :: "nat \<Rightarrow> u64"
  fp_reg :: u64
  lr_reg :: u64
  sp_reg :: u64
  pc_reg :: u64

definition CLS_PTRAUTH_STRIP :: "u64 \<Rightarrow> u64" where "CLS_PTRAUTH_STRIP p = p AND 0x0000000FFFFFFFFF"

definition FIRCLSThreadContextGetPC :: "cls_context \<Rightarrow> u64" where
  "FIRCLSThreadContextGetPC r = CLS_PTRAUTH_STRIP (pc_reg r)"

definition FIRCLSThreadContextGetStackPointer :: "cls_context \<Rightarrow> u64" where
  "FIRCLSThreadContextGetStackPointer r = CLS_PTRAUTH_STRIP (sp_reg r)"

definition FIRCLSThreadContextSetStackPointer :: "cls_context \<Rightarrow> u64 \<Rightarrow> cls_context" where
  "FIRCLSThreadContextSetStackPointer r v = r\<lparr>sp_reg := v\<rparr>"

definition FIRCLSThreadContextGetLinkRegister :: "cls_context \<Rightarrow> u64" where
  "FIRCLSThreadContextGetLinkRegister r = CLS_PTRAUTH_STRIP (lr_reg r)"

definition FIRCLSThreadContextSetLinkRegister :: "cls_context \<Rightarrow> u64 \<Rightarrow> cls_context" where
  "FIRCLSThreadContextSetLinkRegister r v = r\<lparr>lr_reg := v\<rparr>"

definition FIRCLSThreadContextSetPC :: "cls_context \<Rightarrow> u64 \<Rightarrow> cls_context" where
  "FIRCLSThreadContextSetPC r v = r\<lparr>pc_reg := v\<rparr>"

definition FIRCLSThreadContextGetFramePointer :: "cls_context \<Rightarrow> u64" where
  "FIRCLSThreadContextGetFramePointer r = CLS_PTRAUTH_STRIP (fp_reg r)"

definition FIRCLSThreadContextSetFramePointer :: "cls_context \<Rightarrow> u64 \<Rightarrow> cls_context" where
  "FIRCLSThreadContextSetFramePointer r v = r\<lparr>fp_reg := v\<rparr>"

definition CLS_DWARF_ARM64_FP :: u64 where "CLS_DWARF_ARM64_FP = 29"
definition CLS_DWARF_ARM64_LR :: u64 where "CLS_DWARF_ARM64_LR = 30"
definition CLS_DWARF_ARM64_SP :: u64 where "CLS_DWARF_ARM64_SP = 31"
definition CLS_DWARF_MAX_REGISTER_NUM :: u64 where "CLS_DWARF_MAX_REGISTER_NUM = CLS_DWARF_ARM64_SP"
definition CLS_DWARF_REG_RETURN :: u64 where "CLS_DWARF_REG_RETURN = CLS_DWARF_ARM64_LR"
definition CLS_DWARF_REG_SP :: u64 where "CLS_DWARF_REG_SP = CLS_DWARF_ARM64_SP"
definition CLS_DWARF_INVALID_REGISTER_NUM :: u64 where
  "CLS_DWARF_INVALID_REGISTER_NUM = CLS_DWARF_MAX_REGISTER_NUM + 1"

definition FIRCLSDwarfUnwindGetRegisterValue :: "cls_context \<Rightarrow> u64 \<Rightarrow> u64" where
  "FIRCLSDwarfUnwindGetRegisterValue r num =
    (if num \<le> 28 then x_regs r (unat num)
     else if num = CLS_DWARF_ARM64_FP then FIRCLSThreadContextGetFramePointer r
     else if num = CLS_DWARF_ARM64_LR then FIRCLSThreadContextGetLinkRegister r
     else if num = CLS_DWARF_ARM64_SP then FIRCLSThreadContextGetStackPointer r
     else 0)"

definition FIRCLSDwarfUnwindSetRegisterValue :: "cls_context \<Rightarrow> u64 \<Rightarrow> u64 \<Rightarrow> bool \<times> cls_context" where
  "FIRCLSDwarfUnwindSetRegisterValue r num v =
    (if num \<le> 28 then (True, r\<lparr>x_regs := (x_regs r)(unat num := v)\<rparr>)
     else if num = CLS_DWARF_ARM64_FP then (True, FIRCLSThreadContextSetFramePointer r v)
     else if num = CLS_DWARF_ARM64_SP then (True, FIRCLSThreadContextSetStackPointer r v)
     else if num = CLS_DWARF_ARM64_LR then
       (True, FIRCLSThreadContextSetPC (FIRCLSThreadContextSetLinkRegister r v) v)
     else (False, r))"

end
