(* ===== verification/Cls_Expr.thy ===== *)
theory Cls_Expr
  imports Cls_Data
begin

text \<open>
  The DWARF expression machine of Crashlytics, \<open>Unwind/Dwarf/FIRCLSDwarfExpressionMachine.c\<close>, and
  the loop that runs it, \<open>FIRCLSDwarfEvalulateExpression\<close> of \<open>FIRCLSDwarfUnwind.c\<close>. The stack
  pointer is an index into the buffer, None for NULL, which marks an overflow or underflow.
\<close>

section \<open>The stack\<close>

definition CLS_DWARF_EXPRESSION_STACK_SIZE :: nat where "CLS_DWARF_EXPRESSION_STACK_SIZE = 100"

record dwarf_stack =
  stk_buffer :: "u64 list"
  stk_pointer :: "nat option"

record dwarf_machine =
  stack :: dwarf_stack
  dataCursor :: u64
  endAddress :: u64
  registers :: cls_context

definition FIRCLSDwarfExpressionStackInit :: dwarf_stack where
  "FIRCLSDwarfExpressionStackInit =
    \<lparr>stk_buffer = replicate CLS_DWARF_EXPRESSION_STACK_SIZE 0, stk_pointer = Some 0\<rparr>"

definition FIRCLSDwarfExpressionStackIsValid :: "dwarf_stack \<Rightarrow> bool" where
  "FIRCLSDwarfExpressionStackIsValid s =
    (case stk_pointer s of None \<Rightarrow> False | Some p \<Rightarrow> \<not> p > CLS_DWARF_EXPRESSION_STACK_SIZE)"

definition FIRCLSDwarfExpressionStackPush :: "dwarf_stack \<Rightarrow> u64 \<Rightarrow> bool \<times> dwarf_stack" where
  "FIRCLSDwarfExpressionStackPush s v =
    (if \<not> FIRCLSDwarfExpressionStackIsValid s then (False, s)
     else if stk_pointer s = Some CLS_DWARF_EXPRESSION_STACK_SIZE then (False, s\<lparr>stk_pointer := None\<rparr>)
     else let p = the (stk_pointer s) in
       (True, s\<lparr>stk_buffer := (stk_buffer s)[p := v], stk_pointer := Some (p + 1)\<rparr>))"

definition FIRCLSDwarfExpressionStackPeek :: "dwarf_stack \<Rightarrow> u64 \<times> dwarf_stack" where
  "FIRCLSDwarfExpressionStackPeek s =
    (if \<not> FIRCLSDwarfExpressionStackIsValid s then (0, s)
     else if stk_pointer s = Some 0 then (0, s\<lparr>stk_pointer := None\<rparr>)
     else (stk_buffer s ! (the (stk_pointer s) - 1), s))"

definition FIRCLSDwarfExpressionStackPop :: "dwarf_stack \<Rightarrow> u64 \<times> dwarf_stack" where
  "FIRCLSDwarfExpressionStackPop s =
    (if \<not> FIRCLSDwarfExpressionStackIsValid s then (0, s)
     else if stk_pointer s = Some 0 then (0, s\<lparr>stk_pointer := None\<rparr>)
     else let p = the (stk_pointer s) - 1 in (stk_buffer s ! p, s\<lparr>stk_pointer := Some p\<rparr>))"

section \<open>The machine\<close>

definition FIRCLSDwarfExpressionMachineInit :: "u64 \<Rightarrow> cls_context \<Rightarrow> u64 \<Rightarrow> bool \<times> dwarf_machine" where
  "FIRCLSDwarfExpressionMachineInit cursor r stackValue =
    (if \<not> is_valid_pointer cursor then
       (False, \<lparr>stack = FIRCLSDwarfExpressionStackInit\<lparr>stk_pointer := None\<rparr>, dataCursor = 0, endAddress = 0, registers = r\<rparr>)
     else (case FIRCLSDwarfExpressionStackPush FIRCLSDwarfExpressionStackInit stackValue of (ok, s) \<Rightarrow>
       (ok, \<lparr>stack = s, dataCursor = cursor, endAddress = 0, registers = r\<rparr>)))"

definition FIRCLSDwarfExpressionMachinePrepareForExecution ::
    "cls_env \<Rightarrow> dwarf_machine \<Rightarrow> (bool \<times> dwarf_machine) option" where
  "FIRCLSDwarfExpressionMachinePrepareForExecution e m = do {
     (expressionLength, c) \<leftarrow> FIRCLSParseULEB128AndAdvance e (dataCursor m);
     let m = m\<lparr>dataCursor := c\<rparr> in
     if expressionLength = 0 then Some (False, m)
     else do { end \<leftarrow> advance c (unat expressionLength); Some (True, m\<lparr>endAddress := end\<rparr>) } }"

definition FIRCLSDwarfExpressionMachineIsFinished :: "dwarf_machine \<Rightarrow> bool" where
  "FIRCLSDwarfExpressionMachineIsFinished m \<longleftrightarrow>
     \<not> is_valid_pointer (endAddress m) \<or> \<not> is_valid_pointer (dataCursor m) \<or>
     \<not> FIRCLSDwarfExpressionStackIsValid (stack m) \<or> dataCursor m \<ge> endAddress m"

text \<open>The result of a successful query and the stack after it.\<close>

definition FIRCLSDwarfExpressionMachineGetResult :: "dwarf_machine \<Rightarrow> (bool \<times> u64) \<times> dwarf_machine" where
  "FIRCLSDwarfExpressionMachineGetResult m =
    (if dataCursor m \<noteq> endAddress m then ((False, 0), m)
     else (case FIRCLSDwarfExpressionStackPeek (stack m) of (result, s) \<Rightarrow>
       ((FIRCLSDwarfExpressionStackIsValid s, result), m\<lparr>stack := s\<rparr>)))"

definition machine_pop :: "dwarf_machine \<Rightarrow> u64 \<times> dwarf_machine" where
  "machine_pop m = (case FIRCLSDwarfExpressionStackPop (stack m) of (v, s) \<Rightarrow> (v, m\<lparr>stack := s\<rparr>))"

definition machine_push :: "dwarf_machine \<Rightarrow> u64 \<Rightarrow> bool \<times> dwarf_machine" where
  "machine_push m v = (case FIRCLSDwarfExpressionStackPush (stack m) v of (ok, s) \<Rightarrow> (ok, m\<lparr>stack := s\<rparr>))"

section \<open>Operations\<close>

definition DW_OP_breg0 :: u8 where "DW_OP_breg0 = 0x70"
definition DW_OP_lit0 :: u8 where "DW_OP_lit0 = 0x30"

definition execute_bregN :: "cls_env \<Rightarrow> dwarf_machine \<Rightarrow> u8 \<Rightarrow> (bool \<times> dwarf_machine) option" where
  "execute_bregN e m opcode =
    (let regNum = opcode - DW_OP_breg0 in
     if ucast regNum > CLS_DWARF_MAX_REGISTER_NUM then Some (False, m)
     else do {
       (offset, c) \<leftarrow> FIRCLSParseLEB128AndAdvance e (dataCursor m);
       let m = m\<lparr>dataCursor := c\<rparr>;
           v = FIRCLSDwarfUnwindGetRegisterValue (registers m) (ucast regNum) + offset
       in Some (machine_push m v) })"

definition execute_deref :: "cls_env \<Rightarrow> dwarf_machine \<Rightarrow> bool \<times> dwarf_machine" where
  "execute_deref e m =
    (case machine_pop m of (v, m) \<Rightarrow>
       (case read_word e v of None \<Rightarrow> (False, m) | Some v \<Rightarrow> machine_push m v))"

definition execute_plus_uconst :: "cls_env \<Rightarrow> dwarf_machine \<Rightarrow> (bool \<times> dwarf_machine) option" where
  "execute_plus_uconst e m =
    (case machine_pop m of (v, m) \<Rightarrow> do {
       (n, c) \<leftarrow> FIRCLSParseULEB128AndAdvance e (dataCursor m);
       Some (machine_push (m\<lparr>dataCursor := c\<rparr>) (v + n)) })"

definition execute_and :: "dwarf_machine \<Rightarrow> bool \<times> dwarf_machine" where
  "execute_and m = (case machine_pop m of (v, m) \<Rightarrow> case machine_pop m of (w, m) \<Rightarrow> machine_push m (v AND w))"

definition execute_plus :: "dwarf_machine \<Rightarrow> bool \<times> dwarf_machine" where
  "execute_plus m = (case machine_pop m of (v, m) \<Rightarrow> case machine_pop m of (w, m) \<Rightarrow> machine_push m (v + w))"

definition execute_dup :: "dwarf_machine \<Rightarrow> bool \<times> dwarf_machine" where
  "execute_dup m = (case FIRCLSDwarfExpressionStackPeek (stack m) of (v, s) \<Rightarrow> machine_push (m\<lparr>stack := s\<rparr>) v)"

definition execute_swap :: "dwarf_machine \<Rightarrow> bool \<times> dwarf_machine" where
  "execute_swap m =
    (case machine_pop m of (valueA, m) \<Rightarrow> case machine_pop m of (valueB, m) \<Rightarrow>
     case machine_push m valueA of (ok, m) \<Rightarrow> if \<not> ok then (False, m) else machine_push m valueB)"

text \<open>The address is read without \<open>FIRCLSReadMemory\<close>.\<close>

definition execute_deref_size :: "cls_env \<Rightarrow> dwarf_machine \<Rightarrow> (bool \<times> dwarf_machine) option" where
  "execute_deref_size e m =
    (case machine_pop m of (address, m) \<Rightarrow> do {
       (readSize, c) \<leftarrow> FIRCLSParseUint8AndAdvance e (dataCursor m);
       let m = m\<lparr>dataCursor := c\<rparr> in
       if readSize = 1 then do { (v, _) \<leftarrow> FIRCLSParseUint8AndAdvance e address; Some (machine_push m (ucast v)) }
       else if readSize = 2 then do { (v, _) \<leftarrow> FIRCLSParseUint16AndAdvance e address; Some (machine_push m (ucast v)) }
       else if readSize = 4 then do { (v, _) \<leftarrow> FIRCLSParseUint32AndAdvance e address; Some (machine_push m (ucast v)) }
       else if readSize = 8 then do { (v, _) \<leftarrow> FIRCLSParseUint64AndAdvance e address; Some (machine_push m v) }
       else Some (False, m) })"

definition execute_ne :: "dwarf_machine \<Rightarrow> bool \<times> dwarf_machine" where
  "execute_ne m =
    (case machine_pop m of (v, m) \<Rightarrow> case machine_pop m of (w, m) \<Rightarrow> machine_push m (of_bool (v \<noteq> w)))"

definition execute_litN :: "dwarf_machine \<Rightarrow> u8 \<Rightarrow> bool \<times> dwarf_machine" where
  "execute_litN m opcode = machine_push m (ucast (opcode - DW_OP_lit0))"

definition FIRCLSDwarfExpressionMachineExecuteNextOpcode ::
    "cls_env \<Rightarrow> dwarf_machine \<Rightarrow> (bool \<times> dwarf_machine) option" where
  "FIRCLSDwarfExpressionMachineExecuteNextOpcode e m = do {
     (opcode, c) \<leftarrow> FIRCLSParseUint8AndAdvance e (dataCursor m);
     let m = m\<lparr>dataCursor := c\<rparr> in
     if opcode = 0x06 then Some (execute_deref e m)
     else if opcode = 0x12 then Some (execute_dup m)
     else if opcode = 0x1A then Some (execute_and m)
     else if opcode = 0x22 then Some (execute_plus m)
     else if opcode = 0x16 then Some (execute_swap m)
     else if opcode = 0x23 then execute_plus_uconst e m
     else if opcode = 0x2E then Some (execute_ne m)
     else if DW_OP_lit0 \<le> opcode \<and> opcode \<le> 0x4F then Some (execute_litN m opcode)
     else if DW_OP_breg0 \<le> opcode \<and> opcode \<le> 0x8F then execute_bregN e m opcode
     else if opcode = 0x94 then execute_deref_size e m
     else Some (False, m) }"

section \<open>Evaluating an expression\<close>

lemma pop_cursor: "machine_pop m = (v, m') \<Longrightarrow> dataCursor m' = dataCursor m"
  by (auto simp: machine_pop_def split: prod.splits)

lemma push_cursor [simp]: "dataCursor (snd (machine_push m v)) = dataCursor m"
  by (auto simp: machine_push_def split: prod.split)

lemma push_cursor' : "machine_push m v = (ok, m') \<Longrightarrow> dataCursor m' = dataCursor m"
  using push_cursor [of m v] by simp

lemma opcode_forward:
  "FIRCLSDwarfExpressionMachineExecuteNextOpcode e m = Some (ok, m') \<Longrightarrow> unat (dataCursor m) < unat (dataCursor m')"
  unfolding FIRCLSDwarfExpressionMachineExecuteNextOpcode_def execute_deref_def execute_dup_def execute_and_def
    execute_plus_def execute_swap_def execute_plus_uconst_def execute_ne_def execute_litN_def execute_bregN_def
    execute_deref_size_def Let_def
  by (auto simp: bind_eq_Some_conv split: if_splits prod.splits option.splits
      dest!: uint8_forward uleb_forward leb_forward pop_cursor push_cursor')

function eval_loop :: "cls_env \<Rightarrow> dwarf_machine \<Rightarrow> (bool \<times> dwarf_machine) option" where
  "eval_loop e m =
    (if FIRCLSDwarfExpressionMachineIsFinished m then Some (True, m)
     else (case FIRCLSDwarfExpressionMachineExecuteNextOpcode e m of
       None \<Rightarrow> None
     | Some (ok, m') \<Rightarrow> if \<not> ok then Some (False, m') else eval_loop e m'))"
  by pat_completeness auto
termination
  by (relation "measure (\<lambda>(e, m). 2 ^ 64 - unat (dataCursor m))") (auto dest!: opcode_forward simp: diff_less_mono2)

text \<open>Whether the evaluation succeeds, and its result.\<close>

definition FIRCLSDwarfEvalulateExpression ::
    "cls_env \<Rightarrow> u64 \<Rightarrow> cls_context \<Rightarrow> u64 \<Rightarrow> (bool \<times> u64) option" where
  "FIRCLSDwarfEvalulateExpression e cursor r stackValue =
    (if \<not> is_valid_pointer cursor then Some (False, 0)
     else (case FIRCLSDwarfExpressionMachineInit cursor r stackValue of (ok, m) \<Rightarrow>
       if \<not> ok then Some (False, 0)
       else do {
         (ok, m) \<leftarrow> FIRCLSDwarfExpressionMachinePrepareForExecution e m;
         if \<not> ok then Some (False, 0)
         else do {
           (ok, m) \<leftarrow> eval_loop e m;
           if \<not> ok then Some (False, 0)
           else Some (fst (FIRCLSDwarfExpressionMachineGetResult m)) } }))"

end
