(* ===== verification/Cls_Dwarf.thy ===== *)
theory Cls_Dwarf
  imports Cls_Expr
begin

text \<open>
  Unwinding one frame with DWARF call frame information, \<open>Unwind/Dwarf/FIRCLSDwarfUnwind.c\<close>: the
  parsers of CIE and FDE records, the interpreter of their instructions and the computation of the
  caller's registers. A null record pointer is not passed by the callers and not modelled; a
  failure leaves the record in a state that no caller looks at, so only the flag matters then.
\<close>

section \<open>Records\<close>

record dwarf_instructions =
  ins_length :: u32
  ins_data :: u64

record dwarf_cie =
  cie_length :: u64
  version :: u8
  augmentation :: u64
  pointerEncoding :: u8
  lsdaEncoding :: u8
  personalityEncoding :: u8
  personalityFunction :: u64
  codeAlignFactor :: u64
  dataAlignFactor :: u64
  returnAddressRegister :: u64
  signalFrame :: bool
  cie_instructions :: dwarf_instructions

record dwarf_fde =
  fde_length :: u64
  cieOffset :: u64
  startAddress :: u64
  rangeSize :: u64
  fde_instructions :: dwarf_instructions

record dwarf_cfi =
  cie :: dwarf_cie
  fde :: dwarf_fde

definition no_instructions :: dwarf_instructions where
  "no_instructions = \<lparr>ins_length = 0, ins_data = 0\<rparr>"

definition zero_cie :: dwarf_cie where
  "zero_cie = \<lparr>cie_length = 0, version = 0, augmentation = 0, pointerEncoding = 0, lsdaEncoding = 0,
    personalityEncoding = 0, personalityFunction = 0, codeAlignFactor = 0, dataAlignFactor = 0,
    returnAddressRegister = 0, signalFrame = False, cie_instructions = no_instructions\<rparr>"

definition char_of :: "cls_env \<Rightarrow> u64 \<Rightarrow> nat \<Rightarrow> u8 option" where
  "char_of e s i = map_option (\<lambda>bs. bs ! 0) (deref e (s + of_nat i) 1)"

text \<open>The characters of the augmentation string from index \<open>i\<close> on, \<open>n\<close> of them.\<close>

fun augmentation_loop :: "cls_env \<Rightarrow> nat \<Rightarrow> nat \<Rightarrow> u64 \<Rightarrow> dwarf_cie \<Rightarrow> u64 \<Rightarrow> (bool \<times> dwarf_cie \<times> u64) option" where
  "augmentation_loop e 0 i ending r p = Some (True, r, p)"
| "augmentation_loop e (Suc n) i ending r p = do {
     ch \<leftarrow> char_of e (augmentation r) i;
     (ok, r, p) \<leftarrow>
       (if ch = 76 then do { (v, p) \<leftarrow> FIRCLSParseUint8AndAdvance e p; Some (True, r\<lparr>lsdaEncoding := v\<rparr>, p) }
        else if ch = 82 then do { (v, p) \<leftarrow> FIRCLSParseUint8AndAdvance e p; Some (True, r\<lparr>pointerEncoding := v\<rparr>, p) }
        else if ch = 80 then do {
          (v, p) \<leftarrow> FIRCLSParseUint8AndAdvance e p;
          (f, p) \<leftarrow> FIRCLSParseAddressWithEncodingAndAdvance e p v;
          Some (f \<noteq> CLS_INVALID_ADDRESS, r\<lparr>personalityEncoding := v, personalityFunction := f\<rparr>, p) }
        else if ch = 83 then Some (True, r\<lparr>signalFrame := True\<rparr>, p)
        else Some (False, r, p));
     if \<not> ok then Some (False, r, p)
     else if p > ending then Some (False, r, p)
     else augmentation_loop e n (i + 1) ending r p }"

definition FIRCLSDwarfParseAndProcessAugmentation ::
    "cls_env \<Rightarrow> dwarf_cie \<Rightarrow> u64 \<Rightarrow> (bool \<times> dwarf_cie \<times> u64) option" where
  "FIRCLSDwarfParseAndProcessAugmentation e r p =
    (if p = 0 \<or> augmentation r = 0 then Some (False, r, p)
     else do {
       first \<leftarrow> char_of e (augmentation r) 0;
       if first = 0 then Some (True, r, p)
       else if first \<noteq> 122 then Some (False, r, p)
       else do {
         stringLength \<leftarrow> strlen_at e (augmentation r);
         (dataLength, p) \<leftarrow> FIRCLSParseULEB128AndAdvance e p;
         ending \<leftarrow> advance p (unat dataLength);
         augmentation_loop e (stringLength - 1) 1 ending r p } })"

definition FIRCLSDwarfParseCIERecord :: "cls_env \<Rightarrow> u64 \<Rightarrow> (bool \<times> dwarf_cie) option" where
  "FIRCLSDwarfParseCIERecord e p =
    (if p = 0 then Some (False, zero_cie)
     else do {
       (len, p) \<leftarrow> FIRCLSParseRecordLengthAndAdvance e p;
       let c = zero_cie\<lparr>cie_length := len\<rparr> in
       if len = 0 then Some (False, c)
       else do {
         end \<leftarrow> advance p (unat len);
         (_, p) \<leftarrow> FIRCLSParseUint32AndAdvance e p;
         (ver, p) \<leftarrow> FIRCLSParseUint8AndAdvance e p;
         (aug, p) \<leftarrow> FIRCLSParseStringAndAdvance e p;
         (code, p) \<leftarrow> FIRCLSParseULEB128AndAdvance e p;
         (dat, p) \<leftarrow> FIRCLSParseLEB128AndAdvance e p;
         let c = c\<lparr>version := ver, pointerEncoding := 0, lsdaEncoding := 0, augmentation := aug,
                   codeAlignFactor := code, dataAlignFactor := dat\<rparr> in
         if ver \<noteq> 1 \<and> ver \<noteq> 3 then Some (False, c)
         else do {
           (ra, p) \<leftarrow> (if ver = 1 then do { (v, p) \<leftarrow> FIRCLSParseUint8AndAdvance e p; Some (ucast v, p) }
                     else FIRCLSParseULEB128AndAdvance e p);
           (ok, c, p) \<leftarrow> FIRCLSDwarfParseAndProcessAugmentation e (c\<lparr>returnAddressRegister := ra\<rparr>) p;
           if \<not> ok then Some (False, c)
           else Some (True, c\<lparr>cie_instructions := \<lparr>ins_length = ucast (end - p), ins_data = p\<rparr>\<rparr>) } } })"

definition FIRCLSDwarfCIEIsValid :: "dwarf_cie \<Rightarrow> bool" where
  "FIRCLSDwarfCIEIsValid c \<longleftrightarrow> cie_length c \<noteq> 0 \<and> (version c = 1 \<or> version c = 3)"

definition FIRCLSDwarfCIEHasAugmentationData :: "cls_env \<Rightarrow> dwarf_cie \<Rightarrow> bool option" where
  "FIRCLSDwarfCIEHasAugmentationData e c =
    (if augmentation c = 0 then Some False else map_option (\<lambda>ch. ch = 122) (char_of e (augmentation c) 0))"

definition retreat :: "u64 \<Rightarrow> nat \<Rightarrow> u64 option" where
  "retreat p n = (if n \<le> unat p then Some (p - of_nat n) else None)"

text \<open>What follows the CIE offset, with the CIE at hand.\<close>

definition parse_fde_body :: "cls_env \<Rightarrow> dwarf_cie \<Rightarrow> dwarf_fde \<Rightarrow> u64 \<Rightarrow> u64 \<Rightarrow> (bool \<times> dwarf_cie \<times> dwarf_fde) option" where
  "parse_fde_body e c f end p =
    (if \<not> FIRCLSDwarfCIEIsValid c then Some (False, c, f)
     else do {
       (start, p) \<leftarrow> FIRCLSParseAddressWithEncodingAndAdvance e p (pointerEncoding c);
       let f = f\<lparr>startAddress := start\<rparr> in
       if start = CLS_INVALID_ADDRESS then Some (False, c, f)
       else do {
         (range, p) \<leftarrow> FIRCLSParseAddressWithEncodingAndAdvance e p (pointerEncoding c AND DW_EH_PE_VALUE_MASK);
         let f = f\<lparr>rangeSize := range\<rparr> in
         if range = CLS_INVALID_ADDRESS then Some (False, c, f)
         else do {
           has \<leftarrow> FIRCLSDwarfCIEHasAugmentationData e c;
           p \<leftarrow> (if has then do { (n, p) \<leftarrow> FIRCLSParseULEB128AndAdvance e p; advance p (unat n) } else Some p);
           Some (True, c, f\<lparr>fde_instructions := \<lparr>ins_length = ucast (end - p), ins_data = p\<rparr>\<rparr>) } } })"

definition FIRCLSDwarfParseFDERecord ::
    "cls_env \<Rightarrow> dwarf_fde \<Rightarrow> bool \<Rightarrow> dwarf_cie \<Rightarrow> u64 \<Rightarrow> (bool \<times> dwarf_cie \<times> dwarf_fde) option" where
  "FIRCLSDwarfParseFDERecord e f parseCIE c p =
    (if p = 0 then Some (False, c, f)
     else do {
       (len, p) \<leftarrow> FIRCLSParseRecordLengthAndAdvance e p;
       let f = f\<lparr>fde_length := len\<rparr> in
       if len = 0 then Some (False, c, f)
       else do {
         end \<leftarrow> advance p (unat len);
         (off, p) \<leftarrow> FIRCLSParseUint32AndAdvance e p;
         let f = f\<lparr>cieOffset := ucast off\<rparr> in
         if off = 0 then Some (False, c, f)
         else if parseCIE then do {
           ciePointer \<leftarrow> retreat p (unat off + 4);
           (ok, c) \<leftarrow> FIRCLSDwarfParseCIERecord e ciePointer;
           if \<not> ok then Some (False, c, f) else parse_fde_body e c f end p }
         else parse_fde_body e c f end p } })"

definition FIRCLSDwarfParseCFIFromFDERecord :: "cls_env \<Rightarrow> dwarf_cfi \<Rightarrow> u64 \<Rightarrow> (bool \<times> dwarf_cfi) option" where
  "FIRCLSDwarfParseCFIFromFDERecord e r p =
    (if p = 0 then Some (False, r)
     else do {
       (ok, c, f) \<leftarrow> FIRCLSDwarfParseFDERecord e (fde r) True (cie r) p;
       Some (ok, r\<lparr>cie := c, fde := f\<rparr>) })"

definition FIRCLSDwarfParseCFIFromFDERecordOffset ::
    "cls_env \<Rightarrow> dwarf_cfi \<Rightarrow> u64 \<Rightarrow> u64 \<Rightarrow> (bool \<times> dwarf_cfi) option" where
  "FIRCLSDwarfParseCFIFromFDERecordOffset e r ehFrame fdeOffset =
    (if ehFrame = 0 \<or> fdeOffset = 0 then Some (False, r)
     else do { p \<leftarrow> advance ehFrame (unat fdeOffset); FIRCLSDwarfParseCFIFromFDERecord e r p })"

section \<open>Instructions\<close>

datatype reg_location =
    RegisterUnused
  | RegisterInCFA
  | RegisterOffsetFromCFA
  | RegisterInRegister
  | RegisterAtExpression
  | RegisterIsExpression

record dwarf_register =
  location :: reg_location
  reg_value :: u64

record dwarf_state =
  cfaRegister :: u64
  cfaRegisterOffset :: u64
  cfaExpression :: u64
  spArgSize :: u32
  regs :: "nat \<Rightarrow> dwarf_register"

definition zero_state :: dwarf_state where
  "zero_state = \<lparr>cfaRegister = 0, cfaRegisterOffset = 0, cfaExpression = 0, spArgSize = 0,
    regs = (\<lambda>_. \<lparr>location = RegisterUnused, reg_value = 0\<rparr>)\<rparr>"

definition set_reg :: "dwarf_state \<Rightarrow> u64 \<Rightarrow> reg_location \<Rightarrow> u64 \<Rightarrow> dwarf_state" where
  "set_reg s n l v = s\<lparr>regs := (regs s)(unat n := \<lparr>location = l, reg_value = v\<rparr>)\<rparr>"

text \<open>Each returns its flag, the code offset, the state and the cursor.\<close>

type_synonym cfa_result = "(bool \<times> u64 \<times> dwarf_state \<times> u64) option"

definition execute_set_loc :: "cls_env \<Rightarrow> dwarf_cie \<Rightarrow> dwarf_state \<Rightarrow> u64 \<Rightarrow> u64 \<Rightarrow> cfa_result" where
  "execute_set_loc e c s off p = do {
     (operand, p) \<leftarrow> FIRCLSParseAddressWithEncodingAndAdvance e p (pointerEncoding c);
     Some (True, operand, s, p) }"

definition execute_advance_loc1 :: "cls_env \<Rightarrow> dwarf_cie \<Rightarrow> dwarf_state \<Rightarrow> u64 \<Rightarrow> u64 \<Rightarrow> cfa_result" where
  "execute_advance_loc1 e c s off p = do {
     (v, p) \<leftarrow> FIRCLSParseUint8AndAdvance e p;
     Some (True, off + ucast v * codeAlignFactor c, s, p) }"

definition execute_advance_loc2 :: "cls_env \<Rightarrow> dwarf_cie \<Rightarrow> dwarf_state \<Rightarrow> u64 \<Rightarrow> u64 \<Rightarrow> cfa_result" where
  "execute_advance_loc2 e c s off p = do {
     (v, p) \<leftarrow> FIRCLSParseUint16AndAdvance e p;
     Some (True, off + ucast v * codeAlignFactor c, s, p) }"

definition execute_advance_loc4 :: "cls_env \<Rightarrow> dwarf_cie \<Rightarrow> dwarf_state \<Rightarrow> u64 \<Rightarrow> u64 \<Rightarrow> cfa_result" where
  "execute_advance_loc4 e c s off p = do {
     (v, p) \<leftarrow> FIRCLSParseUint32AndAdvance e p;
     Some (True, off + ucast v * codeAlignFactor c, s, p) }"

definition execute_def_cfa :: "cls_env \<Rightarrow> dwarf_state \<Rightarrow> u64 \<Rightarrow> u64 \<Rightarrow> cfa_result" where
  "execute_def_cfa e s off p = do {
     (regNum, p) \<leftarrow> FIRCLSParseULEB128AndAdvance e p;
     if regNum > CLS_DWARF_MAX_REGISTER_NUM then Some (False, off, s, p)
     else do {
       (offset, p) \<leftarrow> FIRCLSParseULEB128AndAdvance e p;
       Some (True, off, s\<lparr>cfaRegister := regNum, cfaRegisterOffset := offset\<rparr>, p) } }"

definition execute_def_cfa_register :: "cls_env \<Rightarrow> dwarf_state \<Rightarrow> u64 \<Rightarrow> u64 \<Rightarrow> cfa_result" where
  "execute_def_cfa_register e s off p = do {
     (regNum, p) \<leftarrow> FIRCLSParseULEB128AndAdvance e p;
     if regNum > CLS_DWARF_MAX_REGISTER_NUM then Some (False, off, s, p)
     else Some (True, off, s\<lparr>cfaRegister := regNum\<rparr>, p) }"

definition execute_def_cfa_offset :: "cls_env \<Rightarrow> dwarf_state \<Rightarrow> u64 \<Rightarrow> u64 \<Rightarrow> cfa_result" where
  "execute_def_cfa_offset e s off p = do {
     (offset, p) \<leftarrow> FIRCLSParseULEB128AndAdvance e p;
     Some (True, off, s\<lparr>cfaRegisterOffset := offset\<rparr>, p) }"

definition execute_same_value :: "cls_env \<Rightarrow> dwarf_state \<Rightarrow> u64 \<Rightarrow> u64 \<Rightarrow> cfa_result" where
  "execute_same_value e s off p = do {
     (regNum, p) \<leftarrow> FIRCLSParseULEB128AndAdvance e p;
     if regNum > CLS_DWARF_MAX_REGISTER_NUM then Some (False, off, s, p)
     else Some (True, off, set_reg s regNum RegisterUnused (reg_value (regs s (unat regNum))), p) }"

definition execute_register :: "cls_env \<Rightarrow> dwarf_state \<Rightarrow> u64 \<Rightarrow> u64 \<Rightarrow> cfa_result" where
  "execute_register e s off p = do {
     (regNum, p) \<leftarrow> FIRCLSParseULEB128AndAdvance e p;
     if regNum > CLS_DWARF_MAX_REGISTER_NUM then Some (False, off, s, p)
     else do {
       (regValue, p) \<leftarrow> FIRCLSParseULEB128AndAdvance e p;
       if regValue > CLS_DWARF_MAX_REGISTER_NUM then Some (False, off, s, p)
       else Some (True, off, set_reg s regNum RegisterInRegister regValue, p) } }"

definition execute_expression :: "cls_env \<Rightarrow> dwarf_state \<Rightarrow> u64 \<Rightarrow> u64 \<Rightarrow> cfa_result" where
  "execute_expression e s off p = do {
     (regNum, p) \<leftarrow> FIRCLSParseULEB128AndAdvance e p;
     if regNum > CLS_DWARF_MAX_REGISTER_NUM then Some (False, off, s, p)
     else do {
       (len, q) \<leftarrow> FIRCLSParseULEB128AndAdvance e p;
       q \<leftarrow> advance q (unat len);
       Some (True, off, set_reg s regNum RegisterAtExpression p, q) } }"

definition execute_val_expression :: "cls_env \<Rightarrow> dwarf_state \<Rightarrow> u64 \<Rightarrow> u64 \<Rightarrow> cfa_result" where
  "execute_val_expression e s off p = do {
     (regNum, p) \<leftarrow> FIRCLSParseULEB128AndAdvance e p;
     if regNum > CLS_DWARF_MAX_REGISTER_NUM then Some (False, off, s, p)
     else do {
       (len, q) \<leftarrow> FIRCLSParseULEB128AndAdvance e p;
       q \<leftarrow> advance q (unat len);
       Some (True, off, set_reg s regNum RegisterIsExpression p, q) } }"

definition execute_def_cfa_expression :: "cls_env \<Rightarrow> dwarf_state \<Rightarrow> u64 \<Rightarrow> u64 \<Rightarrow> cfa_result" where
  "execute_def_cfa_expression e s off p = do {
     (len, q) \<leftarrow> FIRCLSParseULEB128AndAdvance e p;
     q \<leftarrow> advance q (unat len);
     Some (True, off, s\<lparr>cfaRegister := CLS_DWARF_INVALID_REGISTER_NUM, cfaExpression := p\<rparr>, q) }"

definition execute_offset :: "cls_env \<Rightarrow> dwarf_cie \<Rightarrow> dwarf_state \<Rightarrow> u64 \<Rightarrow> u64 \<Rightarrow> u8 \<Rightarrow> cfa_result" where
  "execute_offset e c s off p regNum =
    (if ucast regNum > CLS_DWARF_MAX_REGISTER_NUM then Some (False, off, s, p)
     else do {
       (v, p) \<leftarrow> FIRCLSParseULEB128AndAdvance e p;
       Some (True, off, set_reg s (ucast regNum) RegisterInCFA (v * dataAlignFactor c), p) })"

text \<open>The code offset is assigned here, where the other forms add to it.\<close>

definition execute_advance_loc :: "dwarf_cie \<Rightarrow> dwarf_state \<Rightarrow> u64 \<Rightarrow> u8 \<Rightarrow> cfa_result" where
  "execute_advance_loc c s p delta = Some (True, ucast delta * codeAlignFactor c, s, p)"

definition DW_CFA_OPCODE_MASK :: u8 where "DW_CFA_OPCODE_MASK = 0xC0"
definition DW_CFA_OPERAND_MASK :: u8 where "DW_CFA_OPERAND_MASK = 0x3F"

definition execute_with_operand :: "cls_env \<Rightarrow> u8 \<Rightarrow> dwarf_cie \<Rightarrow> dwarf_state \<Rightarrow> u64 \<Rightarrow> u64 \<Rightarrow> cfa_result" where
  "execute_with_operand e instruction c s off p =
    (let operand = instruction AND DW_CFA_OPERAND_MASK; opcode = instruction AND DW_CFA_OPCODE_MASK in
     if opcode = 0x80 then execute_offset e c s off p operand
     else if opcode = 0x40 then execute_advance_loc c s p operand
     else Some (False, off, s, p))"

text \<open>The switch of the loop, on an instruction other than \<open>DW_CFA_nop\<close>.\<close>

definition execute_instruction :: "cls_env \<Rightarrow> u8 \<Rightarrow> dwarf_cie \<Rightarrow> dwarf_state \<Rightarrow> u64 \<Rightarrow> u64 \<Rightarrow> cfa_result" where
  "execute_instruction e instruction c s off p =
    (if instruction = 0x01 then execute_set_loc e c s off p
     else if instruction = 0x02 then execute_advance_loc1 e c s off p
     else if instruction = 0x03 then execute_advance_loc2 e c s off p
     else if instruction = 0x04 then execute_advance_loc4 e c s off p
     else if instruction = 0x0C then execute_def_cfa e s off p
     else if instruction = 0x0D then execute_def_cfa_register e s off p
     else if instruction = 0x0E then execute_def_cfa_offset e s off p
     else if instruction = 0x08 then execute_same_value e s off p
     else if instruction = 0x09 then execute_register e s off p
     else if instruction = 0x0F then execute_def_cfa_expression e s off p
     else if instruction = 0x10 then execute_expression e s off p
     else if instruction = 0x16 then execute_val_expression e s off p
     else if instruction \<in> {0x05, 0x06, 0x07, 0x0A, 0x0B, 0x11, 0x12, 0x13, 0x14, 0x15, 0x2D, 0x2E, 0x2F}
       then Some (False, off, s, p)
     else execute_with_operand e instruction c s off p)"

section \<open>Running instructions\<close>

lemma parse_mono:
  "FIRCLSParseUint16AndAdvance e c = Some (a, c') \<Longrightarrow> unat c \<le> unat c'"
  "FIRCLSParseInt16AndAdvance e c = Some (a, c') \<Longrightarrow> unat c \<le> unat c'"
  "FIRCLSParseUint32AndAdvance e c = Some (b, c') \<Longrightarrow> unat c \<le> unat c'"
  "FIRCLSParseInt32AndAdvance e c = Some (b, c') \<Longrightarrow> unat c \<le> unat c'"
  "FIRCLSParseUint64AndAdvance e c = Some (d, c') \<Longrightarrow> unat c \<le> unat c'"
  "FIRCLSParseInt64AndAdvance e c = Some (d, c') \<Longrightarrow> unat c \<le> unat c'"
  "FIRCLSParsePointerAndAdvance e c = Some (d, c') \<Longrightarrow> unat c \<le> unat c'"
  by (auto simp: FIRCLSParseUint16AndAdvance_def FIRCLSParseInt16AndAdvance_def FIRCLSParseUint32AndAdvance_def
      FIRCLSParseInt32AndAdvance_def FIRCLSParseUint64AndAdvance_def FIRCLSParseInt64AndAdvance_def
      FIRCLSParsePointerAndAdvance_def bind_eq_Some_conv dest!: parse_bytes_forward)

lemma encoded_value_mono: "parse_encoded_value e c v = Some (Some (x, c')) \<Longrightarrow> unat c \<le> unat c'"
  unfolding parse_encoded_value_def
  by (auto simp: bind_eq_Some_conv split: if_splits dest: parse_mono uleb_forward leb_forward)

lemma address_mono: "FIRCLSParseAddressWithEncodingAndAdvance e c v = Some (x, c') \<Longrightarrow> unat c \<le> unat c'"
  unfolding FIRCLSParseAddressWithEncodingAndAdvance_def Let_def
  by (auto simp: bind_eq_Some_conv split: if_splits option.splits dest: encoded_value_mono)

lemma advance_mono: "advance c n = Some c' \<Longrightarrow> unat c \<le> unat c'"
  by (auto dest: advance_forward)

lemma uint8_mono: "FIRCLSParseUint8AndAdvance e c = Some (v, c') \<Longrightarrow> unat c \<le> unat c'"
  by (auto dest: uint8_forward)

lemma instruction_forward:
  "execute_instruction e ins c s off p = Some (ok, off', s', p') \<Longrightarrow> unat p \<le> unat p'"
  unfolding execute_instruction_def execute_set_loc_def execute_advance_loc1_def execute_advance_loc2_def
    execute_advance_loc4_def execute_def_cfa_def execute_def_cfa_register_def execute_def_cfa_offset_def
    execute_same_value_def execute_register_def execute_def_cfa_expression_def execute_expression_def
    execute_val_expression_def execute_with_operand_def execute_offset_def execute_advance_loc_def Let_def
  by (auto simp: bind_eq_Some_conv split: if_splits dest!: address_mono parse_mono uleb_forward advance_mono uint8_mono)

lemma room_left: "18446744073709551615 - unat (p :: u64) < 18446744073709551616 - unat p"
  using unat_lt_u64 [of p] by linarith

function instructions_loop ::
    "cls_env \<Rightarrow> dwarf_cie \<Rightarrow> u64 \<Rightarrow> u64 \<Rightarrow> dwarf_state \<Rightarrow> u64 \<Rightarrow> u64 \<Rightarrow> (bool \<times> dwarf_state) option" where
  "instructions_loop e c end pcOffset s codeOffset p =
    (if p < end \<and> sint codeOffset < sint pcOffset then
       (case FIRCLSParseUint8AndAdvance e p of
         None \<Rightarrow> None
       | Some (instruction, p1) \<Rightarrow>
           if instruction = 0 then instructions_loop e c end pcOffset s codeOffset p1
           else (case execute_instruction e instruction c s codeOffset p1 of
             None \<Rightarrow> None
           | Some (ok, off, s', p2) \<Rightarrow>
               if \<not> ok then Some (False, s') else instructions_loop e c end pcOffset s' off p2))
     else Some (True, s))"
  by pat_completeness auto
termination
  by (relation "measure (\<lambda>(e, c, end, pcOffset, s, off, p). 2 ^ 64 - unat p)")
    (auto dest!: uint8_forward instruction_forward simp: diff_less_mono2 room_left)

definition FIRCLSDwarfInstructionsEnumerate ::
    "cls_env \<Rightarrow> dwarf_instructions \<Rightarrow> dwarf_cie \<Rightarrow> dwarf_state \<Rightarrow> u64 \<Rightarrow> (bool \<times> dwarf_state) option" where
  "FIRCLSDwarfInstructionsEnumerate e ins c s pcOffset = do {
     end \<leftarrow> advance (ins_data ins) (unat (ins_length ins));
     instructions_loop e c end pcOffset s 0 (ins_data ins) }"

section \<open>The caller's registers\<close>

definition FIRCLSDwarfCompareRegisters :: "cls_context \<Rightarrow> cls_context \<Rightarrow> u64 \<Rightarrow> bool" where
  "FIRCLSDwarfCompareRegisters a b registerNum \<longleftrightarrow>
     FIRCLSDwarfUnwindGetRegisterValue a registerNum = FIRCLSDwarfUnwindGetRegisterValue b registerNum"

definition FIRCLSDwarfGetCFA :: "cls_env \<Rightarrow> dwarf_state \<Rightarrow> cls_context \<Rightarrow> (bool \<times> u64) option" where
  "FIRCLSDwarfGetCFA e s r =
    (if cfaExpression s \<noteq> 0 then FIRCLSDwarfEvalulateExpression e (cfaExpression s) r 0
     else Some (True, FIRCLSDwarfUnwindGetRegisterValue r (cfaRegister s) + cfaRegisterOffset s))"

text \<open>A value that cannot be read is 0.\<close>

definition FIRCLSDwarfGetSavedRegister :: "cls_env \<Rightarrow> cls_context \<Rightarrow> u64 \<Rightarrow> dwarf_register \<Rightarrow> u64 option" where
  "FIRCLSDwarfGetSavedRegister e r cfa d =
    (case location d of
      RegisterInCFA \<Rightarrow> Some (case read_word e (cfa + reg_value d) of None \<Rightarrow> 0 | Some v \<Rightarrow> v)
    | RegisterInRegister \<Rightarrow> Some (FIRCLSDwarfUnwindGetRegisterValue r (reg_value d))
    | RegisterAtExpression \<Rightarrow> do {
        (ok, result) \<leftarrow> FIRCLSDwarfEvalulateExpression e (reg_value d) r cfa;
        Some (if \<not> ok then 0 else (case read_word e result of None \<Rightarrow> 0 | Some v \<Rightarrow> v)) }
    | RegisterIsExpression \<Rightarrow> do {
        (ok, result) \<leftarrow> FIRCLSDwarfEvalulateExpression e (reg_value d) r cfa;
        Some (if \<not> ok then 0 else result) }
    | _ \<Rightarrow> Some 0)"

fun assign_registers :: "cls_env \<Rightarrow> dwarf_state \<Rightarrow> cls_context \<Rightarrow> u64 \<Rightarrow> nat list \<Rightarrow> cls_context \<Rightarrow> (bool \<times> cls_context) option" where
  "assign_registers e s r cfa [] new = Some (True, new)"
| "assign_registers e s r cfa (i # is) new =
    (if location (regs s i) = RegisterUnused then assign_registers e s r cfa is new
     else do {
       v \<leftarrow> FIRCLSDwarfGetSavedRegister e r cfa (regs s i);
       (case FIRCLSDwarfUnwindSetRegisterValue new (of_nat i) v of (ok, new) \<Rightarrow>
          if \<not> ok then Some (False, new) else assign_registers e s r cfa is new) })"

text \<open>The registers to write back, on success.\<close>

definition FIRCLSDwarfUnwindAssignRegisters ::
    "cls_env \<Rightarrow> dwarf_state \<Rightarrow> cls_context \<Rightarrow> u64 \<Rightarrow> (bool \<times> cls_context) option" where
  "FIRCLSDwarfUnwindAssignRegisters e s r cfa = do {
     (ok, new) \<leftarrow> assign_registers e s r cfa [0..<unat CLS_DWARF_MAX_REGISTER_NUM + 1] r;
     if \<not> ok then Some (False, r)
     else (case FIRCLSDwarfUnwindSetRegisterValue new CLS_DWARF_REG_SP cfa of (ok, new) \<Rightarrow>
       if \<not> ok then Some (False, r)
       else if FIRCLSDwarfCompareRegisters r new CLS_DWARF_REG_SP then Some (False, r)
       else if FIRCLSDwarfCompareRegisters r new CLS_DWARF_REG_RETURN then Some (False, r)
       else Some (True, new)) }"

definition FIRCLSDwarfUnwindComputeRegisters :: "cls_env \<Rightarrow> dwarf_cfi \<Rightarrow> cls_context \<Rightarrow> (bool \<times> cls_context) option" where
  "FIRCLSDwarfUnwindComputeRegisters e r ctx = do {
     (ok, s) \<leftarrow> FIRCLSDwarfInstructionsEnumerate e (cie_instructions (cie r)) (cie r) zero_state (of_nat (2 ^ 63 - 1));
     if \<not> ok then Some (False, ctx)
     else
       let pcOffset = FIRCLSThreadContextGetPC ctx - startAddress (fde r) in
       if sint pcOffset < 0 then Some (False, ctx)
       else do {
         (ok, s) \<leftarrow> FIRCLSDwarfInstructionsEnumerate e (fde_instructions (fde r)) (cie r) s pcOffset;
         if \<not> ok then Some (False, ctx)
         else do {
           (ok, cfa) \<leftarrow> FIRCLSDwarfGetCFA e s ctx;
           if \<not> ok then Some (False, ctx)
           else FIRCLSDwarfUnwindAssignRegisters e s ctx cfa } } }"

end
