(* ===== verification/Cls_Compact.thy ===== *)
theory Cls_Compact
  imports Cls_Dwarf
begin

text \<open>
  Unwinding with Apple's compact unwind information, \<open>Unwind/Compact/FIRCLSCompactUnwind.c\<close>, and
  the 64-bit ARM part of it in \<open>Unwind/FIRCLSUnwind_arm.c\<close>. The layout of the unwind section, its
  version and its encodings are those of the system header \<open>mach-o/compact_unwind_encoding.h\<close>, a
  parameter of the model. A structure that is read through a pointer is read as a whole.
\<close>

section \<open>The unwind section\<close>

record unwind_header =
  hdr_version :: u32
  commonEncodingsArraySectionOffset :: u32
  commonEncodingsArrayCount :: u32
  indexSectionOffset :: u32
  indexCount :: u32

record index_entry =
  functionOffset :: u32
  secondLevelPagesSectionOffset :: u32

record page_header =
  entryPageOffset :: u16
  entryCount :: u16
  encodingsPageOffset :: u16

record compact_abi =
  header_size :: nat
  header_of :: "u8 list \<Rightarrow> unwind_header"
  index_size :: nat
  index_of :: "u8 list \<Rightarrow> index_entry"
  page_size :: nat
  page_of :: "u8 list \<Rightarrow> page_header"
  entry_func_offset :: "u32 \<Rightarrow> u32"
  entry_encoding_index :: "u32 \<Rightarrow> u32"
  section_version :: u32
  second_level_regular :: u32
  second_level_compressed :: u32
  mode_mask :: u32
  mode_frameless :: u32
  mode_dwarf :: u32
  mode_frame :: u32
  dwarf_section_offset :: u32

section \<open>The context\<close>

record compact_context =
  unwindInfo :: u64
  ehFrame :: u64
  loadAddress :: u64
  unwindHeader :: unwind_header
  indexHeader :: index_entry
  firstLevelNextFunctionOffset :: u32

record compact_result =
  encoding :: u32
  functionStart :: u64
  functionEnd :: u64

definition zero_compact :: compact_context where
  "zero_compact = \<lparr>unwindInfo = 0, ehFrame = 0, loadAddress = 0,
    unwindHeader = \<lparr>hdr_version = 0, commonEncodingsArraySectionOffset = 0, commonEncodingsArrayCount = 0,
      indexSectionOffset = 0, indexCount = 0\<rparr>,
    indexHeader = \<lparr>functionOffset = 0, secondLevelPagesSectionOffset = 0\<rparr>, firstLevelNextFunctionOffset = 0\<rparr>"

definition zero_result :: compact_result where
  "zero_result = \<lparr>encoding = 0, functionStart = 0, functionEnd = 0\<rparr>"

text \<open>Whether the section can be used, and the context after the call on the context \<open>x\<close>.\<close>

definition FIRCLSCompactUnwindInit ::
    "cls_env \<Rightarrow> compact_abi \<Rightarrow> compact_context \<Rightarrow> u64 \<Rightarrow> u64 \<Rightarrow> u64 \<Rightarrow> bool \<times> compact_context" where
  "FIRCLSCompactUnwindInit e abi x info frame load =
    (if \<not> is_valid_pointer info \<or> \<not> is_valid_pointer load then (False, x)
     else (case vm_read e info (header_size abi) of
       None \<Rightarrow> (False, zero_compact)
     | Some bs \<Rightarrow>
         let x = zero_compact\<lparr>unwindHeader := header_of abi bs\<rparr> in
         if hdr_version (unwindHeader x) \<noteq> section_version abi then (False, x)
         else (True, x\<lparr>unwindInfo := info, ehFrame := frame, loadAddress := load\<rparr>)))"

definition FIRCLSCompactUnwindGetIndexData :: "compact_context \<Rightarrow> u64" where
  "FIRCLSCompactUnwindGetIndexData x = unwindInfo x + ucast (indexSectionOffset (unwindHeader x))"

definition FIRCLSCompactUnwindGetCommonEncodings :: "compact_context \<Rightarrow> u64" where
  "FIRCLSCompactUnwindGetCommonEncodings x = unwindInfo x + ucast (commonEncodingsArraySectionOffset (unwindHeader x))"

definition FIRCLSCompactUnwindGetSecondLevelData :: "compact_context \<Rightarrow> u64" where
  "FIRCLSCompactUnwindGetSecondLevelData x = unwindInfo x + ucast (secondLevelPagesSectionOffset (indexHeader x))"

definition FIRCLSCompactUnwindGetIndexFunctionOffset :: "compact_context \<Rightarrow> u64" where
  "FIRCLSCompactUnwindGetIndexFunctionOffset x = loadAddress x + ucast (functionOffset (indexHeader x))"

definition FIRCLSCompactUnwindGetTargetAddress :: "compact_context \<Rightarrow> u64 \<Rightarrow> u64" where
  "FIRCLSCompactUnwindGetTargetAddress x pc =
    (let offset = FIRCLSCompactUnwindGetIndexFunctionOffset x in if pc \<le> offset then 0 else pc - offset)"

section \<open>Looking up a function\<close>

text \<open>Element \<open>i\<close> of an array of \<open>n\<close>-byte elements.\<close>

definition element_at :: "cls_env \<Rightarrow> u64 \<Rightarrow> nat \<Rightarrow> nat \<Rightarrow> u8 list option" where
  "element_at e a n i = do { p \<leftarrow> advance a (i * n); deref e p n }"

definition uint32_at :: "cls_env \<Rightarrow> u64 \<Rightarrow> nat \<Rightarrow> u32 option" where
  "uint32_at e a i = map_option (\<lambda>bs. of_nat (of_le bs)) (element_at e a 4 i)"

text \<open>The indices from \<open>i\<close> on, \<open>n\<close> of them.\<close>

fun first_level_loop ::
    "cls_env \<Rightarrow> compact_abi \<Rightarrow> compact_context \<Rightarrow> u64 \<Rightarrow> u64 \<Rightarrow> nat \<Rightarrow> nat \<Rightarrow> (bool \<times> compact_context) option" where
  "first_level_loop e abi x entries address i 0 = Some (False, x)"
| "first_level_loop e abi x entries address i (Suc n) = do {
     entry \<leftarrow> map_option (index_of abi) (element_at e entries (index_size abi) i);
     succ \<leftarrow> map_option (index_of abi) (element_at e entries (index_size abi) (i + 1));
     if address \<ge> ucast (functionOffset entry) \<and> address < ucast (functionOffset succ)
     then Some (True, x\<lparr>firstLevelNextFunctionOffset := functionOffset succ, indexHeader := entry\<rparr>)
     else first_level_loop e abi x entries address (i + 1) n }"

definition FIRCLSCompactUnwindLookupFirstLevel ::
    "cls_env \<Rightarrow> compact_abi \<Rightarrow> compact_context \<Rightarrow> u64 \<Rightarrow> (bool \<times> compact_context) option" where
  "FIRCLSCompactUnwindLookupFirstLevel e abi x address =
    (let count = indexCount (unwindHeader x); entries = FIRCLSCompactUnwindGetIndexData x in
     if count < 2 then Some (False, x)
     else if address < loadAddress x then Some (False, x)
     else if entries = 0 then Some (False, x)
     else first_level_loop e abi x entries (address - loadAddress x) 0 (unat count - 1))"

definition FIRCLSCompactUnwindGetSecondLevelPageKind :: "cls_env \<Rightarrow> compact_context \<Rightarrow> u32 option" where
  "FIRCLSCompactUnwindGetSecondLevelPageKind e x = uint32_at e (FIRCLSCompactUnwindGetSecondLevelData x) 0"

text \<open>The index and the end of the range that is left; false and an index when the loop returns.\<close>

function search_loop :: "cls_env \<Rightarrow> compact_abi \<Rightarrow> u64 \<Rightarrow> nat \<Rightarrow> u64 \<Rightarrow> nat \<Rightarrow> nat \<Rightarrow> (bool \<times> nat) option" where
  "search_loop e abi address n entries i high =
    (if \<not> i < high then Some (i < n, i)
     else let mid = (i + high) div 2 in
       (case uint32_at e entries mid of
         None \<Rightarrow> None
       | Some entry \<Rightarrow>
           if ucast (entry_func_offset abi entry) > address then
             (if high = mid then Some (False, i) else search_loop e abi address n entries i mid)
           else if mid = n - 1 then Some (False, mid)
           else (case uint32_at e entries (mid + 1) of
             None \<Rightarrow> None
           | Some succ \<Rightarrow>
               if ucast (entry_func_offset abi succ) > address then Some (mid < n, mid)
               else search_loop e abi address n entries (mid + 1) high)))"
  by pat_completeness auto
termination by (relation "measure (\<lambda>(e, abi, address, n, entries, i, high). high - i)") auto

declare search_loop.simps [simp del]

definition FIRCLSCompactUnwindBinarySearchSecondLevel ::
    "cls_env \<Rightarrow> compact_abi \<Rightarrow> u64 \<Rightarrow> nat \<Rightarrow> u16 \<Rightarrow> u64 \<Rightarrow> (bool \<times> nat) option" where
  "FIRCLSCompactUnwindBinarySearchSecondLevel e abi address i count entries =
    (if entries = 0 \<or> count = 0 \<or> address = 0 then Some (False, i)
     else search_loop e abi address (unat count) entries 0 (unat count))"

definition FIRCLSCompactUnwindLookupSecondLevelRegular :: "compact_result \<Rightarrow> bool \<times> compact_result" where
  "FIRCLSCompactUnwindLookupSecondLevelRegular r = (False, r)"

definition entry_encoding ::
    "cls_env \<Rightarrow> compact_abi \<Rightarrow> compact_context \<Rightarrow> u64 \<Rightarrow> page_header \<Rightarrow> u32 \<Rightarrow> u32 option" where
  "entry_encoding e abi x p header entry =
    (let index = entry_encoding_index abi entry; common = commonEncodingsArrayCount (unwindHeader x) in
     if index < common then uint32_at e (FIRCLSCompactUnwindGetCommonEncodings x) (unat index)
     else do {
       encodings \<leftarrow> advance p (unat (encodingsPageOffset header));
       uint32_at e encodings (unat (index - common)) })"

definition FIRCLSCompactUnwindLookupSecondLevelCompressed ::
    "cls_env \<Rightarrow> compact_abi \<Rightarrow> compact_context \<Rightarrow> u64 \<Rightarrow> compact_result \<Rightarrow> (bool \<times> compact_result) option" where
  "FIRCLSCompactUnwindLookupSecondLevelCompressed e abi x pc r =
    (let p = FIRCLSCompactUnwindGetSecondLevelData x in
     if p = 0 then Some (False, r)
     else do {
       header \<leftarrow> map_option (page_of abi) (deref e p (page_size abi));
       entries \<leftarrow> advance p (unat (entryPageOffset header));
       (found, i) \<leftarrow> FIRCLSCompactUnwindBinarySearchSecondLevel e abi
          (FIRCLSCompactUnwindGetTargetAddress x pc) 0 (entryCount header) entries;
       if \<not> found then Some (False, zero_result)
       else do {
         entry \<leftarrow> uint32_at e entries i;
         end \<leftarrow> (if i < unat (entryCount header) - 1 then do {
                   succ \<leftarrow> uint32_at e entries (i + 1);
                   Some (entry_func_offset abi succ + functionOffset (indexHeader x)) }
                 else Some (firstLevelNextFunctionOffset x));
         let r = zero_result\<lparr>functionStart := ucast (entry_func_offset abi entry) + FIRCLSCompactUnwindGetIndexFunctionOffset x,
                   functionEnd := loadAddress x + ucast end\<rparr> in
         if pc < functionStart r \<or> pc \<ge> functionEnd r then Some (False, r)
         else do {
           enc \<leftarrow> entry_encoding e abi x p header entry;
           Some (enc \<noteq> 0, r\<lparr>encoding := enc\<rparr>) } } })"

definition FIRCLSCompactUnwindLookupSecondLevel ::
    "cls_env \<Rightarrow> compact_abi \<Rightarrow> compact_context \<Rightarrow> u64 \<Rightarrow> compact_result \<Rightarrow> (bool \<times> compact_result) option" where
  "FIRCLSCompactUnwindLookupSecondLevel e abi x pc r = do {
     kind \<leftarrow> FIRCLSCompactUnwindGetSecondLevelPageKind e x;
     if kind = second_level_regular abi then Some (FIRCLSCompactUnwindLookupSecondLevelRegular r)
     else if kind = second_level_compressed abi then FIRCLSCompactUnwindLookupSecondLevelCompressed e abi x pc r
     else Some (False, r) }"

definition FIRCLSCompactUnwindLookup ::
    "cls_env \<Rightarrow> compact_abi \<Rightarrow> compact_context \<Rightarrow> u64 \<Rightarrow> compact_result \<Rightarrow>
      (bool \<times> compact_context \<times> compact_result) option" where
  "FIRCLSCompactUnwindLookup e abi x pc r = do {
     (ok, x) \<leftarrow> FIRCLSCompactUnwindLookupFirstLevel e abi x pc;
     if \<not> ok then Some (False, x, r)
     else do {
       (ok, r) \<leftarrow> FIRCLSCompactUnwindLookupSecondLevel e abi x pc r;
       Some (ok, x, r) } }"

section \<open>Computing the registers\<close>

definition FIRCLSCompactUnwindDwarfFrame ::
    "cls_env \<Rightarrow> compact_context \<Rightarrow> dwarf_cfi \<Rightarrow> u64 \<Rightarrow> cls_context \<Rightarrow> (bool \<times> cls_context) option" where
  "FIRCLSCompactUnwindDwarfFrame e x r offset ctx = do {
     (ok, r) \<leftarrow> FIRCLSDwarfParseCFIFromFDERecordOffset e r (ehFrame x) offset;
     if \<not> ok then Some (False, ctx) else FIRCLSDwarfUnwindComputeRegisters e r ctx }"

definition FIRCLSUnwindWithLRRegister :: "cls_context \<Rightarrow> bool \<times> cls_context" where
  "FIRCLSUnwindWithLRRegister ctx =
    (let v = FIRCLSThreadContextGetLinkRegister ctx in
     if \<not> is_valid_pointer v then (False, ctx) else (True, FIRCLSThreadContextSetPC ctx v))"

definition FIRCLSUnwindStackPointerFromFramePointer :: "u64 \<Rightarrow> u64" where
  "FIRCLSUnwindStackPointerFromFramePointer fp = fp + 2 * 8"

definition FIRCLSUnwindWithFramePointer :: "cls_env \<Rightarrow> cls_context \<Rightarrow> bool \<Rightarrow> bool \<times> cls_context" where
  "FIRCLSUnwindWithFramePointer e ctx allowScanning =
    (case (if allowScanning then FIRCLSUnwindWithLRRegister ctx else (False, ctx)) of (ok, ctx) \<Rightarrow>
     if ok then (True, ctx)
     else
       let fp = FIRCLSThreadContextGetFramePointer ctx in
       if \<not> is_valid_pointer fp then (False, ctx)
       else (case vm_read e fp 16 of
         None \<Rightarrow> (False, ctx)
       | Some bs \<Rightarrow> (True,
           FIRCLSThreadContextSetStackPointer
             (FIRCLSThreadContextSetFramePointer
               (FIRCLSThreadContextSetPC ctx (of_nat (of_le (drop 8 bs))))
               (of_nat (of_le (take 8 bs))))
             (FIRCLSUnwindStackPointerFromFramePointer fp))))"

text \<open>The uninitialised record handed to the parser is an argument.\<close>

definition FIRCLSCompactUnwindComputeRegisters ::
    "cls_env \<Rightarrow> compact_abi \<Rightarrow> dwarf_cfi \<Rightarrow> compact_context \<Rightarrow> compact_result \<Rightarrow> cls_context \<Rightarrow> (bool \<times> cls_context) option" where
  "FIRCLSCompactUnwindComputeRegisters e abi garbage x r ctx =
    (let mode = encoding r AND mode_mask abi in
     if mode = mode_frameless abi then Some (FIRCLSUnwindWithLRRegister ctx)
     else if mode = mode_dwarf abi then
       FIRCLSCompactUnwindDwarfFrame e x garbage (ucast (encoding r AND dwarf_section_offset abi)) ctx
     else if mode = mode_frame abi then Some (FIRCLSUnwindWithFramePointer e ctx False)
     else Some (False, ctx))"

definition FIRCLSCompactUnwindLookupAndCompute ::
    "cls_env \<Rightarrow> compact_abi \<Rightarrow> dwarf_cfi \<Rightarrow> compact_context \<Rightarrow> cls_context \<Rightarrow> (bool \<times> compact_context \<times> cls_context) option" where
  "FIRCLSCompactUnwindLookupAndCompute e abi garbage x ctx =
    (let pc = FIRCLSThreadContextGetPC ctx in
     if pc < loadAddress x then Some (False, x, ctx)
     else do {
       (ok, x, r) \<leftarrow> FIRCLSCompactUnwindLookup e abi x pc zero_result;
       if \<not> ok then Some (False, x, ctx)
       else do {
         (ok, ctx) \<leftarrow> FIRCLSCompactUnwindComputeRegisters e abi garbage x r ctx;
         Some (ok, x, ctx) } })"

end
