(* ===== verification/Cls_Unwind.thy ===== *)
theory Cls_Unwind
  imports Cls_Compact
begin

text \<open>
  Walking a thread's stack, \<open>Unwind/FIRCLSUnwind.c\<close>, and the loop of \<open>FIRCLSProcessRecordThread\<close>
  that records it, \<open>Components/FIRCLSProcess.c\<close>. The table of binary images, kept by
  \<open>Components/FIRCLSBinaryImage.m\<close>, is a parameter: the image an address is in.
\<close>

section \<open>The context\<close>

record binary_image =
  baseAddress :: u64
  img_unwindInfo :: u64
  img_ehFrame :: u64

record cls_images =
  find_image :: "u64 \<Rightarrow> binary_image option"
  has_unwind_info :: "binary_image \<Rightarrow> bool"

record unwind_context =
  uw_registers :: cls_context
  frameCount :: u32
  compactUnwindState :: compact_context
  lastFramePC :: u64
  repeatCount :: u32

definition FIRCLSUnwindMaxFrames :: u32 where "FIRCLSUnwindMaxFrames = 100000"
definition FIRCLSUnwindInfiniteRecursionCountThreshold :: u32 where "FIRCLSUnwindInfiniteRecursionCountThreshold = 10"

definition FIRCLSUnwindInit :: "cls_context \<Rightarrow> unwind_context" where
  "FIRCLSUnwindInit r = \<lparr>uw_registers = r, frameCount = 0, compactUnwindState = zero_compact, lastFramePC = 0, repeatCount = 0\<rparr>"

definition FIRCLSUnwindGetPC :: "unwind_context \<Rightarrow> u64" where
  "FIRCLSUnwindGetPC u = FIRCLSThreadContextGetPC (uw_registers u)"

definition FIRCLSUnwindGetStackPointer :: "unwind_context \<Rightarrow> u64" where
  "FIRCLSUnwindGetStackPointer u = FIRCLSThreadContextGetStackPointer (uw_registers u)"

definition FIRCLSUnwindGetFramePointer :: "unwind_context \<Rightarrow> u64" where
  "FIRCLSUnwindGetFramePointer u = FIRCLSThreadContextGetFramePointer (uw_registers u)"

definition FIRCLSUnwindGetFrameRepeatCount :: "unwind_context \<Rightarrow> u32" where
  "FIRCLSUnwindGetFrameRepeatCount u = repeatCount u"

definition FIRCLSUnwindContextHasValidPCAndSP :: "unwind_context \<Rightarrow> bool" where
  "FIRCLSUnwindContextHasValidPCAndSP u \<longleftrightarrow>
     is_valid_pointer (FIRCLSUnwindGetPC u) \<and> is_valid_pointer (FIRCLSUnwindGetStackPointer u)"

section \<open>The next frame\<close>

definition FIRCLSUnwindWithCompactUnwindInfo ::
    "cls_env \<Rightarrow> compact_abi \<Rightarrow> cls_images \<Rightarrow> dwarf_cfi \<Rightarrow> unwind_context \<Rightarrow> (bool \<times> unwind_context) option" where
  "FIRCLSUnwindWithCompactUnwindInfo e abi images garbage u =
    (case find_image images (FIRCLSUnwindGetPC u) of
       None \<Rightarrow> Some (False, u)
     | Some img \<Rightarrow>
         if \<not> has_unwind_info images img then Some (False, u)
         else (case FIRCLSCompactUnwindInit e abi (compactUnwindState u) (img_unwindInfo img) (img_ehFrame img)
               (baseAddress img) of (ok, x) \<Rightarrow>
           if \<not> ok then Some (False, u\<lparr>compactUnwindState := x\<rparr>)
           else do {
             (ok, x, ctx) \<leftarrow> FIRCLSCompactUnwindLookupAndCompute e abi garbage x (uw_registers u);
             Some (ok, u\<lparr>compactUnwindState := x, uw_registers := ctx\<rparr>) }))"

definition FIRCLSUnwindNextFrameUsingAllStrategies ::
    "cls_env \<Rightarrow> compact_abi \<Rightarrow> cls_images \<Rightarrow> dwarf_cfi \<Rightarrow> unwind_context \<Rightarrow> (bool \<times> unwind_context) option" where
  "FIRCLSUnwindNextFrameUsingAllStrategies e abi images garbage u =
    (if frameCount u \<ge> FIRCLSUnwindMaxFrames then Some (False, u)
     else
       let pc = (if frameCount u > 0 then FIRCLSUnwindGetPC u - 1 else FIRCLSUnwindGetPC u);
           u = (if frameCount u > 0 then u\<lparr>uw_registers := FIRCLSThreadContextSetPC (uw_registers u) pc\<rparr> else u) in
       if \<not> is_valid_pointer pc then Some (False, u)
       else if frameCount u = 0 then Some (True, u)
       else do {
         (ok, u) \<leftarrow> FIRCLSUnwindWithCompactUnwindInfo e abi images garbage u;
         if ok then Some (True, u)
         else if FIRCLSUnwindGetFramePointer u = 0 then
           Some (True, u\<lparr>uw_registers := FIRCLSThreadContextSetPC (uw_registers u) 0\<rparr>)
         else (case FIRCLSUnwindWithFramePointer e (uw_registers u) (frameCount u = 1) of (ok, ctx) \<Rightarrow>
           Some (ok, u\<lparr>uw_registers := ctx\<rparr>)) })"

definition FIRCLSUnwindNextFrame ::
    "cls_env \<Rightarrow> compact_abi \<Rightarrow> cls_images \<Rightarrow> dwarf_cfi \<Rightarrow> unwind_context \<Rightarrow> (bool \<times> unwind_context) option" where
  "FIRCLSUnwindNextFrame e abi images garbage u =
    (if \<not> FIRCLSUnwindContextHasValidPCAndSP u then Some (False, u)
     else do {
       (ok, u) \<leftarrow> FIRCLSUnwindNextFrameUsingAllStrategies e abi images garbage u;
       if \<not> ok then Some (False, u)
       else
         let pc = FIRCLSUnwindGetPC u; sp = FIRCLSUnwindGetStackPointer u in
         if \<not> is_valid_pointer pc then Some (False, u)
         else if \<not> is_valid_pointer sp then Some (False, u)
         else
           let repeats = (if lastFramePC u = pc then repeatCount u + 1 else 0) in
           Some (True, u\<lparr>repeatCount := repeats, frameCount := frameCount u + 1, lastFramePC := pc\<rparr>) })"

lemma all_strategies_count:
  "FIRCLSUnwindNextFrameUsingAllStrategies e abi images garbage u = Some (True, u') \<Longrightarrow>
   frameCount u' = frameCount u \<and> frameCount u < FIRCLSUnwindMaxFrames"
  unfolding FIRCLSUnwindNextFrameUsingAllStrategies_def FIRCLSUnwindWithCompactUnwindInfo_def Let_def
  by (auto simp: bind_eq_Some_conv FIRCLSUnwindMaxFrames_def split: if_splits option.splits prod.splits)

lemma next_frame_count:
  assumes "FIRCLSUnwindNextFrame e abi images garbage u = Some (True, u')"
  shows "unat (frameCount u') = unat (frameCount u) + 1" "unat (frameCount u) < 100000"
proof -
  have c: "frameCount u' = frameCount u + 1" "frameCount u < FIRCLSUnwindMaxFrames"
    using assms unfolding FIRCLSUnwindNextFrame_def Let_def
    by (auto simp: bind_eq_Some_conv split: if_splits dest!: all_strategies_count)
  show l: "unat (frameCount u) < 100000" using c(2) by (simp add: FIRCLSUnwindMaxFrames_def word_less_nat_alt)
  then show "unat (frameCount u') = unat (frameCount u) + 1" unfolding c(1) by (simp add: unat_word_ariths)
qed

lemma next_frame_measure:
  "FIRCLSUnwindNextFrame e abi images garbage u = Some (True, u') \<Longrightarrow> 100001 - unat (frameCount u') < 100001 - unat (frameCount u)"
  using next_frame_count [of e abi images garbage u u'] by simp

section \<open>Recording a thread\<close>

text \<open>
  The pcs written to the report, and the repeated pc with its count. Logging and the file are left
  out.
\<close>

function record_loop ::
    "cls_env \<Rightarrow> compact_abi \<Rightarrow> cls_images \<Rightarrow> dwarf_cfi \<Rightarrow> unwind_context \<Rightarrow> u64 \<Rightarrow> u32 \<Rightarrow> u64 list \<Rightarrow> (u64 list \<times> u64 \<times> u32) option" where
  "record_loop e abi images garbage u repeatedPC repeatedPCCount written =
    (case FIRCLSUnwindNextFrame e abi images garbage u of
       None \<Rightarrow> None
     | Some (ok, u') \<Rightarrow>
         if \<not> ok then Some (written, repeatedPC, repeatedPCCount)
         else
           let pc = FIRCLSUnwindGetPC u'; count = FIRCLSUnwindGetFrameRepeatCount u' in
           if repeatedPC = pc \<and> repeatedPC \<noteq> 0 then record_loop e abi images garbage u' repeatedPC count written
           else if count \<ge> FIRCLSUnwindInfiniteRecursionCountThreshold \<and> repeatedPC = 0
             then record_loop e abi images garbage u' pc repeatedPCCount written
           else record_loop e abi images garbage u' repeatedPC repeatedPCCount (written @ [pc]))"
  by pat_completeness auto
termination
  by (relation "measure (\<lambda>(e, abi, images, garbage, u, rest). 100001 - unat (frameCount u))")
    (auto dest!: next_frame_measure)

declare record_loop.simps [simp del]

definition FIRCLSProcessRecordThread ::
    "cls_env \<Rightarrow> compact_abi \<Rightarrow> cls_images \<Rightarrow> dwarf_cfi \<Rightarrow> cls_context \<Rightarrow> (u64 list \<times> u64 \<times> u32) option" where
  "FIRCLSProcessRecordThread e abi images garbage context =
    record_loop e abi images garbage (FIRCLSUnwindInit context) 0 0 []"

section \<open>Looking for a return address on the stack\<close>

definition FIRCLSUnwindIsAddressExecutable :: "cls_images \<Rightarrow> u64 \<Rightarrow> bool" where
  "FIRCLSUnwindIsAddressExecutable images address \<longleftrightarrow> find_image images address \<noteq> None"

text \<open>None when the loop does not end; otherwise its flag and the address found.\<close>

partial_function (option) FIRCLSUnwindFirstExecutableAddress ::
    "cls_env \<Rightarrow> cls_images \<Rightarrow> u64 \<Rightarrow> u64 \<Rightarrow> (bool \<times> u64) option" where
  "FIRCLSUnwindFirstExecutableAddress e images start stop =
    (case (if is_valid_pointer start then
             (case read_word e start of
                None \<Rightarrow> Some (False, 0)
              | Some address \<Rightarrow> if FIRCLSUnwindIsAddressExecutable images address then Some (True, address) else None)
           else None) of
       Some result \<Rightarrow> Some result
     | None \<Rightarrow>
         if start + 8 < stop then FIRCLSUnwindFirstExecutableAddress e images (start + 8) stop
         else Some (False, 0))"

end
