(* ===== verification/Cls_Data_Props.thy ===== *)
theory Cls_Data_Props
  imports Cls_Data
begin

text \<open>
  What the readers return on the bytes of a value. The variable-width readers shift in \<open>int\<close>, so
  they are right for small values only.
\<close>

section \<open>Bytes under the cursor\<close>

definition at_bytes :: "cls_env \<Rightarrow> u64 \<Rightarrow> u8 list \<Rightarrow> bool" where
  "at_bytes e c bs \<longleftrightarrow> unat c + length bs < 2 ^ 64 \<and>
     (\<forall>i < length bs. mapped e (c + of_nat i) \<and> cls_mem e (c + of_nat i) = bs ! i)"

lemma at_bytes_Cons:
  assumes "at_bytes e c (b # bs)"
  shows "FIRCLSParseUint8AndAdvance e c = Some (b, c + 1)" "at_bytes e (c + 1) bs"
proof -
  have l: "unat c + Suc (length bs) < 2 ^ 64" and a: "\<And>i. i < Suc (length bs) \<Longrightarrow> mapped e (c + of_nat i) \<and> cls_mem e (c + of_nat i) = (b # bs) ! i"
    using assms by (simp_all add: at_bytes_def)
  have d: "deref e c 1 = Some [b]" using a [of 0] by (simp add: deref_def rd_bytes_def)
  have "advance c 1 = Some (c + 1)" using l by (simp add: advance_def)
  then show "FIRCLSParseUint8AndAdvance e c = Some (b, c + 1)"
    using d by (simp add: FIRCLSParseUint8AndAdvance_def parse_bytes_def)
  have "unat (c + 1) = unat c + 1" using l by (simp add: unat_word_ariths)
  moreover have "mapped e (c + 1 + of_nat i) \<and> cls_mem e (c + 1 + of_nat i) = bs ! i" if "i < length bs" for i
    using a [of "Suc i"] that by (simp add: add.assoc)
  ultimately show "at_bytes e (c + 1) bs" using l by (simp add: at_bytes_def)
qed

lemma at_bytes_append:
  assumes "at_bytes e c (as @ bs)"
  shows "at_bytes e c as" "at_bytes e (c + of_nat (length as)) bs"
  using assms
proof (induction as arbitrary: c)
  case Nil
  { case 1 then show ?case by (simp add: at_bytes_def) }
  { case 2 then show ?case by simp }
next
  case (Cons a as)
  { case 1
    then have "at_bytes e (c + 1) (as @ bs)" using at_bytes_Cons(2) by fastforce
    from Cons(1) [OF this] 1 show ?case by (auto simp: at_bytes_def nth_append nth_Cons' split: if_splits) }
  { case 2
    then have "at_bytes e (c + 1) (as @ bs)" using at_bytes_Cons(2) by fastforce
    from Cons(2) [OF this] show ?case by (simp add: add.assoc) }
qed

section \<open>ULEB128\<close>

fun uleb_bytes :: "nat \<Rightarrow> u8 list" where
  "uleb_bytes v = (if v < 128 then [of_nat v] else of_nat (v mod 128 + 128) # uleb_bytes (v div 128))"

declare uleb_bytes.simps [simp del]

lemma byte_parts:
  assumes "n < 128"
  shows "unat (0x7F AND (of_nat n :: u8)) = n" "0x80 AND (of_nat n :: u8) = 0"
    "unat (0x7F AND (of_nat (n + 128) :: u8)) = n" "0x80 AND (of_nat (n + 128) :: u8) \<noteq> 0"
proof -
  have u: "unat (of_nat n :: u8) = n" "unat (of_nat (n + 128) :: u8) = n + 128"
    using assms by (simp_all add: unat_of_nat_eq del: of_nat_add)
  show "unat (0x7F AND (of_nat n :: u8)) = n" "unat (0x7F AND (of_nat (n + 128) :: u8)) = n"
    unfolding and.commute [of "0x7F"] unat_and_7F u using assms by simp_all
  show "0x80 AND (of_nat n :: u8) = 0" "0x80 AND (of_nat (n + 128) :: u8) \<noteq> 0"
    unfolding and.commute [of "0x80"] byte_and_80 u using assms by simp_all
qed

lemma or_shifted:
  assumes "unat (r :: u64) < 2 ^ s" "x * 2 ^ s < 2 ^ 31" "s < 32"
  shows "unat (r OR of_nat (x * 2 ^ s)) = unat r + x * 2 ^ s"
proof -
  have l: "x * 2 ^ s < 2 ^ 64" by (rule less_trans [OF assms(2)]) simp
  have "x \<le> x * 2 ^ s" by simp
  then have "x < 2 ^ 64" using l by (rule le_less_trans)
  then have u: "unat (of_nat x :: u64) = x" by (rule unat_of_nat_u64)
  have e: "(of_nat (x * 2 ^ s) :: u64) = push_bit s (of_nat x)" by (simp add: push_bit_eq_mult)
  have "unat (r OR push_bit s (of_nat x :: u64)) = unat r + unat (of_nat x :: u64) * 2 ^ s"
    by (rule unat_or_shift [OF assms(1)]) (use u l in simp)
  then show ?thesis unfolding e u .
qed

text \<open>The loop after \<open>s / 7\<close> bytes: right while the value fits in 31 bits, undefined beyond.\<close>

lemma uleb_loop_bytes:
  assumes "at_bytes e c (uleb_bytes v)" "unat r < 2 ^ s" "s + 7 * n = 56" "s \<le> 35" "s = 35 \<longrightarrow> 0 < v"
  shows "uleb_loop e n r s c =
    (if v * 2 ^ s < 2 ^ 31 then Some (of_nat (unat r + v * 2 ^ s), c + of_nat (length (uleb_bytes v))) else None)"
  using assms
proof (induction v arbitrary: c r s n rule: uleb_bytes.induct)
  case (1 v)
  obtain k where n: "n = Suc k" using 1(4,5) by (cases n) auto
  show ?case
  proof (cases "s < 32")
    case False
    then have "s = 35" using 1(4,5) n by presburger
    then have "0 < v" using 1(6) by simp
    have "(2 :: nat) ^ 31 \<le> 2 ^ s" by (rule power_increasing) (use False in simp_all)
    also have "2 ^ s \<le> v * 2 ^ s" using \<open>0 < v\<close> by simp
    finally have "\<not> v * 2 ^ s < 2 ^ 31" by simp
    moreover have "uleb_loop e n r s c = None"
      using False at_bytes_Cons(1) [of e c] 1(2)
      by (cases "v < 128") (auto simp: n int_shl_def uleb_bytes.simps [of v] split: if_splits)
    ultimately show ?thesis by simp
  next
    case s: True
    show ?thesis
    proof (cases "v < 128")
      case True
      have b: "FIRCLSParseUint8AndAdvance e c = Some (of_nat v, c + 1)"
        using 1(2) True at_bytes_Cons(1) [of e c "of_nat v" "[]"] by (simp add: uleb_bytes.simps [of v])
      have w: "r OR of_nat (v * 2 ^ s) = of_nat (unat r + v * 2 ^ s)" if "v * 2 ^ s < 2 ^ 31"
      proof -
        have "r OR of_nat (v * 2 ^ s) = of_nat (unat (r OR of_nat (v * 2 ^ s)))" by simp
        then show ?thesis unfolding or_shifted [OF 1(3) that s] .
      qed
      show ?thesis using True s w byte_parts(1,2) [OF True]
        by (simp add: n b int_shl_def uleb_bytes.simps [of v] del: of_nat_mult of_nat_add)
    next
      case False
      define d where "d = v mod 128"
      have d: "d < 128" "v = d + v div 128 * 128" by (simp_all add: d_def)
      have bs: "uleb_bytes v = of_nat (d + 128) # uleb_bytes (v div 128)" using False by (simp add: uleb_bytes.simps [of v] d_def del: of_nat_add)
      have b: "FIRCLSParseUint8AndAdvance e c = Some (of_nat (d + 128), c + 1)" "at_bytes e (c + 1) (uleb_bytes (v div 128))"
        using 1(2) at_bytes_Cons [of e c "of_nat (d + 128)" "uleb_bytes (v div 128)"] by (simp_all only: bs)
      have split: "v * 2 ^ s = d * 2 ^ s + v div 128 * 2 ^ (s + 7)" by (subst d(2)) (simp add: power_add algebra_simps)
      show ?thesis
      proof (cases "d * 2 ^ s < 2 ^ 31")
        case small: True
        note u = or_shifted [OF 1(3) small s]
        have "d * 2 ^ s \<le> 127 * 2 ^ s" using d(1) by (intro mult_le_mono1) simp
        moreover have "(2 :: nat) ^ (s + 7) = 127 * 2 ^ s + 2 ^ s" by (simp add: power_add)
        ultimately have r': "unat (r OR of_nat (d * 2 ^ s)) < 2 ^ (s + 7)" unfolding u using 1(3) by linarith
        have ih: "uleb_loop e k (r OR of_nat (d * 2 ^ s)) (s + 7) (c + 1) =
            (if v div 128 * 2 ^ (s + 7) < 2 ^ 31 then Some (of_nat (unat (r OR of_nat (d * 2 ^ s)) + v div 128 * 2 ^ (s + 7)),
              c + 1 + of_nat (length (uleb_bytes (v div 128)))) else None)"
        proof (rule 1(1) [OF False b(2) r'])
          show "s + 7 + 7 * k = 56" using 1(4) n by simp
          show "s + 7 \<le> 35" using 1(4) n s by presburger
          show "s + 7 = 35 \<longrightarrow> 0 < v div 128" using False by (simp add: div_greater_zero_iff)
        qed
        have fits: "v div 128 * 2 ^ (s + 7) < 2 ^ 31 \<longleftrightarrow> v * 2 ^ s < 2 ^ 31"
        proof (cases "s + 7 \<le> 31")
          case True
          then have m: "(2 :: nat) ^ 31 = 2 ^ (31 - (s + 7)) * 2 ^ (s + 7)" by (simp flip: power_add)
          have dl: "d * 2 ^ s < 2 ^ (s + 7)" using d(1) by (simp add: power_add)
          show ?thesis
          proof
            assume "v div 128 * 2 ^ (s + 7) < 2 ^ 31"
            then have "v div 128 < 2 ^ (31 - (s + 7))" unfolding m by simp
            then have "v div 128 + 1 \<le> 2 ^ (31 - (s + 7))" by simp
            then have "(v div 128 + 1) * 2 ^ (s + 7) \<le> 2 ^ 31" unfolding m by (rule mult_le_mono1)
            then show "v * 2 ^ s < 2 ^ 31" unfolding split using dl by (simp only: distrib_right mult_1)
          next
            assume "v * 2 ^ s < 2 ^ 31"
            then show "v div 128 * 2 ^ (s + 7) < 2 ^ 31" unfolding split by linarith
          qed
        next
          case far: False
          have "(2 :: nat) ^ 31 \<le> 2 ^ (s + 7)" by (rule power_increasing) (use far in simp_all)
          also have "2 ^ (s + 7) \<le> v div 128 * 2 ^ (s + 7)" using False by (simp add: Suc_le_eq div_greater_zero_iff)
          finally show ?thesis unfolding split by linarith
        qed
        have "uleb_loop e n r s c = uleb_loop e k (r OR of_nat (d * 2 ^ s)) (s + 7) (c + 1)"
          using small s byte_parts(3,4) [OF d(1)] by (simp add: n b(1) int_shl_def del: of_nat_add of_nat_mult)
        then show ?thesis unfolding ih fits u split by (simp add: bs add.assoc del: of_nat_mult)
      next
        case big: False
        then have "\<not> v * 2 ^ s < 2 ^ 31" unfolding split by simp
        moreover have "uleb_loop e n r s c = None"
          using big byte_parts(3) [OF d(1)] by (simp add: n b(1) int_shl_def del: of_nat_add)
        ultimately show ?thesis by simp
      qed
    qed
  qed
qed

lemma uleb_value:
  assumes "at_bytes e c (uleb_bytes v)"
  shows "FIRCLSParseULEB128AndAdvance e c =
    (if v < 2 ^ 31 then Some (of_nat v, c + of_nat (length (uleb_bytes v))) else None)"
  using uleb_loop_bytes [OF assms, of 0 0 8] by (simp add: FIRCLSParseULEB128AndAdvance_def)

section \<open>LEB128\<close>

function sleb_bytes :: "int \<Rightarrow> u8 list" where
  "sleb_bytes v = (if - 64 \<le> v \<and> v < 64 then [of_nat (nat (v mod 128))]
     else of_nat (nat (v mod 128) + 128) # sleb_bytes (v div 128))"
  by pat_completeness auto
termination by (relation "measure (\<lambda>v. nat \<bar>v\<bar>)") auto

declare sleb_bytes.simps [simp del]

lemma byte_bit6: "((b :: u8) AND 0x40 = 0) \<longleftrightarrow> even (unat b div 64)"
proof -
  have h: "(0x40 :: u8) = 2 ^ 6" by simp
  have "(b AND 2 ^ 6 = 0) \<longleftrightarrow> \<not> bit b 6" by (rule and_exp_eq_0_iff_not_bit)
  also have "\<dots> \<longleftrightarrow> even (unat b div 64)"
    by (simp add: bit_iff_odd [of "unat b"] flip: bit_unsigned_iff [where 'a = nat and 'b = 8, simplified])
  finally show ?thesis unfolding h .
qed

lemma byte_40: "n < 128 \<Longrightarrow> 0x40 AND (of_nat n :: u8) \<noteq> 0 \<longleftrightarrow> 64 \<le> n"
proof -
  assume n: "n < 128"
  have u: "unat (of_nat n :: u8) = n" using n by (simp add: unat_of_nat_eq)
  have "((of_nat n :: u8) AND 0x40 = 0) \<longleftrightarrow> even (unat (of_nat n :: u8) div 64)" by (rule byte_bit6)
  also have "\<dots> \<longleftrightarrow> n < 64"
  proof -
    have "n div 64 < 2" using n by linarith
    then show ?thesis unfolding u by (auto simp: less_2_cases_iff div_eq_0_iff)
  qed
  finally show ?thesis by (simp add: and.commute not_less)
qed

text \<open>The loop after \<open>s / 7\<close> bytes gathers the low bits of the value; the last byte has its sign.\<close>

lemma leb_loop_bytes:
  assumes "at_bytes e c (sleb_bytes v)" "unat r < 2 ^ s" "s + 7 * length (sleb_bytes v) \<le> 28" "length (sleb_bytes v) \<le> n"
  shows "\<exists>b R. leb_loop e n r s b0 c = Some (R, s + 7 * length (sleb_bytes v), b, c + of_nat (length (sleb_bytes v))) \<and>
    unat R = unat r + nat (v mod 2 ^ (7 * length (sleb_bytes v))) * 2 ^ s \<and> (0x40 AND b \<noteq> 0 \<longleftrightarrow> v < 0) \<and>
    - (2 ^ (7 * length (sleb_bytes v) - 1)) \<le> v \<and> v < 2 ^ (7 * length (sleb_bytes v) - 1)"
  using assms
proof (induction v arbitrary: c r s n b0 rule: sleb_bytes.induct)
  case (1 v)
  define d where "d = nat (v mod 128)"
  have d: "d < 128" "int d = v mod 128" by (simp_all add: d_def)
  have s: "s + 7 \<le> 28" and n: "n \<noteq> 0" using 1(4,5) by (auto simp: sleb_bytes.simps [of v] split: if_splits)
  then obtain k where k: "n = Suc k" by (cases n) auto
  have "d * 2 ^ s \<le> 127 * 2 ^ s" using d(1) by (intro mult_le_mono1) simp
  moreover have "(2 :: nat) ^ (s + 7) = 127 * 2 ^ s + 2 ^ s" by (simp add: power_add)
  moreover have "(2 :: nat) ^ (s + 7) \<le> 2 ^ 28" by (rule power_increasing [OF s]) simp
  moreover have "(2 :: nat) ^ 28 < 2 ^ 31" by simp
  ultimately have small: "d * 2 ^ s < 2 ^ 31" by linarith
  have r': "unat r + d * 2 ^ s < 2 ^ (s + 7)"
    using \<open>d * 2 ^ s \<le> 127 * 2 ^ s\<close> \<open>2 ^ (s + 7) = 127 * 2 ^ s + 2 ^ s\<close> 1(3) by linarith
  have u: "unat (r OR of_nat (d * 2 ^ s)) = unat r + d * 2 ^ s" by (rule or_shifted [OF 1(3) small]) (use s in simp)
  show ?case
  proof (cases "- 64 \<le> v \<and> v < 64")
    case True
    then have bs: "sleb_bytes v = [of_nat d]" by (simp add: sleb_bytes.simps [of v] d_def)
    have b: "FIRCLSParseUint8AndAdvance e c = Some (of_nat d, c + 1)" using 1(2) at_bytes_Cons(1) [of e c "of_nat d" "[]"] by (simp add: bs)
    have "leb_loop e n r s b0 c = Some (r OR of_nat (d * 2 ^ s), s + 7, of_nat d, c + 1)"
      using small s byte_parts(1,2) [OF d(1)] by (simp add: k b int_shl_def del: of_nat_mult)
    moreover have "64 \<le> d \<longleftrightarrow> v < 0"
    proof (cases "v < 0")
      case neg: True
      have "v mod 128 = (v + 128) mod 128" by simp
      also have "\<dots> = v + 128" using neg True by (intro mod_pos_pos_trivial) simp_all
      finally show ?thesis using neg True d(2) by linarith
    next
      case pos: False
      then have "v mod 128 = v" using True by (intro mod_pos_pos_trivial) simp_all
      then show ?thesis using pos True d(2) by linarith
    qed
    ultimately show ?thesis using u True byte_40 [OF d(1)] by (simp add: bs d_def)
  next
    case False
    define L where "L = length (sleb_bytes (v div 128))"
    have no: "(- 64 \<le> v \<and> v < 64) = False" using False by simp
    have bs: "sleb_bytes v = of_nat (d + 128) # sleb_bytes (v div 128)"
      by (simp only: sleb_bytes.simps [of v] no if_False d_def)
    have L: "0 < L" unfolding L_def by (simp add: sleb_bytes.simps [of "v div 128"])
    have b: "FIRCLSParseUint8AndAdvance e c = Some (of_nat (d + 128), c + 1)" "at_bytes e (c + 1) (sleb_bytes (v div 128))"
      using 1(2) at_bytes_Cons [of e c "of_nat (d + 128)" "sleb_bytes (v div 128)"] by (simp_all only: bs)
    have lens: "s + 7 + 7 * L \<le> 28" "L \<le> k" using 1(4,5) by (simp_all add: bs L_def k)
    have r2: "unat (r OR of_nat (d * 2 ^ s)) < 2 ^ (s + 7)" unfolding u by (rule r')
    obtain b R where ih: "leb_loop e k (r OR of_nat (d * 2 ^ s)) (s + 7) (of_nat (d + 128)) (c + 1) =
        Some (R, s + 7 + 7 * L, b, c + 1 + of_nat L)"
      "unat R = unat (r OR of_nat (d * 2 ^ s)) + nat (v div 128 mod 2 ^ (7 * L)) * 2 ^ (s + 7)"
      "0x40 AND b \<noteq> 0 \<longleftrightarrow> v div 128 < 0" "- (2 ^ (7 * L - 1)) \<le> v div 128" "v div 128 < 2 ^ (7 * L - 1)"
      using 1(1) [OF False b(2) r2, of k "of_nat (d + 128)"] lens unfolding L_def by blast
    have "leb_loop e n r s b0 c = leb_loop e k (r OR of_nat (d * 2 ^ s)) (s + 7) (of_nat (d + 128)) (c + 1)"
      using small s byte_parts(3,4) [OF d(1)] by (simp add: k b(1) int_shl_def del: of_nat_add of_nat_mult)
    moreover have "nat (v mod 2 ^ (7 * Suc L)) * 2 ^ s = d * 2 ^ s + nat (v div 128 mod 2 ^ (7 * L)) * 2 ^ (s + 7)"
    proof -
      have "v mod (128 * 2 ^ (7 * L)) = 128 * (v div 128 mod 2 ^ (7 * L)) + v mod 128" by (rule zmod_zmult2_eq) simp
      then have "nat (v mod 2 ^ (7 * Suc L)) = 128 * nat (v div 128 mod 2 ^ (7 * L)) + d"
        by (simp add: power_add d_def nat_add_distrib nat_mult_distrib)
      then show ?thesis by (simp add: power_add algebra_simps)
    qed
    moreover have "- (2 ^ (7 * Suc L - 1)) \<le> v \<and> v < 2 ^ (7 * Suc L - 1)"
    proof -
      have p: "(2 :: int) ^ (7 * Suc L - 1) = 128 * 2 ^ (7 * L - 1)" using L by (cases L) (simp_all add: power_add)
      have "v = 128 * (v div 128) + v mod 128" "0 \<le> v mod 128" "v mod 128 < 128" by simp_all
      then show ?thesis unfolding p using ih(4,5) by linarith
    qed
    moreover have "v div 128 < 0 \<longleftrightarrow> v < 0" by (simp add: pos_imp_zdiv_neg_iff)
    ultimately show ?thesis using ih u by (simp add: bs add.assoc flip: L_def)
  qed
qed

lemma or_sign: "unat (r :: u64) < 2 ^ k \<Longrightarrow> r OR (- (2 ^ k)) = r - 2 ^ k"
proof -
  assume "unat r < 2 ^ k"
  then have t: "take_bit k r = r" by (rule take_bit_self)
  have h: "r AND NOT (mask k) = 0" by (subst t [symmetric]) (rule bit_eqI, auto simp: bit_simps)
  have n: "- (2 ^ k) = NOT (mask k :: u64)" by (simp add: mask_eq_exp_minus_1 minus_eq_not_minus_1)
  have "r OR NOT (mask k) = r + NOT (mask k)" using disjunctive_add_eq_or [OF h] by simp
  then show ?thesis unfolding n [symmetric] by simp
qed

lemma sleb_length: "0 < k \<Longrightarrow> - (2 ^ (7 * k - 1)) \<le> v \<Longrightarrow> v < 2 ^ (7 * k - 1) \<Longrightarrow> length (sleb_bytes v) \<le> k"
proof (induction k arbitrary: v)
  case (Suc k)
  show ?case
  proof (cases "- 64 \<le> v \<and> v < 64")
    case True
    then show ?thesis by (simp add: sleb_bytes.simps [of v])
  next
    case False
    have k: "0 < k"
    proof (rule ccontr)
      assume "\<not> 0 < k"
      then show False using Suc.prems False by simp
    qed
    then have p: "(2 :: int) ^ (7 * Suc k - 1) = 128 * 2 ^ (7 * k - 1)" by (cases k) (simp_all add: power_add)
    have "v = 128 * (v div 128) + v mod 128" "0 \<le> v mod 128" "v mod 128 < 128" by simp_all
    then have "- (2 ^ (7 * k - 1)) \<le> v div 128" "v div 128 < 2 ^ (7 * k - 1)" using Suc.prems unfolding p by linarith+
    from Suc.IH [OF k this] False show ?thesis by (simp add: sleb_bytes.simps [of v])
  qed
qed simp

lemma sleb_value:
  assumes "at_bytes e c (sleb_bytes v)" "- (2 ^ 27) \<le> v" "v < 2 ^ 27"
  shows "FIRCLSParseLEB128AndAdvance e c = Some (of_int v, c + of_nat (length (sleb_bytes v)))"
proof -
  define k where "k = length (sleb_bytes v)"
  have l: "k \<le> 4" unfolding k_def by (rule sleb_length) (use assms in simp_all)
  then obtain b R where r: "leb_loop e 8 0 0 0 c = Some (R, 7 * k, b, c + of_nat k)" "unat R = nat (v mod 2 ^ (7 * k))"
    "0x40 AND b \<noteq> 0 \<longleftrightarrow> v < 0" "- (2 ^ (7 * k - 1)) \<le> v" "v < 2 ^ (7 * k - 1)"
    using leb_loop_bytes [OF assms(1), of 0 0 8 0] by (auto simp: k_def)
  have k: "0 < k" by (simp add: k_def sleb_bytes.simps [of v])
  have p: "(2 :: int) ^ (7 * k) = 2 * 2 ^ (7 * k - 1)" using k by (metis mult_pos_pos power_eq_if zero_less_numeral less_numeral_extra(3))
  have R: "R = of_int (v mod 2 ^ (7 * k))"
  proof -
    have "R = of_nat (unat R)" by simp
    also have "\<dots> = of_int (v mod 2 ^ (7 * k))" unfolding r(2) by (rule of_nat_nat) simp
    finally show ?thesis .
  qed
  show ?thesis
  proof (cases "v < 0")
    case True
    have "v mod 2 ^ (7 * k) = (v + 2 ^ (7 * k)) mod 2 ^ (7 * k)" by simp
    also have "\<dots> = v + 2 ^ (7 * k)" using True r(4) p by (intro mod_pos_pos_trivial) linarith+
    finally have m: "v mod 2 ^ (7 * k) = v + 2 ^ (7 * k)" .
    have "unat R < 2 ^ (7 * k)" unfolding r(2) by (simp add: nat_less_iff)
    from or_sign [OF this] have "R OR (- (2 ^ (7 * k))) = of_int v" unfolding R m by simp
    moreover have "(2 :: nat) ^ (7 * k) \<le> 2 ^ 28" by (rule power_increasing) (use l in simp_all)
    then have "(2 :: nat) ^ (7 * k) < 2 ^ 31" by (rule le_less_trans) simp
    ultimately show ?thesis using r True l by (simp add: FIRCLSParseLEB128AndAdvance_def int_shl_def k_def)
  next
    case False
    then have "v mod 2 ^ (7 * k) = v" using r(5) p by (intro mod_pos_pos_trivial) linarith+
    then have "R = of_int v" using R by simp
    then show ?thesis using r False by (simp add: FIRCLSParseLEB128AndAdvance_def k_def)
  qed
qed

section \<open>The property\<close>

text \<open>An address space with given bytes at an address, all of it mapped.\<close>

definition list_env :: "u64 \<Rightarrow> u8 list \<Rightarrow> cls_env" where
  "list_env a bs = \<lparr>cls_mem = wr_bytes (\<lambda>_. 0) a bs, mapped = (\<lambda>_. True), vm_read = (\<lambda>_ _. None)\<rparr>"

lemma list_env_at: "unat a + length bs < 2 ^ 64 \<Longrightarrow> at_bytes (list_env a bs) a bs"
  by (simp add: at_bytes_def list_env_def wr_bytes_def unat_of_nat_eq)

lemma uint8_list_env:
  "unat a + length bs < 2 ^ 64 \<Longrightarrow> i < length bs \<Longrightarrow>
   FIRCLSParseUint8AndAdvance (list_env a bs) (a + of_nat i) = Some (bs ! i, a + of_nat (i + 1))"
proof -
  assume h: "unat a + length bs < 2 ^ 64" "i < length bs"
  then have "bs = take i bs @ bs ! i # drop (i + 1) bs" by (simp add: id_take_nth_drop)
  then have "at_bytes (list_env a bs) a (take i bs @ bs ! i # drop (i + 1) bs)" using list_env_at [OF h(1)] by simp
  from at_bytes_Cons(1) [OF at_bytes_append(2) [OF this]] h(2) show ?thesis by (simp add: min_def add.assoc)
qed

lemma sleb_limit: "sleb_bytes (- (2 ^ 27) - 1) = [0xFF, 0xFF, 0xFF, 0xBF, 0x7F]"
proof -
  have 1: "sleb_bytes (- 134217729) = 0xFF # sleb_bytes (- 1048577)" by (subst sleb_bytes.simps) simp
  have 2: "sleb_bytes (- 1048577) = 0xFF # sleb_bytes (- 8193)" by (subst sleb_bytes.simps) simp
  have 3: "sleb_bytes (- 8193) = 0xFF # sleb_bytes (- 65)" by (subst sleb_bytes.simps) simp
  have 4: "sleb_bytes (- 65) = 0xBF # sleb_bytes (- 1)" by (subst sleb_bytes.simps) simp
  have 5: "sleb_bytes (- 1) = [0x7F]" by (subst sleb_bytes.simps) simp
  have "- (2 ^ 27) - 1 = (- 134217729 :: int)" by simp
  then show ?thesis by (simp only: 1 2 3 4 5)
qed

lemma leb_five:
  assumes "FIRCLSParseUint8AndAdvance e a0 = Some (0xFF, a1)" "FIRCLSParseUint8AndAdvance e a1 = Some (0xFF, a2)"
    "FIRCLSParseUint8AndAdvance e a2 = Some (0xFF, a3)" "FIRCLSParseUint8AndAdvance e a3 = Some (0xBF, a4)"
    "FIRCLSParseUint8AndAdvance e a4 = Some (0x7F, a5)"
  shows "FIRCLSParseLEB128AndAdvance e a0 = None"
proof -
  have f: "leb_loop e (Suc (Suc (Suc (Suc (Suc n))))) 0 0 0 a0 = None" for n
    using assms by (simp add: int_shl_def)
  have "leb_loop e 8 0 0 0 a0 = None" using f [of 3] by simp
  then show ?thesis by (simp add: FIRCLSParseLEB128AndAdvance_def)
qed

text \<open>C40: the variable-width readers shift in \<open>int\<close>. On the shortest encoding of an unsigned value, the
  ULEB128 reader returns the value and moves behind it when the value is below \<open>2\<^sup>3\<^sup>1\<close>, and is undefined
  for every larger one; the LEB128 reader returns every signed value of at most 28 bits, and is
  undefined already for the next negative one.\<close>

theorem leb128_int_shift:
  assumes "at_bytes e c (uleb_bytes v)" "at_bytes e d (sleb_bytes w)" "- (2 ^ 27) \<le> w" "w < 2 ^ 27"
    and "at_bytes e f (sleb_bytes (- (2 ^ 27) - 1))"
  shows "FIRCLSParseULEB128AndAdvance e c =
      (if v < 2 ^ 31 then Some (of_nat v, c + of_nat (length (uleb_bytes v))) else None) \<and>
    FIRCLSParseLEB128AndAdvance e d = Some (of_int w, d + of_nat (length (sleb_bytes w))) \<and>
    FIRCLSParseLEB128AndAdvance e f = None"
proof (intro conjI)
  show "FIRCLSParseULEB128AndAdvance e c =
      (if v < 2 ^ 31 then Some (of_nat v, c + of_nat (length (uleb_bytes v))) else None)" by (rule uleb_value [OF assms(1)])
  show "FIRCLSParseLEB128AndAdvance e d = Some (of_int w, d + of_nat (length (sleb_bytes w)))"
    by (rule sleb_value [OF assms(2-4)])
  have b: "at_bytes e f [0xFF, 0xFF, 0xFF, 0xBF, 0x7F]" using assms(5) unfolding sleb_limit .
  note b1 = at_bytes_Cons [OF b] note b2 = at_bytes_Cons [OF b1(2)] note b3 = at_bytes_Cons [OF b2(2)]
  note b4 = at_bytes_Cons [OF b3(2)] note b5 = at_bytes_Cons [OF b4(2)]
  show "FIRCLSParseLEB128AndAdvance e f = None"
    by (rule leb_five [OF b1(1) b2(1) b3(1) b4(1) b5(1)])
qed

lemma at_bytes_parts:
  "at_bytes e c (as @ bs) \<Longrightarrow> at_bytes e c as \<and> at_bytes e (c + of_nat (length as)) bs"
  by (simp add: at_bytes_append)

definition leb_env :: cls_env where
  "leb_env = list_env 4096 (uleb_bytes 300 @ uleb_bytes (2 ^ 31) @ sleb_bytes (- 5) @ sleb_bytes (- (2 ^ 27) - 1))"

lemma leb_env_bytes:
  "uleb_bytes 300 = [0xAC, 0x02]" "uleb_bytes (2 ^ 31) = [0x80, 0x80, 0x80, 0x80, 0x08]" "sleb_bytes (- 5) = [0x7B]"
proof -
  have 1: "uleb_bytes 2 = [0x02]" "uleb_bytes 8 = [0x08]" by (simp_all add: uleb_bytes.simps)
  show "uleb_bytes 300 = [0xAC, 0x02]" using 1 by (subst uleb_bytes.simps) simp
  have 2: "uleb_bytes 1024 = [0x80, 0x08]" using 1 by (subst uleb_bytes.simps) simp
  have 3: "uleb_bytes 131072 = [0x80, 0x80, 0x08]" using 2 by (subst uleb_bytes.simps) simp
  have 4: "uleb_bytes 16777216 = [0x80, 0x80, 0x80, 0x08]" using 3 by (subst uleb_bytes.simps) simp
  show "uleb_bytes (2 ^ 31) = [0x80, 0x80, 0x80, 0x80, 0x08]" using 4 by (subst uleb_bytes.simps) simp
  show "sleb_bytes (- 5) = [0x7B]" by (subst sleb_bytes.simps) simp
qed

lemma leb_env_at:
  "at_bytes leb_env 4096 (uleb_bytes 300)" "at_bytes leb_env 4098 (uleb_bytes (2 ^ 31))"
  "at_bytes leb_env 4103 (sleb_bytes (- 5))" "at_bytes leb_env 4104 (sleb_bytes (- (2 ^ 27) - 1))"
proof -
  have l: "length (uleb_bytes 300) = 2" "length (uleb_bytes (2 ^ 31)) = 5" "length (sleb_bytes (- 5)) = 1"
    "length (sleb_bytes (- (2 ^ 27) - 1)) = 5" unfolding leb_env_bytes sleb_limit by simp_all
  have "at_bytes leb_env 4096 (uleb_bytes 300 @ uleb_bytes (2 ^ 31) @ sleb_bytes (- 5) @ sleb_bytes (- (2 ^ 27) - 1))"
    unfolding leb_env_def by (rule list_env_at) (simp only: length_append l, simp)
  from at_bytes_parts [OF this] have a: "at_bytes leb_env 4096 (uleb_bytes 300)"
    and r: "at_bytes leb_env 4098 (uleb_bytes (2 ^ 31) @ sleb_bytes (- 5) @ sleb_bytes (- (2 ^ 27) - 1))"
    by (simp_all only: l) simp
  from at_bytes_parts [OF r] have b: "at_bytes leb_env 4098 (uleb_bytes (2 ^ 31))"
    and r: "at_bytes leb_env 4103 (sleb_bytes (- 5) @ sleb_bytes (- (2 ^ 27) - 1))"
    by (simp_all only: l) simp
  from at_bytes_parts [OF r] have c: "at_bytes leb_env 4103 (sleb_bytes (- 5))"
    and d: "at_bytes leb_env 4104 (sleb_bytes (- (2 ^ 27) - 1))"
    by (simp_all only: l) simp
  show "at_bytes leb_env 4096 (uleb_bytes 300)" "at_bytes leb_env 4098 (uleb_bytes (2 ^ 31))"
    "at_bytes leb_env 4103 (sleb_bytes (- 5))" "at_bytes leb_env 4104 (sleb_bytes (- (2 ^ 27) - 1))"
    by (fact a, fact b, fact c, fact d)
qed

theorem leb128_int_shift_witness:
  "FIRCLSParseULEB128AndAdvance leb_env 4096 = Some (300, 4098) \<and>
   FIRCLSParseULEB128AndAdvance leb_env 4098 = None \<and>
   FIRCLSParseLEB128AndAdvance leb_env 4103 = Some (- 5, 4104) \<and>
   FIRCLSParseLEB128AndAdvance leb_env 4104 = None"
proof -
  note l = leb128_int_shift [OF _ leb_env_at(3) _ _ leb_env_at(4)]
  have 1: "FIRCLSParseULEB128AndAdvance leb_env 4096 = Some (300, 4098)"
    "FIRCLSParseLEB128AndAdvance leb_env 4103 = Some (- 5, 4104)" "FIRCLSParseLEB128AndAdvance leb_env 4104 = None"
    using l [OF leb_env_at(1)] unfolding leb_env_bytes by simp_all
  have "FIRCLSParseULEB128AndAdvance leb_env 4098 = None" using l [OF leb_env_at(2)] by simp
  then show ?thesis using 1 by simp
qed

end
