(* ===== verification/Cls_Expr_Props.thy ===== *)
theory Cls_Expr_Props
  imports Cls_Expr Cls_Data_Props
begin

text \<open>
  The expression machine runs well-typed programs right: operations with their byte encoding, a
  type system that follows the depth of the stack, a reference evaluation over lists, and the
  proof that the machine agrees with it.
\<close>

section \<open>Operations, their bytes and their meaning\<close>

datatype dwarf_op =
    Op_deref
  | Op_dup
  | Op_and
  | Op_plus
  | Op_swap
  | Op_plus_uconst nat
  | Op_ne
  | Op_lit nat
  | Op_breg nat int
  | Op_deref_size nat

fun op_bytes :: "dwarf_op \<Rightarrow> u8 list" where
  "op_bytes Op_deref = [0x06]"
| "op_bytes Op_dup = [0x12]"
| "op_bytes Op_and = [0x1A]"
| "op_bytes Op_plus = [0x22]"
| "op_bytes Op_swap = [0x16]"
| "op_bytes (Op_plus_uconst n) = 0x23 # uleb_bytes n"
| "op_bytes Op_ne = [0x2E]"
| "op_bytes (Op_lit n) = [of_nat (0x30 + n)]"
| "op_bytes (Op_breg n i) = of_nat (0x70 + n) # sleb_bytes i"
| "op_bytes (Op_deref_size k) = [0x94, of_nat k]"

text \<open>The depth after an operation that is well typed at a depth.\<close>

fun op_type :: "dwarf_op \<Rightarrow> nat \<Rightarrow> nat option" where
  "op_type Op_deref d = (if 1 \<le> d then Some d else None)"
| "op_type Op_dup d = (if 1 \<le> d \<and> d < CLS_DWARF_EXPRESSION_STACK_SIZE then Some (d + 1) else None)"
| "op_type Op_and d = (if 2 \<le> d then Some (d - 1) else None)"
| "op_type Op_plus d = (if 2 \<le> d then Some (d - 1) else None)"
| "op_type Op_swap d = (if 2 \<le> d then Some d else None)"
| "op_type (Op_plus_uconst n) d = (if 1 \<le> d \<and> n < 2 ^ 31 then Some d else None)"
| "op_type Op_ne d = (if 2 \<le> d then Some (d - 1) else None)"
| "op_type (Op_lit n) d = (if n < 32 \<and> d < CLS_DWARF_EXPRESSION_STACK_SIZE then Some (d + 1) else None)"
| "op_type (Op_breg n i) d =
     (if n < 32 \<and> - (2 ^ 27) \<le> i \<and> i < 2 ^ 27 \<and> d < CLS_DWARF_EXPRESSION_STACK_SIZE then Some (d + 1) else None)"
| "op_type (Op_deref_size k) d = (if 1 \<le> d \<and> k \<in> {1, 2, 4, 8} then Some d else None)"

fun prog_type :: "dwarf_op list \<Rightarrow> nat \<Rightarrow> nat option" where
  "prog_type [] d = Some d"
| "prog_type (op # ops) d = Option.bind (op_type op d) (prog_type ops)"

datatype mem_fault = Undefined | Unreadable

fun op_eval :: "cls_env \<Rightarrow> cls_context \<Rightarrow> dwarf_op \<Rightarrow> u64 list \<Rightarrow> mem_fault + u64 list" where
  "op_eval e r Op_deref (v # st) = (case read_word e v of None \<Rightarrow> Inl Unreadable | Some w \<Rightarrow> Inr (w # st))"
| "op_eval e r Op_dup (v # st) = Inr (v # v # st)"
| "op_eval e r Op_and (v # w # st) = Inr ((v AND w) # st)"
| "op_eval e r Op_plus (v # w # st) = Inr ((v + w) # st)"
| "op_eval e r Op_swap (v # w # st) = Inr (w # v # st)"
| "op_eval e r (Op_plus_uconst n) (v # st) = Inr ((v + of_nat n) # st)"
| "op_eval e r Op_ne (v # w # st) = Inr (of_bool (v \<noteq> w) # st)"
| "op_eval e r (Op_lit n) st = Inr (of_nat n # st)"
| "op_eval e r (Op_breg n i) st = Inr ((FIRCLSDwarfUnwindGetRegisterValue r (of_nat n) + of_int i) # st)"
| "op_eval e r (Op_deref_size k) (v # st) =
     (if unat v + k < 2 ^ 64 \<and> (\<forall>i < k. mapped e (v + of_nat i))
      then Inr (of_nat (of_le (rd_bytes (cls_mem e) v k)) # st) else Inl Undefined)"
| "op_eval e r _ st = Inr st"

fun prog_eval :: "cls_env \<Rightarrow> cls_context \<Rightarrow> dwarf_op list \<Rightarrow> u64 list \<Rightarrow> mem_fault + u64 list" where
  "prog_eval e r [] st = Inr st"
| "prog_eval e r (op # ops) st =
     (case op_eval e r op st of Inl x \<Rightarrow> Inl x | Inr st \<Rightarrow> prog_eval e r ops st)"

text \<open>An expression is the length of its operations, then the operations.\<close>

definition ops_bytes :: "dwarf_op list \<Rightarrow> u8 list" where
  "ops_bytes ops = concat (map op_bytes ops)"

definition expression_bytes :: "dwarf_op list \<Rightarrow> u8 list" where
  "expression_bytes ops = uleb_bytes (length (ops_bytes ops)) @ ops_bytes ops"

section \<open>The stack of the machine is a list\<close>

definition holds :: "dwarf_machine \<Rightarrow> u64 list \<Rightarrow> bool" where
  "holds m st \<longleftrightarrow> length (stk_buffer (stack m)) = CLS_DWARF_EXPRESSION_STACK_SIZE \<and>
     length st \<le> CLS_DWARF_EXPRESSION_STACK_SIZE \<and> stk_pointer (stack m) = Some (length st) \<and>
     take (length st) (stk_buffer (stack m)) = rev st"

lemma stack_holds_valid: "holds m st \<Longrightarrow> FIRCLSDwarfExpressionStackIsValid (stack m)"
  by (simp add: holds_def FIRCLSDwarfExpressionStackIsValid_def)

lemma holds_cong: "stack m' = stack m \<Longrightarrow> holds m' st = holds m st"
  by (simp add: holds_def)

text \<open>What else the machine has.\<close>

definition same :: "dwarf_machine \<Rightarrow> dwarf_machine \<Rightarrow> bool" where
  "same m m' \<longleftrightarrow> dataCursor m' = dataCursor m \<and> endAddress m' = endAddress m \<and> registers m' = registers m"

lemma holds_top:
  assumes "holds m (v # st)"
  shows "stk_buffer (stack m) ! length st = v" "take (length st) (stk_buffer (stack m)) = rev st"
proof -
  let ?b = "stk_buffer (stack m)"
  have h: "take (Suc (length st)) ?b = rev st @ [v]" "Suc (length st) \<le> length ?b"
    using assms by (simp_all add: holds_def)
  have "take (Suc (length st)) ?b ! length st = v" unfolding h(1) by (simp add: nth_append)
  then show "?b ! length st = v" by simp
  have "take (length st) (take (Suc (length st)) ?b) = rev st" unfolding h(1) by simp
  then show "take (length st) ?b = rev st" by (simp add: min_def)
qed

lemma pop_holds:
  assumes "holds m (v # st)"
  obtains m' where "machine_pop m = (v, m')" "holds m' st" "same m m'"
proof -
  let ?m = "m\<lparr>stack := (stack m)\<lparr>stk_pointer := Some (length st)\<rparr>\<rparr>"
  have "machine_pop m = (v, ?m)" using assms stack_holds_valid [OF assms] holds_top(1) [OF assms]
    by (simp add: machine_pop_def FIRCLSDwarfExpressionStackPop_def holds_def Let_def)
  moreover have "holds ?m st" using assms holds_top(2) [OF assms] by (simp add: holds_def)
  ultimately show thesis using that by (simp add: same_def)
qed

lemma push_holds:
  assumes "holds m st" "length st < CLS_DWARF_EXPRESSION_STACK_SIZE"
  obtains m' where "machine_push m v = (True, m')" "holds m' (v # st)" "same m m'"
proof -
  let ?m = "m\<lparr>stack := (stack m)\<lparr>stk_buffer := (stk_buffer (stack m))[length st := v], stk_pointer := Some (length st + 1)\<rparr>\<rparr>"
  have "machine_push m v = (True, ?m)" using assms stack_holds_valid [OF assms(1)]
    by (simp add: machine_push_def FIRCLSDwarfExpressionStackPush_def holds_def Let_def)
  moreover have "holds ?m (v # st)" using assms by (simp add: holds_def take_Suc_conv_app_nth)
  ultimately show thesis using that by (simp add: same_def)
qed

lemma peek_holds: "holds m (v # st) \<Longrightarrow> FIRCLSDwarfExpressionStackPeek (stack m) = (v, stack m)"
  using stack_holds_valid [of m "v # st"] holds_top(1) [of m v st]
  by (simp add: FIRCLSDwarfExpressionStackPeek_def holds_def)

section \<open>Each operation\<close>

text \<open>What one opcode does, given the reference result.\<close>

definition step_ok :: "cls_env \<Rightarrow> dwarf_machine \<Rightarrow> u64 \<Rightarrow> mem_fault + u64 list \<Rightarrow> (bool \<times> dwarf_machine) option \<Rightarrow> bool" where
  "step_ok e m c ref res = (case ref of
     Inl Undefined \<Rightarrow> res = None
   | Inl Unreadable \<Rightarrow> (\<exists>m'. res = Some (False, m'))
   | Inr st \<Rightarrow> (\<exists>m'. res = Some (True, m') \<and> holds m' st \<and> dataCursor m' = c \<and>
       endAddress m' = endAddress m \<and> registers m' = registers m))"

lemma step_push:
  assumes "holds m1 st" "length st < CLS_DWARF_EXPRESSION_STACK_SIZE" "dataCursor m1 = c"
    "endAddress m1 = endAddress m" "registers m1 = registers m"
  shows "step_ok e m c (Inr (v # st)) (Some (machine_push m1 v))"
proof -
  obtain m' where "machine_push m1 v = (True, m')" "holds m' (v # st)" "same m1 m'"
    using push_holds [OF assms(1,2)] by blast
  then show ?thesis using assms(3-5) by (simp add: step_ok_def same_def)
qed

lemma pop2_holds:
  assumes "holds m (v # w # st)"
  obtains m1 m2 where "machine_pop m = (v, m1)" "machine_pop m1 = (w, m2)" "holds m2 st" "same m m2"
proof -
  obtain m1 where 1: "machine_pop m = (v, m1)" "holds m1 (w # st)" "same m m1" using pop_holds [OF assms] by blast
  obtain m2 where 2: "machine_pop m1 = (w, m2)" "holds m2 st" "same m1 m2" using pop_holds [OF 1(2)] by blast
  show thesis using that 1 2 by (simp add: same_def)
qed

lemma holds_room: "holds m st \<Longrightarrow> length st \<le> CLS_DWARF_EXPRESSION_STACK_SIZE"
  by (simp add: holds_def)

lemma binop_step:
  assumes "holds m (v # w # st)" "dataCursor m = c" "endAddress m = endAddress m0" "registers m = registers m0"
  shows "step_ok e m0 c (Inr (f v w # st)) (Some (case machine_pop m of (v, m) \<Rightarrow> case machine_pop m of (w, m) \<Rightarrow> machine_push m (f v w)))"
proof -
  obtain m1 m2 where 1: "machine_pop m = (v, m1)" "machine_pop m1 = (w, m2)" "holds m2 st" "same m m2"
    using pop2_holds [OF assms(1)] by blast
  have "length st < CLS_DWARF_EXPRESSION_STACK_SIZE" using holds_room [OF assms(1)] by simp
  then show ?thesis using step_push [OF 1(3), of c m0 e "f v w"] 1 assms by (simp add: same_def)
qed

lemma opcode_lit:
  assumes "n < 32"
  defines "b \<equiv> of_nat (0x30 + n) :: u8"
  shows "b \<notin> {0x06, 0x12, 0x1A, 0x22, 0x16, 0x23, 0x2E}" "DW_OP_lit0 \<le> b" "b \<le> 0x4F" "ucast (b - DW_OP_lit0) = (of_nat n :: u64)"
proof -
  have u: "unat b = 48 + n" unfolding b_def using assms(1) by (simp add: unat_of_nat_eq del: of_nat_add)
  show "b \<notin> {0x06, 0x12, 0x1A, 0x22, 0x16, 0x23, 0x2E}" using u by auto
  show "DW_OP_lit0 \<le> b" "b \<le> 0x4F" using u assms(1) by (simp_all add: word_le_nat_alt DW_OP_lit0_def)
  have "b - DW_OP_lit0 = of_nat n" by (simp add: b_def DW_OP_lit0_def)
  then show "ucast (b - DW_OP_lit0) = (of_nat n :: u64)" using assms(1) by (simp add: unsigned_of_nat take_bit_nat_eq_self)
qed

lemma opcode_breg:
  assumes "n < 32"
  defines "b \<equiv> of_nat (0x70 + n) :: u8"
  shows "b \<notin> {0x06, 0x12, 0x1A, 0x22, 0x16, 0x23, 0x2E}" "\<not> b \<le> 0x4F" "DW_OP_breg0 \<le> b" "b \<le> 0x8F"
    "ucast (b - DW_OP_breg0) = (of_nat n :: u64)"
proof -
  have u: "unat b = 112 + n" unfolding b_def using assms(1) by (simp add: unat_of_nat_eq del: of_nat_add)
  show "b \<notin> {0x06, 0x12, 0x1A, 0x22, 0x16, 0x23, 0x2E}" using u by auto
  show "\<not> b \<le> 0x4F" using u by (simp add: word_le_nat_alt)
  show "DW_OP_breg0 \<le> b" "b \<le> 0x8F" using u assms(1) by (simp_all add: word_le_nat_alt DW_OP_breg0_def)
  have "b - DW_OP_breg0 = of_nat n" by (simp add: b_def DW_OP_breg0_def)
  then show "ucast (b - DW_OP_breg0) = (of_nat n :: u64)" using assms(1) by (simp add: unsigned_of_nat take_bit_nat_eq_self)
qed

text \<open>The operands.\<close>

lemma sized_read:
  "parse_bytes e v k = (if unat v + k < 2 ^ 64 \<and> (\<forall>i < k. mapped e (v + of_nat i))
     then Some (of_le (rd_bytes (cls_mem e) v k), v + of_nat k) else None)"
  by (simp add: parse_bytes_def deref_def advance_def)

lemma ucast_le:
  assumes "8 * k \<le> LENGTH('a :: len)"
  shows "ucast (of_nat (of_le (rd_bytes m v k)) :: 'a word) = (of_nat (of_le (rd_bytes m v k)) :: u64)"
proof -
  have "of_le (rd_bytes m v k) < 256 ^ k" using of_le_bound [of "rd_bytes m v k"] by simp
  also have "(256 :: nat) ^ k = 2 ^ (8 * k)" by (simp add: power_mult)
  also have "\<dots> \<le> 2 ^ LENGTH('a)" by (rule power_increasing [OF assms]) simp
  finally show ?thesis by (simp add: unsigned_of_nat take_bit_nat_eq_self)
qed

lemma deref_size_step:
  assumes "holds m (v # st)" "k \<in> {1, 2, 4, 8}" "FIRCLSParseUint8AndAdvance e (dataCursor m) = Some (of_nat k, c)"
  shows "step_ok e m c (op_eval e (registers m) (Op_deref_size k) (v # st)) (execute_deref_size e m)"
proof -
  obtain m1 where 1: "machine_pop m = (v, m1)" "holds m1 st" "same m m1" using pop_holds [OF assms(1)] by blast
  let ?m = "m1\<lparr>dataCursor := c\<rparr>"
  have h: "holds ?m st" using 1(2) by (simp add: holds_def)
  have room: "length st < CLS_DWARF_EXPRESSION_STACK_SIZE" using holds_room [OF assms(1)] by simp
  let ?x = "of_nat (of_le (rd_bytes (cls_mem e) v k)) :: u64"
  have x: "execute_deref_size e m =
      (if unat v + k < 2 ^ 64 \<and> (\<forall>i < k. mapped e (v + of_nat i)) then Some (machine_push ?m ?x) else None)"
    using assms(2,3) 1(1,3) ucast_le [where k = 1 and 'a = 8 and m = "cls_mem e" and v = v]
      ucast_le [where k = 2 and 'a = 16 and m = "cls_mem e" and v = v] ucast_le [where k = 4 and 'a = 32 and m = "cls_mem e" and v = v]
    by (auto simp: execute_deref_size_def same_def FIRCLSParseUint8AndAdvance_def [of e v] FIRCLSParseUint16AndAdvance_def
        FIRCLSParseUint32AndAdvance_def FIRCLSParseUint64AndAdvance_def sized_read)
  show ?thesis using step_push [OF h room, of c m e ?x] 1(3) by (simp add: x same_def step_ok_def)
qed

text \<open>The machine takes the step of the reference evaluation.\<close>

lemma opcode_step:
  assumes at: "at_bytes e (dataCursor m) (op_bytes op)" and st: "holds m st" and ty: "op_type op (length st) = Some d"
  shows "step_ok e m (dataCursor m + of_nat (length (op_bytes op))) (op_eval e (registers m) op st)
    (FIRCLSDwarfExpressionMachineExecuteNextOpcode e m)"
proof -
  let ?m = "m\<lparr>dataCursor := dataCursor m + 1\<rparr>"
  note exec = FIRCLSDwarfExpressionMachineExecuteNextOpcode_def
  have h: "holds ?m st" using st by (simp add: holds_def)
  have room: "length st \<le> CLS_DWARF_EXPRESSION_STACK_SIZE" by (rule holds_room [OF st])
  have b: "FIRCLSParseUint8AndAdvance e (dataCursor m) = Some (x, dataCursor m + 1)" "at_bytes e (dataCursor m + 1) xs"
    if "op_bytes op = x # xs" for x xs
    using at_bytes_Cons [of e "dataCursor m" x xs] at unfolding that by auto
  show ?thesis
  proof (cases op)
    case op: Op_deref
    obtain v st' where v: "st = v # st'" using ty op by (cases st) auto
    obtain m2 where 2: "machine_pop ?m = (v, m2)" "holds m2 st'" "same ?m m2" using pop_holds [OF h [unfolded v]] by blast
    show ?thesis
    proof (cases "read_word e v")
      case None
      then show ?thesis using b(1) 2(1) by (simp add: op v exec execute_deref_def step_ok_def)
    next
      case (Some w)
      have "length st' < CLS_DWARF_EXPRESSION_STACK_SIZE" using room v by simp
      then show ?thesis using step_push [OF 2(2), of "dataCursor m + 1" m e w] 2 Some b(1)
        by (simp add: op v exec execute_deref_def same_def)
    qed
  next
    case op: Op_dup
    obtain v st' where v: "st = v # st'" using ty op by (cases st) auto
    show ?thesis using step_push [OF h, of "dataCursor m + 1" m e v] peek_holds [OF h [unfolded v]] ty b(1)
      by (simp add: op v exec execute_dup_def split: if_splits)
  next
    case op: Op_and
    obtain v w st' where v: "st = v # w # st'" using ty op by (cases st rule: list.exhaust; cases "tl st") (auto split: if_splits)
    show ?thesis using binop_step [OF h [unfolded v], of "dataCursor m + 1" m e "(AND)"] b(1)
      by (simp add: op v exec execute_and_def)
  next
    case op: Op_plus
    obtain v w st' where v: "st = v # w # st'" using ty op by (cases st rule: list.exhaust; cases "tl st") (auto split: if_splits)
    show ?thesis using binop_step [OF h [unfolded v], of "dataCursor m + 1" m e "(+)"] b(1)
      by (simp add: op v exec execute_plus_def)
  next
    case op: Op_ne
    obtain v w st' where v: "st = v # w # st'" using ty op by (cases st rule: list.exhaust; cases "tl st") (auto split: if_splits)
    show ?thesis using binop_step [OF h [unfolded v], of "dataCursor m + 1" m e "\<lambda>v w. of_bool (v \<noteq> w)"] b(1)
      by (simp add: op v exec execute_ne_def)
  next
    case op: Op_swap
    obtain v w st' where v: "st = v # w # st'" using ty op by (cases st rule: list.exhaust; cases "tl st") (auto split: if_splits)
    obtain m1 m2 where 2: "machine_pop ?m = (v, m1)" "machine_pop m1 = (w, m2)" "holds m2 st'" "same ?m m2"
      using pop2_holds [OF h [unfolded v]] by blast
    have l: "length st' < CLS_DWARF_EXPRESSION_STACK_SIZE" "length (v # st') < CLS_DWARF_EXPRESSION_STACK_SIZE" using room v by simp_all
    obtain m3 where 3: "machine_push m2 v = (True, m3)" "holds m3 (v # st')" "same m2 m3" using push_holds [OF 2(3) l(1)] by blast
    show ?thesis using step_push [OF 3(2) l(2), of "dataCursor m + 1" m e w] 2 3 b(1)
      by (simp add: op v exec execute_swap_def same_def)
  next
    case op: (Op_plus_uconst n)
    obtain v st' where v: "st = v # st'" using ty op by (cases st) auto
    obtain m2 where 2: "machine_pop ?m = (v, m2)" "holds m2 st'" "same ?m m2" using pop_holds [OF h [unfolded v]] by blast
    let ?c = "dataCursor m + 1 + of_nat (length (uleb_bytes n))"
    have u: "FIRCLSParseULEB128AndAdvance e (dataCursor m + 1) = Some (of_nat n, ?c)"
      using uleb_value [OF b(2), of "0x23" n] ty by (simp add: op split: if_splits)
    have "holds (m2\<lparr>dataCursor := ?c\<rparr>) st'" "length st' < CLS_DWARF_EXPRESSION_STACK_SIZE" using 2(2) room v by (simp_all add: holds_def)
    then show ?thesis using step_push [of "m2\<lparr>dataCursor := ?c\<rparr>" st' ?c m e "v + of_nat n"] 2 b(1) u
      by (simp add: op v exec execute_plus_uconst_def same_def add.assoc)
  next
    case op: (Op_lit n)
    have n: "n < 32" "length st < CLS_DWARF_EXPRESSION_STACK_SIZE" using ty op by (simp_all split: if_splits)
    show ?thesis using step_push [OF h n(2), of "dataCursor m + 1" m e "of_nat n"] b(1) opcode_lit [OF n(1)]
      by (simp add: op exec execute_litN_def del: of_nat_add)
  next
    case op: (Op_breg n i)
    have n: "n < 32" "length st < CLS_DWARF_EXPRESSION_STACK_SIZE" "- (2 ^ 27) \<le> i" "i < 2 ^ 27" using ty op by (simp_all split: if_splits)
    let ?c = "dataCursor m + 1 + of_nat (length (sleb_bytes i))"
    have u: "FIRCLSParseLEB128AndAdvance e (dataCursor m + 1) = Some (of_int i, ?c)"
      using sleb_value [OF b(2) n(3,4), of "of_nat (0x70 + n)"] by (simp add: op)
    have r: "\<not> (of_nat n :: u64) > CLS_DWARF_MAX_REGISTER_NUM"
      using n(1) by (simp add: CLS_DWARF_MAX_REGISTER_NUM_def CLS_DWARF_ARM64_SP_def word_less_nat_alt unat_of_nat_eq not_less)
    have "holds (m\<lparr>dataCursor := ?c\<rparr>) st" using st by (simp add: holds_def)
    from step_push [OF this n(2), of ?c m e "FIRCLSDwarfUnwindGetRegisterValue (registers m) (of_nat n) + of_int i"]
    show ?thesis using b(1) u opcode_breg [OF n(1)] r
      by (simp add: op exec execute_bregN_def Let_def add.assoc del: of_nat_add)
  next
    case op: (Op_deref_size k)
    obtain v st' where v: "st = v # st'" using ty op by (cases st) (auto split: if_splits)
    have k: "k \<in> {1, 2, 4, 8}" using ty op by (simp split: if_splits)
    have "FIRCLSParseUint8AndAdvance e (dataCursor m + 1) = Some (of_nat k, dataCursor m + 1 + 1)"
      by (rule at_bytes_Cons(1) [of _ _ _ "[]"], rule b(2) [of "0x94"]) (simp add: op)
    then have "step_ok e ?m (dataCursor m + 2) (op_eval e (registers m) op (v # st')) (execute_deref_size e ?m)"
      using deref_size_step [OF h [unfolded v] k] by (simp add: op add.assoc)
    moreover have "step_ok e ?m = step_ok e m" by (simp add: step_ok_def fun_eq_iff split: sum.split mem_fault.split)
    moreover have "FIRCLSDwarfExpressionMachineExecuteNextOpcode e m = execute_deref_size e ?m"
      using b(1) by (simp add: op exec DW_OP_lit0_def DW_OP_breg0_def)
    ultimately show ?thesis by (simp add: op v)
  qed
qed


section \<open>Programs\<close>

declare eval_loop.simps [simp del]

lemma op_bytes_nonempty: "0 < length (op_bytes op)"
  by (cases op) simp_all

lemma op_eval_depth:
  "op_type op (length st) = Some d \<Longrightarrow> op_eval e r op st = Inr st' \<Longrightarrow> length st' = d"
  by (induction e r op st rule: op_eval.induct) (auto split: if_splits option.splits)

lemma prog_eval_depth:
  "prog_type ops (length st) = Some d \<Longrightarrow> prog_eval e r ops st = Inr st' \<Longrightarrow> length st' = d"
  by (induction ops arbitrary: st) (auto simp: bind_eq_Some_conv dest: op_eval_depth split: sum.splits)

text \<open>From a cursor at the operations, the loop follows the reference evaluation to the end address.\<close>

lemma eval_loop_ops:
  assumes "at_bytes e (dataCursor m) (ops_bytes ops)" "holds m st" "prog_type ops (length st) = Some d"
    "4096 \<le> dataCursor m" "endAddress m = dataCursor m + of_nat (length (ops_bytes ops))"
  shows "step_ok e m (endAddress m) (prog_eval e (registers m) ops st) (eval_loop e m)"
  using assms
proof (induction ops arbitrary: m st)
  case Nil
  then have "endAddress m = dataCursor m" by (simp add: ops_bytes_def)
  then have "FIRCLSDwarfExpressionMachineIsFinished m" by (simp add: FIRCLSDwarfExpressionMachineIsFinished_def)
  then have "eval_loop e m = Some (True, m)" by (simp add: eval_loop.simps [of e m])
  then show ?case using Nil(2) \<open>endAddress m = dataCursor m\<close> by (simp add: step_ok_def)
next
  case (Cons op ops)
  let ?b = "op_bytes op" and ?bs = "ops_bytes ops" and ?c = "dataCursor m"
  have bs: "ops_bytes (op # ops) = ?b @ ?bs" by (simp add: ops_bytes_def)
  have at: "at_bytes e ?c ?b" "at_bytes e (?c + of_nat (length ?b)) ?bs"
    using at_bytes_parts [of e ?c ?b ?bs] Cons(2) unfolding bs by auto
  have room: "unat ?c + length (?b @ ?bs) < 2 ^ 64" using Cons(2) unfolding bs at_bytes_def by simp
  obtain d' where d: "op_type op (length st) = Some d'" "prog_type ops d' = Some d"
    using Cons(4) by (auto simp: bind_eq_Some_conv)
  have up: "?c \<le> ?c + of_nat k" "unat (?c + of_nat k) = unat ?c + k" if "k \<le> length (?b @ ?bs)" for k
  proof -
    have k: "unat ?c + k < 2 ^ 64" using room that by linarith
    then have u: "unat (of_nat k :: u64) = k" by (simp add: unat_of_nat_eq)
    show "unat (?c + of_nat k) = unat ?c + k" using k u by (simp add: unat_word_ariths)
    then show "?c \<le> ?c + of_nat k" by (simp add: word_le_nat_alt)
  qed
  have end_le: "endAddress m = ?c + of_nat (length (?b @ ?bs))" using Cons(6) unfolding bs .
  have "?c < endAddress m" using up(2) [of "length (?b @ ?bs)"] op_bytes_nonempty [of op]
    by (simp add: end_le word_less_nat_alt)
  moreover have "4096 \<le> endAddress m" using Cons(5) up(1) [of "length (?b @ ?bs)"] unfolding end_le by simp
  ultimately have nf: "\<not> FIRCLSDwarfExpressionMachineIsFinished m"
    using Cons(5) stack_holds_valid [OF Cons(3)] by (simp add: FIRCLSDwarfExpressionMachineIsFinished_def is_valid_pointer_def)
  have step: "step_ok e m (?c + of_nat (length ?b)) (op_eval e (registers m) op st) (FIRCLSDwarfExpressionMachineExecuteNextOpcode e m)"
    by (rule opcode_step [OF at(1) Cons(3) d(1)])
  show ?case
  proof (cases "op_eval e (registers m) op st")
    case (Inl x)
    then show ?thesis using step nf by (cases x) (auto simp: step_ok_def eval_loop.simps [of e m])
  next
    case (Inr st')
    then obtain m' where m': "FIRCLSDwarfExpressionMachineExecuteNextOpcode e m = Some (True, m')" "holds m' st'"
      "dataCursor m' = ?c + of_nat (length ?b)" "endAddress m' = endAddress m" "registers m' = registers m"
      using step by (auto simp: step_ok_def)
    have l: "length st' = d'" by (rule op_eval_depth [OF d(1) Inr])
    have "step_ok e m' (endAddress m') (prog_eval e (registers m') ops st') (eval_loop e m')"
    proof (rule Cons(1))
      show "at_bytes e (dataCursor m') ?bs" unfolding m' by (rule at(2))
      show "prog_type ops (length st') = Some d" using d(2) by (simp add: l)
      show "4096 \<le> dataCursor m'" unfolding m' using Cons(5) up(1) [of "length ?b"] by simp
      show "endAddress m' = dataCursor m' + of_nat (length ?bs)" unfolding m' end_le by (simp add: add.assoc)
    qed (rule m')
    moreover have "eval_loop e m = eval_loop e m'" using nf m'(1) by (simp add: eval_loop.simps [of e m])
    ultimately show ?thesis using Inr m' by (simp add: step_ok_def split: sum.splits mem_fault.splits)
  qed
qed


section \<open>The property\<close>

text \<open>C36: well-typed expressions are evaluated right. For the bytes of operations whose operands are in
  range and whose stack, starting with the one value pushed by the caller, never underflows nor
  exceeds 100 entries, the evaluation agrees with the reference evaluation over lists: it
  succeeds with the value on top, fails when \<open>FIRCLSReadMemory\<close> refuses an address, and is undefined
  only when \<open>DW_OP_deref_size\<close> reads unmapped memory. It never fails for the stack.\<close>

theorem dwarf_expression_type_sound:
  assumes "prog_type ops 1 = Some d" "1 \<le> d" "ops \<noteq> []"
    and "at_bytes e c (expression_bytes ops)" "4096 \<le> c" "length (ops_bytes ops) < 2 ^ 31"
  shows "FIRCLSDwarfEvalulateExpression e c r v =
    (case prog_eval e r ops [v] of
       Inl Undefined \<Rightarrow> None
     | Inl Unreadable \<Rightarrow> Some (False, 0)
     | Inr st \<Rightarrow> Some (True, hd st))"
proof -
  let ?l = "length (ops_bytes ops)" and ?n = "length (uleb_bytes (length (ops_bytes ops)))"
  have at: "at_bytes e c (uleb_bytes ?l)" "at_bytes e (c + of_nat ?n) (ops_bytes ops)"
    using at_bytes_parts [of e c "uleb_bytes ?l" "ops_bytes ops"] assms(4) unfolding expression_bytes_def by auto
  have l: "0 < ?l" using assms(3) op_bytes_nonempty [of "hd ops"] by (cases ops) (simp_all add: ops_bytes_def)
  have room: "unat c + ?n + ?l < 2 ^ 64" using assms(4) by (simp add: at_bytes_def expression_bytes_def)
  define m0 where "m0 = \<lparr>stack = \<lparr>stk_buffer = (replicate CLS_DWARF_EXPRESSION_STACK_SIZE 0)[0 := v], stk_pointer = Some 1\<rparr>,
    dataCursor = c, endAddress = 0, registers = r\<rparr>"
  have init: "FIRCLSDwarfExpressionMachineInit c r v = (True, m0)"
    using assms(5) by (simp add: FIRCLSDwarfExpressionMachineInit_def is_valid_pointer_def m0_def Let_def
      FIRCLSDwarfExpressionStackPush_def FIRCLSDwarfExpressionStackInit_def FIRCLSDwarfExpressionStackIsValid_def
      CLS_DWARF_EXPRESSION_STACK_SIZE_def)
  define m where "m = m0\<lparr>dataCursor := c + of_nat ?n, endAddress := c + of_nat ?n + of_nat ?l\<rparr>"
  have lu: "unat (of_nat ?l :: u64) = ?l" using assms(6) by (simp add: unat_of_nat_eq)
  have cu: "unat (c + of_nat ?n) = unat c + ?n"
  proof -
    have n: "unat c + ?n < 2 ^ 64" using room by linarith
    then have "unat (of_nat ?n :: u64) = ?n" by (simp add: unat_of_nat_eq)
    then show ?thesis using n by (simp add: unat_word_ariths)
  qed
  have nz: "(of_nat ?l :: u64) \<noteq> 0" using l lu by (metis less_numeral_extra(3) unat_0)
  have "advance (c + of_nat ?n) ?l = Some (c + of_nat ?n + of_nat ?l)" using room cu by (simp add: advance_def)
  then have prep: "FIRCLSDwarfExpressionMachinePrepareForExecution e m0 = Some (True, m)"
    using uleb_value [OF at(1)] assms(6) lu nz
    by (simp add: FIRCLSDwarfExpressionMachinePrepareForExecution_def m_def m0_def del: of_nat_add)
  have "holds m [v]" by (simp add: holds_def m_def m0_def CLS_DWARF_EXPRESSION_STACK_SIZE_def take_Suc_conv_app_nth)
  moreover have "4096 \<le> dataCursor m" using assms(5) cu by (simp add: m_def word_le_nat_alt)
  ultimately have run: "step_ok e m (endAddress m) (prog_eval e (registers m) ops [v]) (eval_loop e m)"
    using at(2) assms(1) by (intro eval_loop_ops) (simp_all add: m_def)
  have r: "registers m = r" by (simp add: m_def m0_def)
  have start: "FIRCLSDwarfEvalulateExpression e c r v = Option.bind (eval_loop e m) (\<lambda>(ok, m).
      if \<not> ok then Some (False, 0) else Some (fst (FIRCLSDwarfExpressionMachineGetResult m)))"
    using assms(5) init prep by (simp add: FIRCLSDwarfEvalulateExpression_def is_valid_pointer_def)
  show ?thesis
  proof (cases "prog_eval e r ops [v]")
    case (Inl x)
    then show ?thesis using run start r by (cases x) (auto simp: step_ok_def)
  next
    case (Inr st)
    then obtain m' where m': "eval_loop e m = Some (True, m')" "holds m' st" "dataCursor m' = endAddress m" "endAddress m' = endAddress m"
      using run r by (auto simp: step_ok_def)
    have "length st = d" using prog_eval_depth [OF _ Inr] assms(1) by simp
    then obtain w st' where st: "st = w # st'" using assms(2) by (cases st) auto
    have "FIRCLSDwarfExpressionMachineGetResult m' = ((True, w), m')"
      using m' peek_holds [of m' w st'] stack_holds_valid [OF m'(2)] st by (simp add: FIRCLSDwarfExpressionMachineGetResult_def)
    then show ?thesis using start m'(1) Inr st by simp
  qed
qed

definition sample_ops :: "dwarf_op list" where
  "sample_ops = [Op_breg 31 16, Op_plus, Op_plus_uconst 300, Op_lit 7, Op_swap, Op_deref_size 1, Op_ne]"

definition sample_context :: cls_context where
  "sample_context = \<lparr>x_regs = (\<lambda>_. 0), fp_reg = 0, lr_reg = 0x1000, sp_reg = 0x5000, pc_reg = 0x2000\<rparr>"

lemma sample_bytes:
  "expression_bytes sample_ops = [11, 0x8F, 16, 0x22, 0x23, 0xAC, 0x02, 0x37, 0x16, 0x94, 1, 0x2E]"
  "length (ops_bytes sample_ops) = 11" "expression_bytes [Op_deref] = [1, 0x06]" "length (ops_bytes [Op_deref]) = 1"
proof -
  have "uleb_bytes 11 = [11]" "uleb_bytes 1 = [1]" "sleb_bytes 16 = [16]"
    by (subst uleb_bytes.simps sleb_bytes.simps, simp)+
  moreover have o: "ops_bytes sample_ops = [0x8F, 16, 0x22, 0x23, 0xAC, 0x02, 0x37, 0x16, 0x94, 1, 0x2E]"
    by (simp add: ops_bytes_def sample_ops_def leb_env_bytes(1) \<open>sleb_bytes 16 = [16]\<close>)
  moreover show l: "length (ops_bytes sample_ops) = 11" "length (ops_bytes [Op_deref]) = 1" using o by (simp_all add: ops_bytes_def)
  ultimately show "expression_bytes sample_ops = [11, 0x8F, 16, 0x22, 0x23, 0xAC, 0x02, 0x37, 0x16, 0x94, 1, 0x2E]"
    "expression_bytes [Op_deref] = [1, 0x06]"
    unfolding expression_bytes_def l unfolding o by (simp_all add: ops_bytes_def)
qed

definition sample_env :: cls_env where
  "sample_env = list_env 4096 (expression_bytes sample_ops @ expression_bytes [Op_deref])"

theorem dwarf_expression_type_sound_witness:
  "FIRCLSDwarfEvalulateExpression sample_env 4096 sample_context 16 = Some (True, 1) \<and>
   FIRCLSDwarfEvalulateExpression sample_env 4108 sample_context 16 = Some (False, 0)"
proof
  have "at_bytes sample_env 4096 (expression_bytes sample_ops @ expression_bytes [Op_deref])"
    unfolding sample_env_def by (rule list_env_at) (simp add: sample_bytes)
  from at_bytes_parts [OF this] have at: "at_bytes sample_env 4096 (expression_bytes sample_ops)"
    "at_bytes sample_env 4108 (expression_bytes [Op_deref])"
    unfolding sample_bytes(1) by simp_all
  have ty: "prog_type sample_ops 1 = Some 1" by (simp add: sample_ops_def CLS_DWARF_EXPRESSION_STACK_SIZE_def)
  have ne: "sample_ops \<noteq> []" by (simp add: sample_ops_def)
  have mem: "cls_mem sample_env 0x514C = 0" "mapped sample_env = (\<lambda>_. True)"
    by (simp_all add: sample_env_def list_env_def sample_bytes wr_bytes_def)
  have ev: "prog_eval sample_env sample_context sample_ops [16] = Inr [1]"
    by (simp add: sample_ops_def sample_context_def mem rd_bytes_def
        FIRCLSDwarfUnwindGetRegisterValue_def FIRCLSThreadContextGetStackPointer_def CLS_PTRAUTH_STRIP_def
        CLS_DWARF_ARM64_FP_def CLS_DWARF_ARM64_LR_def CLS_DWARF_ARM64_SP_def)
  show "FIRCLSDwarfEvalulateExpression sample_env 4096 sample_context 16 = Some (True, 1)"
    using dwarf_expression_type_sound [OF ty _ ne at(1), of sample_context 16] ev sample_bytes(2) by simp
  have "prog_eval sample_env sample_context [Op_deref] [16] = Inl Unreadable"
    by (simp add: read_word_def is_valid_pointer_def)
  then show "FIRCLSDwarfEvalulateExpression sample_env 4108 sample_context 16 = Some (False, 0)"
    using dwarf_expression_type_sound [OF _ _ _ at(2), of 1] sample_bytes(4) by simp
qed

end
