(* ===== verification/Cls_Dwarf_Props.thy ===== *)
theory Cls_Dwarf_Props
  imports Cls_Dwarf Cls_Expr_Props
begin

text \<open>
  Which rows of a frame description are in force at a program counter, for each of the four
  instructions that advance the location, and what the unwinder makes of the saved registers.
\<close>

declare instructions_loop.simps [simp del]

section \<open>Advancing the location\<close>

datatype advance_form = Packed | Loc1 | Loc2 | Loc4

fun form_limit :: "advance_form \<Rightarrow> nat" where
  "form_limit Packed = 2 ^ 6"
| "form_limit Loc1 = 2 ^ 8"
| "form_limit Loc2 = 2 ^ 16"
| "form_limit Loc4 = 2 ^ 32"

fun form_bytes :: "advance_form \<Rightarrow> nat \<Rightarrow> u8 list" where
  "form_bytes Packed d = [of_nat (0x40 + d)]"
| "form_bytes Loc1 d = [0x02, of_nat d]"
| "form_bytes Loc2 d = 0x03 # le_bytes 2 d"
| "form_bytes Loc4 d = 0x04 # le_bytes 4 d"

text \<open>The location after an advance by \<open>d\<close> code units of \<open>a\<close> bytes.\<close>

fun form_next :: "advance_form \<Rightarrow> nat \<Rightarrow> nat \<Rightarrow> nat \<Rightarrow> nat" where
  "form_next Packed a loc d = d * a"
| "form_next _ a loc d = loc + d * a"

text \<open>A row is an advance, then \<open>DW_CFA_def_cfa_offset\<close>.\<close>

definition row_bytes :: "(nat \<Rightarrow> u8 list) \<Rightarrow> nat \<times> nat \<Rightarrow> u8 list" where
  "row_bytes enc r = enc (fst r) @ 0x0E # uleb_bytes (snd r)"

text \<open>The offset in force at \<open>pc\<close>: that of the last row before the first one located at or past it.\<close>

fun run_rows :: "(nat \<Rightarrow> nat \<Rightarrow> nat) \<Rightarrow> nat \<Rightarrow> nat \<Rightarrow> (nat \<times> nat) list \<Rightarrow> u64 \<Rightarrow> u64" where
  "run_rows move loc pc [] v = v"
| "run_rows move loc pc (r # rs) v =
     (if move loc (fst r) < pc then run_rows move (move loc (fst r)) pc rs (of_nat (snd r)) else v)"

lemma sint_small: "n < 2 ^ 63 \<Longrightarrow> sint (of_nat n :: u64) = int n"
  by (simp add: signed_of_nat signed_take_bit_int_eq_self)

lemma at_bytes_room: "at_bytes e p bs \<Longrightarrow> k \<le> length bs \<Longrightarrow> unat (p + of_nat k) = unat p + k"
proof -
  assume "at_bytes e p bs" "k \<le> length bs"
  then have k: "unat p + k < 2 ^ 64" by (simp add: at_bytes_def)
  then have "unat (of_nat k :: u64) = k" by (simp add: unat_of_nat_eq)
  then show ?thesis using k by (simp add: unat_word_ariths)
qed

text \<open>A form of the advance instruction: its bytes and what running it does to the location.\<close>

locale cfa_advance =
  fixes enc :: "nat \<Rightarrow> u8 list" and bound :: nat and move :: "nat \<Rightarrow> nat \<Rightarrow> nat \<Rightarrow> nat"
  assumes fetch: "d < bound \<Longrightarrow> at_bytes e p (enc d) \<Longrightarrow>
      \<exists>ins q. FIRCLSParseUint8AndAdvance e p = Some (ins, q) \<and> ins \<noteq> 0 \<and>
        (\<forall>c s off a. codeAlignFactor c = of_nat a \<longrightarrow>
          execute_instruction e ins c s (of_nat off) q = Some (True, of_nat (move a off d), s, p + of_nat (length (enc d))))"
    and nonempty: "enc d \<noteq> []"
    and move_le: "move a off d \<le> off + d * a"
begin

lemma run_loop:
  assumes "at_bytes e p (concat (map (row_bytes enc) rs))" "codeAlignFactor c = of_nat a"
    "list_all (\<lambda>r. fst r < bound \<and> snd r < 2 ^ 31) rs" "loc + sum_list (map fst rs) * a < 2 ^ 63" "loc < pc" "pc < 2 ^ 63"
    "unat stop = unat p + length (concat (map (row_bytes enc) rs))"
  shows "instructions_loop e c stop (of_nat pc) s (of_nat loc) p =
    Some (True, s\<lparr>cfaRegisterOffset := run_rows (move a) loc pc rs (cfaRegisterOffset s)\<rparr>)"
  using assms
proof (induction rs arbitrary: p loc s)
  case Nil
  then have "\<not> p < stop" by (simp add: word_less_nat_alt)
  then show ?case by (simp add: instructions_loop.simps [of e c stop _ s _ p])
next
  case (Cons r rs)
  let ?A = "enc (fst r)" and ?U = "uleb_bytes (snd r)" and ?R = "concat (map (row_bytes enc) rs)"
  let ?p1 = "p + of_nat (length ?A)"
  have bs: "concat (map (row_bytes enc) (r # rs)) = ?A @ 0x0E # ?U @ ?R" by (simp add: row_bytes_def)
  have at: "at_bytes e p (?A @ 0x0E # ?U @ ?R)" using Cons(2) unfolding bs .
  have at1: "at_bytes e p ?A" "at_bytes e ?p1 (0x0E # ?U @ ?R)" using at_bytes_parts [OF at] by auto
  note at2 = at_bytes_Cons [OF at1(2)]
  have at3: "at_bytes e (?p1 + 1) ?U" "at_bytes e (?p1 + 1 + of_nat (length ?U)) ?R" using at_bytes_parts [OF at2(2)] by auto
  have r: "fst r < bound" "snd r < 2 ^ 31" "list_all (\<lambda>r. fst r < bound \<and> snd r < 2 ^ 31) rs" using Cons(4) by simp_all
  have mv: "move a loc (fst r) \<le> loc + fst r * a" by (rule move_le)
  then have bnd: "move a loc (fst r) + sum_list (map fst rs) * a < 2 ^ 63" using Cons(5) by (simp add: distrib_right)
  then have small: "move a loc (fst r) < 2 ^ 63" by linarith
  obtain ins q where f: "FIRCLSParseUint8AndAdvance e p = Some (ins, q)" "ins \<noteq> 0"
    "\<And>s off. execute_instruction e ins c s (of_nat off) q = Some (True, of_nat (move a off (fst r)), s, ?p1)"
    using fetch [OF r(1) at1(1)] Cons(3) by blast
  have locs: "sint (of_nat loc :: u64) = int loc" "sint (of_nat pc :: u64) = int pc"
    "sint (of_nat (move a loc (fst r)) :: u64) = int (move a loc (fst r))"
    by (rule sint_small, use Cons(6,7) small in linarith)+
  have lens: "unat stop = unat p + length (?A @ 0x0E # ?U @ ?R)" using Cons(8) unfolding bs .
  have go: "p < stop" "?p1 < stop" using lens at_bytes_room [OF at, of "length ?A"] nonempty [of "fst r"]
    by (simp_all add: word_less_nat_alt)
  have first: "instructions_loop e c stop (of_nat pc) s (of_nat loc) p =
      instructions_loop e c stop (of_nat pc) s (of_nat (move a loc (fst r))) ?p1"
    using go(1) Cons(6) f locs by (subst instructions_loop.simps) simp
  show ?case
  proof (cases "move a loc (fst r) < pc")
    case False
    then have "instructions_loop e c stop (of_nat pc) s (of_nat (move a loc (fst r))) ?p1 = Some (True, s)"
      using locs by (subst instructions_loop.simps) simp
    then show ?thesis using first False by simp
  next
    case True
    let ?p2 = "?p1 + 1 + of_nat (length ?U)" and ?s = "s\<lparr>cfaRegisterOffset := of_nat (snd r)\<rparr>"
    have "FIRCLSParseULEB128AndAdvance e (?p1 + 1) = Some (of_nat (snd r), ?p2)" using uleb_value [OF at3(1)] r(2) by simp
    then have ex: "execute_instruction e 0x0E c s off (?p1 + 1) = Some (True, off, ?s, ?p2)" for off
      by (simp add: execute_instruction_def execute_def_cfa_offset_def)
    have second: "instructions_loop e c stop (of_nat pc) s (of_nat (move a loc (fst r))) ?p1 =
        instructions_loop e c stop (of_nat pc) ?s (of_nat (move a loc (fst r))) ?p2"
      using go(2) True locs at2(1) ex by (subst instructions_loop.simps) simp
    have "unat ?p2 = unat p + length (?A @ 0x0E # ?U)"
      using at_bytes_room [OF at, of "length (?A @ 0x0E # ?U)"] by (simp add: add.assoc add.left_commute)
    then have "unat stop = unat ?p2 + length ?R" using lens by simp
    from Cons(1) [OF at3(2) Cons(3) r(3) bnd True Cons(7) this, of ?s] show ?thesis
      using first second True by simp
  qed
qed

lemma enumerate_rows:
  assumes "at_bytes e p (concat (map (row_bytes enc) rs))" "codeAlignFactor c = of_nat a"
    "list_all (\<lambda>r. fst r < bound \<and> snd r < 2 ^ 31) rs" "sum_list (map fst rs) * a < 2 ^ 63" "pc < 2 ^ 63"
    "length (concat (map (row_bytes enc) rs)) < 2 ^ 32"
  shows "FIRCLSDwarfInstructionsEnumerate e \<lparr>ins_length = of_nat (length (concat (map (row_bytes enc) rs))), ins_data = p\<rparr>
      c s (of_nat pc) =
    Some (True, s\<lparr>cfaRegisterOffset := run_rows (move a) 0 pc rs (cfaRegisterOffset s)\<rparr>)"
proof -
  let ?bs = "concat (map (row_bytes enc) rs)"
  have l: "unat (of_nat (length ?bs) :: u32) = length ?bs" using assms(6) by (simp add: unat_of_nat_eq)
  have "unat p + length ?bs < 2 ^ 64" using assms(1) unfolding at_bytes_def by blast
  then have adv: "advance p (length ?bs) = Some (p + of_nat (length ?bs))" by (simp add: advance_def)
  have en: "unat (p + of_nat (length ?bs)) = unat p + length ?bs" by (rule at_bytes_room [OF assms(1)]) simp
  have start: "FIRCLSDwarfInstructionsEnumerate e \<lparr>ins_length = of_nat (length ?bs), ins_data = p\<rparr> c s (of_nat pc) =
      instructions_loop e c (p + of_nat (length ?bs)) (of_nat pc) s (of_nat 0) p"
    unfolding FIRCLSDwarfInstructionsEnumerate_def by (simp only: dwarf_instructions.simps l adv) simp
  show ?thesis
  proof (cases "pc = 0")
    case True
    then have "run_rows (move a) 0 pc rs v = v" for v by (cases rs) simp_all
    moreover have "instructions_loop e c (p + of_nat (length ?bs)) (of_nat pc) s (of_nat 0) p = Some (True, s)"
      using True by (subst instructions_loop.simps) simp
    ultimately show ?thesis unfolding start by simp
  next
    case False
    show ?thesis unfolding start
      by (rule run_loop [OF assms(1-3) _ _ assms(5) en]) (use assms(4) False in simp_all)
  qed
qed

end

lemma at_bytes_parse:
  assumes "at_bytes e p bs"
  shows "parse_bytes e p (length bs) = Some (of_le bs, p + of_nat (length bs))"
proof -
  have "rd_bytes (cls_mem e) p (length bs) = bs"
    using assms by (intro nth_equalityI) (simp_all add: rd_bytes_def at_bytes_def)
  then show ?thesis using assms by (simp add: sized_read at_bytes_def)
qed

lemma packed_masks:
  "list_all (\<lambda>d. (of_nat (0x40 + d) :: u8) AND DW_CFA_OPERAND_MASK = of_nat d \<and>
     (of_nat (0x40 + d) :: u8) AND DW_CFA_OPCODE_MASK = 0x40) [0..<64]"
  by code_simp

lemma packed_opcode:
  assumes "d < 64"
  defines "b \<equiv> of_nat (0x40 + d) :: u8"
  shows "b AND DW_CFA_OPERAND_MASK = of_nat d" "b AND DW_CFA_OPCODE_MASK = 0x40" "unat b = 64 + d"
proof -
  show "unat b = 64 + d" unfolding b_def using assms(1) by (simp add: unat_of_nat_eq del: of_nat_add)
  show "b AND DW_CFA_OPERAND_MASK = of_nat d" "b AND DW_CFA_OPCODE_MASK = 0x40"
    using packed_masks assms(1) unfolding b_def list_all_iff by (simp_all del: of_nat_add)
qed

lemma advance_locs:
  assumes "d < 2 ^ LENGTH('a)"
  shows "ucast (of_nat d :: 'a :: len word) = (of_nat d :: u64)"
  using assms by (simp add: unsigned_of_nat take_bit_nat_eq_self)

interpretation form: cfa_advance "form_bytes f" "form_limit f" "form_next f" for f
proof
  fix d a off :: nat
  show "form_bytes f d \<noteq> []" by (cases f) simp_all
  show "form_next f a off d \<le> off + d * a" by (cases f) simp_all
next
  fix d :: nat and e p
  assume d: "d < form_limit f" and at: "at_bytes e p (form_bytes f d)"
  show "\<exists>ins q. FIRCLSParseUint8AndAdvance e p = Some (ins, q) \<and> ins \<noteq> 0 \<and>
      (\<forall>c s off a. codeAlignFactor c = of_nat a \<longrightarrow>
        execute_instruction e ins c s (of_nat off) q = Some (True, of_nat (form_next f a off d), s, p + of_nat (length (form_bytes f d))))"
  proof (cases f)
    case Packed
    have l: "d < 64" using d Packed by simp
    let ?b = "of_nat (0x40 + d) :: u8"
    have b: "FIRCLSParseUint8AndAdvance e p = Some (?b, p + 1)" using at_bytes_Cons(1) [of e p ?b "[]"] at Packed by simp
    have u: "unat ?b = 64 + d" by (rule packed_opcode(3) [OF l])
    have n: "?b \<noteq> 0" "?b \<notin> {0x01, 0x02, 0x03, 0x04, 0x0C, 0x0D, 0x0E, 0x08, 0x09, 0x0F, 0x10, 0x16}"
      "?b \<notin> {0x05, 0x06, 0x07, 0x0A, 0x0B, 0x11, 0x12, 0x13, 0x14, 0x15, 0x2D, 0x2E, 0x2F}"
      using u by (auto simp del: of_nat_add)
    have "ucast (of_nat d :: u8) = (of_nat d :: u64)" by (rule advance_locs) (use l in simp)
    then have "execute_instruction e ?b c s off (p + 1) = Some (True, of_nat d * codeAlignFactor c, s, p + 1)" for c s off
      using n packed_opcode(1,2) [OF l]
      by (simp add: execute_instruction_def execute_with_operand_def execute_advance_loc_def Let_def del: of_nat_add)
    then show ?thesis using b n(1) Packed by (auto simp del: of_nat_add)
  next
    case Loc1
    note c = at_bytes_Cons [of e p "0x02" "[of_nat d]"]
    have "FIRCLSParseUint8AndAdvance e (p + 1) = Some (of_nat d, p + 1 + 1)" 
      using at_bytes_Cons(1) [OF c(2)] at Loc1 by simp
    then show ?thesis using c(1) at Loc1 d advance_locs [of d, where 'a = 8]
      by (auto simp: execute_instruction_def execute_advance_loc1_def add.assoc)
  next
    case Loc2
    have c: "at_bytes e p (0x03 # le_bytes 2 d)" using at Loc2 by simp
    have "of_le (le_bytes 2 d) = d" using d Loc2 by (simp add: of_le_le_bytes)
    then have "FIRCLSParseUint16AndAdvance e (p + 1) = Some (of_nat d, p + 1 + of_nat 2)"
      using at_bytes_parse [OF at_bytes_Cons(2) [OF c]] by (simp add: FIRCLSParseUint16AndAdvance_def)
    then show ?thesis using at_bytes_Cons(1) [OF c] Loc2 d advance_locs [of d, where 'a = 16]
      by (auto simp: execute_instruction_def execute_advance_loc2_def add.assoc)
  next
    case Loc4
    have c: "at_bytes e p (0x04 # le_bytes 4 d)" using at Loc4 by simp
    have "of_le (le_bytes 4 d) = d" using d Loc4 by (simp add: of_le_le_bytes)
    then have "FIRCLSParseUint32AndAdvance e (p + 1) = Some (of_nat d, p + 1 + of_nat 4)"
      using at_bytes_parse [OF at_bytes_Cons(2) [OF c]] by (simp add: FIRCLSParseUint32AndAdvance_def)
    then show ?thesis using at_bytes_Cons(1) [OF c] Loc4 d advance_locs [of d, where 'a = 32]
      by (auto simp: execute_instruction_def execute_advance_loc4_def add.assoc)
  qed
qed

definition frame_rows :: "advance_form \<Rightarrow> (nat \<times> nat) list \<Rightarrow> u8 list" where
  "frame_rows f rs = concat (map (row_bytes (form_bytes f)) rs)"

text \<open>C38: the rows of a frame description. On rows that advance the location and set the CFA offset, the
  offset in force at \<open>pc\<close> is that of the last row before the first one located at or past
  \<open>pc\<close>, where \<open>DW_CFA_advance_loc1\<close>, \<open>2\<close> and \<open>4\<close> add to the location, as DWARF asks, and the
  packed \<open>DW_CFA_advance_loc\<close> takes its operand as the location itself.\<close>

theorem advance_loc_assigns:
  assumes "at_bytes e p (frame_rows f rs)" "codeAlignFactor c = of_nat a"
    "list_all (\<lambda>r. fst r < form_limit f \<and> snd r < 2 ^ 31) rs" "sum_list (map fst rs) * a < 2 ^ 63" "pc < 2 ^ 63"
    "length (frame_rows f rs) < 2 ^ 32"
  shows "FIRCLSDwarfInstructionsEnumerate e \<lparr>ins_length = of_nat (length (frame_rows f rs)), ins_data = p\<rparr> c s (of_nat pc) =
    Some (True, s\<lparr>cfaRegisterOffset :=
      run_rows (if f = Packed then (\<lambda>loc d. d * a) else (\<lambda>loc d. loc + d * a)) 0 pc rs (cfaRegisterOffset s)\<rparr>)"
proof -
  have "form_next f a = (if f = Packed then (\<lambda>loc d. d * a) else (\<lambda>loc d. loc + d * a))"
    by (cases f) (simp_all add: fun_eq_iff)
  then show ?thesis using form.enumerate_rows [OF assms [unfolded frame_rows_def]] unfolding frame_rows_def by simp
qed

definition rows_env :: cls_env where
  "rows_env = list_env 4096 (frame_rows Packed [(4, 16), (4, 32)] @ frame_rows Loc1 [(4, 16), (4, 32)])"

lemma rows_bytes:
  "frame_rows Packed [(4, 16), (4, 32)] = [0x44, 0x0E, 16, 0x44, 0x0E, 32]"
  "frame_rows Loc1 [(4, 16), (4, 32)] = [0x02, 4, 0x0E, 16, 0x02, 4, 0x0E, 32]"
proof -
  have "uleb_bytes 16 = [16]" "uleb_bytes 32 = [32]" by (subst uleb_bytes.simps, simp)+
  then show "frame_rows Packed [(4, 16), (4, 32)] = [0x44, 0x0E, 16, 0x44, 0x0E, 32]"
    "frame_rows Loc1 [(4, 16), (4, 32)] = [0x02, 4, 0x0E, 16, 0x02, 4, 0x0E, 32]"
    by (simp_all add: frame_rows_def row_bytes_def)
qed

theorem advance_loc_assigns_witness:
  "FIRCLSDwarfInstructionsEnumerate rows_env \<lparr>ins_length = 6, ins_data = 4096\<rparr> (zero_cie\<lparr>codeAlignFactor := 1\<rparr>) zero_state 6 =
     Some (True, zero_state\<lparr>cfaRegisterOffset := 32\<rparr>) \<and>
   FIRCLSDwarfInstructionsEnumerate rows_env \<lparr>ins_length = 8, ins_data = 4102\<rparr> (zero_cie\<lparr>codeAlignFactor := 1\<rparr>) zero_state 6 =
     Some (True, zero_state\<lparr>cfaRegisterOffset := 16\<rparr>)"
proof
  let ?rs = "[(4, 16), (4, 32)] :: (nat \<times> nat) list" and ?c = "zero_cie\<lparr>codeAlignFactor := 1\<rparr>"
  have "at_bytes rows_env 4096 (frame_rows Packed ?rs @ frame_rows Loc1 ?rs)"
    unfolding rows_env_def by (rule list_env_at) (simp add: rows_bytes)
  from at_bytes_parts [OF this] have at: "at_bytes rows_env 4096 (frame_rows Packed ?rs)" "at_bytes rows_env 4102 (frame_rows Loc1 ?rs)"
    by (simp_all only: rows_bytes) simp_all
  have l: "length (frame_rows Packed ?rs) = 6" "length (frame_rows Loc1 ?rs) = 8" by (simp_all add: rows_bytes)
  show "FIRCLSDwarfInstructionsEnumerate rows_env \<lparr>ins_length = 6, ins_data = 4096\<rparr> ?c zero_state 6 =
     Some (True, zero_state\<lparr>cfaRegisterOffset := 32\<rparr>)"
    using advance_loc_assigns [OF at(1), of ?c 1 6 zero_state] by (simp add: l)
  show "FIRCLSDwarfInstructionsEnumerate rows_env \<lparr>ins_length = 8, ins_data = 4102\<rparr> ?c zero_state 6 =
     Some (True, zero_state\<lparr>cfaRegisterOffset := 16\<rparr>)"
    using advance_loc_assigns [OF at(2), of ?c 1 6 zero_state] by (simp add: l)
qed

section \<open>The saved registers\<close>

text \<open>The context with the registers \<open>is\<close> set to \<open>v\<close>; setting the link register sets the pc too.\<close>

definition with_regs :: "(nat \<Rightarrow> bool) \<Rightarrow> (nat \<Rightarrow> u64) \<Rightarrow> cls_context \<Rightarrow> cls_context" where
  "with_regs is v r = \<lparr>
     x_regs = (\<lambda>i. if is i \<and> i \<le> 28 then v i else x_regs r i),
     fp_reg = (if is 29 then v 29 else fp_reg r),
     lr_reg = (if is 30 then v 30 else lr_reg r),
     sp_reg = (if is 31 then v 31 else sp_reg r),
     pc_reg = (if is 30 then v 30 else pc_reg r)\<rparr>"

lemma set_register:
  assumes "i \<le> 31"
  shows "FIRCLSDwarfUnwindSetRegisterValue r (of_nat i) x = (True, with_regs (\<lambda>k. k = i) (\<lambda>_. x) r)"
proof -
  have u: "unat (of_nat i :: u64) = i" using assms by (simp add: unat_of_nat_eq)
  consider "i \<le> 28" | "i = 29" | "i = 30" | "i = 31" using assms by linarith
  then show ?thesis
  proof cases
    case 1
    then have "(of_nat i :: u64) \<le> 28" using u by (simp add: word_le_nat_alt)
    then show ?thesis using 1 u by (simp add: FIRCLSDwarfUnwindSetRegisterValue_def with_regs_def fun_eq_iff)
  qed (cases r; simp add: FIRCLSDwarfUnwindSetRegisterValue_def with_regs_def CLS_DWARF_ARM64_FP_def CLS_DWARF_ARM64_LR_def
      CLS_DWARF_ARM64_SP_def FIRCLSThreadContextSetFramePointer_def FIRCLSThreadContextSetLinkRegister_def
      FIRCLSThreadContextSetPC_def FIRCLSThreadContextSetStackPointer_def fun_eq_iff)+
qed

lemma with_regs_twice: "with_regs is v (with_regs (\<lambda>k. k = i) (\<lambda>_. v i) r) = with_regs (\<lambda>k. k = i \<or> is k) v r"
  by (simp add: with_regs_def fun_eq_iff)

lemma with_regs_none [simp]: "with_regs (\<lambda>_. False) v r = r"
  by (simp add: with_regs_def)

definition in_use :: "dwarf_state \<Rightarrow> nat \<Rightarrow> bool" where
  "in_use s i \<longleftrightarrow> location (regs s i) \<noteq> RegisterUnused"

lemma assign_registers_with:
  assumes "list_all (\<lambda>i. i \<le> 31 \<and> (in_use s i \<longrightarrow> FIRCLSDwarfGetSavedRegister e r cfa (regs s i) = Some (v i))) is"
  shows "assign_registers e s r cfa is new = Some (True, with_regs (\<lambda>k. k \<in> set is \<and> in_use s k) v new)"
  using assms
proof (induction "is" arbitrary: new)
  case (Cons i "is")
  have ih: "assign_registers e s r cfa is n = Some (True, with_regs (\<lambda>k. k \<in> set is \<and> in_use s k) v n)" for n using Cons by simp
  show ?case
  proof (cases "in_use s i")
    case False
    then have "(\<lambda>k. k \<in> set (i # is) \<and> in_use s k) = (\<lambda>k. k \<in> set is \<and> in_use s k)" by (auto simp: fun_eq_iff)
    then show ?thesis using ih [of new] False by (simp add: in_use_def)
  next
    case True
    then have "(\<lambda>k. k \<in> set (i # is) \<and> in_use s k) = (\<lambda>k. k = i \<or> k \<in> set is \<and> in_use s k)" by (auto simp: fun_eq_iff)
    moreover have "location (regs s i) \<noteq> RegisterUnused" "FIRCLSDwarfGetSavedRegister e r cfa (regs s i) = Some (v i)" "i \<le> 31"
      using True Cons.prems by (simp_all add: in_use_def)
    then have "assign_registers e s r cfa (i # is) new = assign_registers e s r cfa is (with_regs (\<lambda>k. k = i) (\<lambda>_. v i) new)"
      using set_register [of i new "v i"] by simp
    ultimately show ?thesis unfolding ih with_regs_twice by simp
  qed
qed simp

text \<open>C39: the caller's registers. When every rule of the frame can be followed (it has a value \<open>v i\<close> for
  each register in use), the unwinder succeeds exactly when the return address is among the
  saved registers and both it and the stack pointer change; it then has set exactly the saved
  registers to their values, the stack pointer to the canonical frame address and the pc to the
  saved return address. A return address equal to the current one, as in direct recursion, is
  a failure.\<close>

theorem caller_registers_restored:
  assumes "\<forall>i \<le> 31. location (regs s i) \<noteq> RegisterUnused \<longrightarrow> FIRCLSDwarfGetSavedRegister e r cfa (regs s i) = Some (v i)"
  shows "FIRCLSDwarfUnwindAssignRegisters e s r cfa = Some
    (if CLS_PTRAUTH_STRIP cfa \<noteq> FIRCLSThreadContextGetStackPointer r \<and> location (regs s 30) \<noteq> RegisterUnused \<and>
        CLS_PTRAUTH_STRIP (v 30) \<noteq> FIRCLSThreadContextGetLinkRegister r
     then (True, \<lparr>
       x_regs = (\<lambda>i. if i \<le> 28 \<and> location (regs s i) \<noteq> RegisterUnused then v i else x_regs r i),
       fp_reg = (if location (regs s 29) \<noteq> RegisterUnused then v 29 else fp_reg r),
       lr_reg = v 30, sp_reg = cfa, pc_reg = v 30\<rparr>)
     else (False, r))"
proof -
  have upto: "[0..<unat CLS_DWARF_MAX_REGISTER_NUM + 1] = [0..<32]"
    by (simp add: CLS_DWARF_MAX_REGISTER_NUM_def CLS_DWARF_ARM64_SP_def)
  have "list_all (\<lambda>i. i \<le> 31 \<and> (in_use s i \<longrightarrow> FIRCLSDwarfGetSavedRegister e r cfa (regs s i) = Some (v i))) [0..<32]"
    using assms unfolding in_use_def by (simp add: list_all_iff)
  note regs = assign_registers_with [OF this, of r]
  have sp: "FIRCLSDwarfUnwindSetRegisterValue n CLS_DWARF_REG_SP cfa = (True, n\<lparr>sp_reg := cfa\<rparr>)" for n
    by (simp add: FIRCLSDwarfUnwindSetRegisterValue_def CLS_DWARF_REG_SP_def CLS_DWARF_ARM64_FP_def CLS_DWARF_ARM64_SP_def
        FIRCLSThreadContextSetStackPointer_def)
  have cmp: "FIRCLSDwarfCompareRegisters r n CLS_DWARF_REG_SP \<longleftrightarrow> FIRCLSThreadContextGetStackPointer r = CLS_PTRAUTH_STRIP (sp_reg n)"
    "FIRCLSDwarfCompareRegisters r n CLS_DWARF_REG_RETURN \<longleftrightarrow> FIRCLSThreadContextGetLinkRegister r = CLS_PTRAUTH_STRIP (lr_reg n)" for n
    by (simp_all add: FIRCLSDwarfCompareRegisters_def FIRCLSDwarfUnwindGetRegisterValue_def CLS_DWARF_REG_SP_def CLS_DWARF_REG_RETURN_def
        CLS_DWARF_ARM64_FP_def CLS_DWARF_ARM64_LR_def CLS_DWARF_ARM64_SP_def FIRCLSThreadContextGetStackPointer_def
        FIRCLSThreadContextGetLinkRegister_def)
  show ?thesis
    unfolding FIRCLSDwarfUnwindAssignRegisters_def upto regs
    by (auto simp: sp cmp with_regs_def in_use_def FIRCLSThreadContextGetLinkRegister_def fun_eq_iff)
qed

definition saved_env :: cls_env where
  "saved_env = \<lparr>cls_mem = (\<lambda>_. 0), mapped = (\<lambda>_. True),
    vm_read = (\<lambda>a n. Some (le_bytes n (if a = 0x5FF8 then 0x2222 else 0x7000)))\<rparr>"

definition saved_state :: dwarf_state where
  "saved_state = set_reg (set_reg zero_state 29 RegisterInCFA (- 16)) 30 RegisterInCFA (- 8)"

theorem caller_registers_restored_witness:
  "FIRCLSDwarfUnwindAssignRegisters saved_env saved_state sample_context 0x6000 =
     Some (True, sample_context\<lparr>fp_reg := 0x7000, lr_reg := 0x2222, sp_reg := 0x6000, pc_reg := 0x2222\<rparr>) \<and>
   FIRCLSDwarfUnwindAssignRegisters saved_env saved_state (sample_context\<lparr>lr_reg := 0x2222\<rparr>) 0x6000 =
     Some (False, sample_context\<lparr>lr_reg := 0x2222\<rparr>)"
proof
  define v where "v = (\<lambda>i :: nat. if i = 29 then 0x7000 else 0x2222 :: u64)"
  have saved: "\<forall>i \<le> 31. location (regs saved_state i) \<noteq> RegisterUnused \<longrightarrow>
      FIRCLSDwarfGetSavedRegister saved_env r 0x6000 (regs saved_state i) = Some (v i)" for r
    by (simp add: saved_state_def set_reg_def zero_state_def FIRCLSDwarfGetSavedRegister_def read_word_def is_valid_pointer_def
        saved_env_def of_le_le_bytes v_def)
  note unwind = caller_registers_restored [OF saved] and defs = saved_state_def set_reg_def zero_state_def v_def sample_context_def
    FIRCLSThreadContextGetStackPointer_def FIRCLSThreadContextGetLinkRegister_def CLS_PTRAUTH_STRIP_def
  show "FIRCLSDwarfUnwindAssignRegisters saved_env saved_state sample_context 0x6000 =
     Some (True, sample_context\<lparr>fp_reg := 0x7000, lr_reg := 0x2222, sp_reg := 0x6000, pc_reg := 0x2222\<rparr>)"
    unfolding unwind by (simp add: defs fun_eq_iff)
  show "FIRCLSDwarfUnwindAssignRegisters saved_env saved_state (sample_context\<lparr>lr_reg := 0x2222\<rparr>) 0x6000 =
     Some (False, sample_context\<lparr>lr_reg := 0x2222\<rparr>)"
    unfolding unwind by (simp add: defs)
qed

end

