(* ===== verification/Cls_Unwind_Props.thy ===== *)
theory Cls_Unwind_Props
  imports Cls_Unwind Cls_Dwarf_Props
begin

text \<open>
  Which function the compact unwind lookup finds, and which frames are recorded for a thread.
\<close>

lemma unat_ucast_32: "unat (ucast (w :: u32) :: u64) = unat w"
proof -
  have "unat w < 2 ^ 64" by (rule less_trans [OF unat_lt_u32]) simp
  then show ?thesis by (simp add: unsigned_ucast_eq take_bit_nat_eq_self)
qed

lemma ucast_add32:
  assumes "unat (a :: u32) + unat b < 2 ^ 32"
  shows "ucast (a + b) = (ucast a + ucast b :: u64)"
proof -
  have "unat (a + b) = unat a + unat b" using assms by (simp add: unat_word_ariths)
  moreover have "unat (ucast a + ucast b :: u64) = unat a + unat b" using assms by (simp add: unat_word_ariths unat_ucast_32)
  ultimately show ?thesis by (simp add: word_unat_eq_iff unat_ucast_32)
qed

section \<open>The binary search\<close>

text \<open>With \<open>m\<close> entries at or below the address: the loop keeps \<open>m\<close> between its two indices.\<close>

lemma search_loop_finds:
  assumes "\<And>j. j < n \<Longrightarrow> uint32_at e arr j = Some (ent j)"
    and "\<And>j. j < n \<Longrightarrow> ucast (entry_func_offset abi (ent j)) \<le> a \<longleftrightarrow> j < m"
    and "m \<le> n" "0 < n" "i \<le> high" "high \<le> n" "i = 0 \<or> i < m" "high = n \<or> m \<le> high"
  shows "search_loop e abi a n arr i high =
    Some (if m = 0 then (True, 0) else if m = n then (False, n - 1) else (True, m - 1))"
  using assms(5-8)
proof (induction "high - i" arbitrary: i high rule: less_induct)
  case less
  show ?case
  proof (cases "i < high")
    case False
    then have "i = high" using less.prems(1) by simp
    then have "i = 0 \<and> m = 0" using less.prems assms(3,4) by auto
    then show ?thesis using \<open>i = high\<close> assms(4) by (subst search_loop.simps) simp
  next
    case True
    define mid where "mid = (i + high) div 2"
    have mid: "i \<le> mid" "mid < high" "mid < n" using True less.prems(2) by (simp_all add: mid_def)
    note step = search_loop.simps [of e abi a n arr i high, folded mid_def]
    have gt: "ucast (entry_func_offset abi (ent j)) > a \<longleftrightarrow> m \<le> j" if "j < n" for j
      using assms(2) [OF that] by (simp add: not_le [symmetric])
    show ?thesis
    proof (cases "m \<le> mid")
      case low: True
      have "search_loop e abi a n arr i high = search_loop e abi a n arr i mid"
        using True mid low gt [OF mid(3)] assms(1) [OF mid(3)] by (simp add: step mid_def [symmetric])
      then show ?thesis using less.hyps [of mid i] mid low less.prems by simp
    next
      case up: False
      show ?thesis
      proof (cases "mid = n - 1")
        case at_end: True
        then have "m = n" using up assms(3) by simp
        moreover have "search_loop e abi a n arr i high = Some (False, n - 1)"
          using True mid up gt [OF mid(3)] assms(1) [OF mid(3)] at_end by (simp add: step mid_def [symmetric])
        ultimately show ?thesis using assms(4) by simp
      next
        case False
        then have next_in: "mid + 1 < n" using mid(3) by simp
        show ?thesis
        proof (cases "m \<le> mid + 1")
          case here: True
          then have "m = mid + 1" using up by simp
          then show ?thesis
            using True mid up gt [OF mid(3)] gt [OF next_in] assms(1) [OF mid(3)] assms(1) [OF next_in] next_in
            by (simp add: step mid_def [symmetric])
        next
          case on: False
          then have "search_loop e abi a n arr i high = search_loop e abi a n arr (mid + 1) high"
            using True mid up gt [OF mid(3)] gt [OF next_in] assms(1) [OF mid(3)] assms(1) [OF next_in] False
            by (simp add: step mid_def [symmetric])
          then show ?thesis using less.hyps [of high "mid + 1"] mid on less.prems by simp
        qed
      qed
    qed
  qed
qed

lemma prefix_bound:
  fixes P :: "nat \<Rightarrow> bool"
  assumes "\<And>i j. i \<le> j \<Longrightarrow> j < n \<Longrightarrow> P j \<Longrightarrow> P i"
  obtains m where "m \<le> n" "\<And>j. j < n \<Longrightarrow> P j \<longleftrightarrow> j < m"
proof
  define m where "m = (LEAST j. j = n \<or> \<not> P j)"
  have m: "m = n \<or> \<not> P m" unfolding m_def by (rule LeastI [of _ n]) simp
  show "m \<le> n" unfolding m_def by (rule Least_le) simp
  show "P j \<longleftrightarrow> j < m" if "j < n" for j
  proof
    show "j < m" if "P j"
    proof (rule ccontr)
      assume "\<not> j < m"
      then have "m \<le> j" by simp
      then show False using assms [of m j] that \<open>j < n\<close> m by auto
    qed
    show "P j" if "j < m" using not_less_Least [OF that [unfolded m_def]] by simp
  qed
qed

text \<open>A compressed page: its header, and the \<open>n\<close> entries behind it in ascending order of their offsets.\<close>

definition compressed_page ::
    "cls_env \<Rightarrow> compact_abi \<Rightarrow> compact_context \<Rightarrow> page_header \<Rightarrow> u64 \<Rightarrow> (nat \<Rightarrow> u32) \<Rightarrow> bool" where
  "compressed_page e abi x h arr ent \<longleftrightarrow>
     FIRCLSCompactUnwindGetSecondLevelData x \<noteq> 0 \<and>
     map_option (page_of abi) (deref e (FIRCLSCompactUnwindGetSecondLevelData x) (page_size abi)) = Some h \<and>
     advance (FIRCLSCompactUnwindGetSecondLevelData x) (unat (entryPageOffset h)) = Some arr \<and>
     (\<forall>j < unat (entryCount h). uint32_at e arr j = Some (ent j)) \<and>
     (\<forall>j < unat (entryCount h). \<forall>i \<le> j. entry_func_offset abi (ent i) \<le> entry_func_offset abi (ent j))"

text \<open>Where function \<open>i\<close> of the page starts.\<close>

definition page_start :: "compact_abi \<Rightarrow> compact_context \<Rightarrow> (nat \<Rightarrow> u32) \<Rightarrow> nat \<Rightarrow> nat" where
  "page_start abi x ent i = unat (FIRCLSCompactUnwindGetIndexFunctionOffset x) + unat (entry_func_offset abi (ent i))"

lemma page_search:
  assumes "compressed_page e abi x h arr ent" "unat (entryCount h) = n" "FIRCLSCompactUnwindGetIndexFunctionOffset x < pc"
    and "m \<le> n" "\<And>j. j < n \<Longrightarrow> page_start abi x ent j \<le> unat pc \<longleftrightarrow> j < m" "0 < n"
  shows "FIRCLSCompactUnwindBinarySearchSecondLevel e abi (FIRCLSCompactUnwindGetTargetAddress x pc) 0 (entryCount h) arr =
    Some (if m = 0 then (True, 0) else if m = n then (False, n - 1) else (True, m - 1))"
proof -
  let ?b = "FIRCLSCompactUnwindGetIndexFunctionOffset x" and ?p = "FIRCLSCompactUnwindGetSecondLevelData x"
  have t: "FIRCLSCompactUnwindGetTargetAddress x pc = pc - ?b"
    using assms(3) by (auto simp: FIRCLSCompactUnwindGetTargetAddress_def Let_def)
  have u: "unat (pc - ?b) = unat pc - unat ?b" using assms(3) by (intro unat_sub) simp
  have lt: "unat ?b < unat pc" using assms(3) by (simp add: word_less_nat_alt)
  have "?p \<noteq> 0" "unat arr = unat ?p + unat (entryPageOffset h)"
    using assms(1) by (auto simp: compressed_page_def dest: advance_forward)
  then have arr: "arr \<noteq> 0" by (metis add_is_0 unat_0 unat_eq_zero)
  have nz: "pc - ?b \<noteq> 0" "entryCount h \<noteq> 0" using assms(2,3,6) by auto
  have "ucast (entry_func_offset abi (ent j)) \<le> pc - ?b \<longleftrightarrow> j < m" if "j < n" for j
  proof -
    have "unat (ucast (entry_func_offset abi (ent j)) :: u64) = unat (entry_func_offset abi (ent j))"
      by (rule unat_ucast_32)
    then have "ucast (entry_func_offset abi (ent j)) \<le> pc - ?b \<longleftrightarrow> unat (entry_func_offset abi (ent j)) \<le> unat pc - unat ?b"
      by (simp add: word_le_nat_alt u)
    then show ?thesis using assms(5) [OF that] lt by (simp add: page_start_def le_diff_conv2 add.commute)
  qed
  from search_loop_finds [of n e arr ent abi "pc - ?b" m 0 n, OF _ this assms(4,6)] show ?thesis
    using assms(1,2) nz arr by (simp add: FIRCLSCompactUnwindBinarySearchSecondLevel_def t compressed_page_def)
qed

text \<open>C37: looking up a function in a compressed page. A pc inside any function of the page but the last is
  given that function's range and its encoding. A pc at the first byte of the page's range, or
  anywhere in the last function of the page, is not found, although the code after the search
  computes the end of the last entry.\<close>

theorem compact_page_lookup:
  assumes "compressed_page e abi x h arr ent" "unat (entryCount h) = n"
    "unat (FIRCLSCompactUnwindGetIndexFunctionOffset x) + 2 ^ 32 \<le> 2 ^ 64"
    "\<forall>i < n. unat (entry_func_offset abi (ent i)) + unat (functionOffset (indexHeader x)) < 2 ^ 32"
  shows "(k + 1 < n \<and> page_start abi x ent k \<le> unat pc \<and> unat pc < page_start abi x ent (k + 1) \<and>
      FIRCLSCompactUnwindGetIndexFunctionOffset x < pc \<longrightarrow>
      FIRCLSCompactUnwindLookupSecondLevelCompressed e abi x pc r =
        map_option (\<lambda>enc. (enc \<noteq> 0, \<lparr>encoding = enc, functionStart = of_nat (page_start abi x ent k),
            functionEnd = of_nat (page_start abi x ent (k + 1))\<rparr>))
          (entry_encoding e abi x (FIRCLSCompactUnwindGetSecondLevelData x) h (ent k))) \<and>
    (pc \<le> FIRCLSCompactUnwindGetIndexFunctionOffset x \<or> 0 < n \<and> page_start abi x ent (n - 1) \<le> unat pc \<longrightarrow>
      FIRCLSCompactUnwindLookupSecondLevelCompressed e abi x pc r = Some (False, zero_result))"
proof -
  let ?b = "FIRCLSCompactUnwindGetIndexFunctionOffset x" and ?p = "FIRCLSCompactUnwindGetSecondLevelData x"
  note page = assms(1) [unfolded compressed_page_def]
  have lookup: "FIRCLSCompactUnwindLookupSecondLevelCompressed e abi x pc r = Some (False, zero_result)"
    if "FIRCLSCompactUnwindBinarySearchSecondLevel e abi (FIRCLSCompactUnwindGetTargetAddress x pc) 0 (entryCount h) arr = Some (False, i)" for i
    using page that by (auto simp: FIRCLSCompactUnwindLookupSecondLevelCompressed_def Let_def)
  have mono: "page_start abi x ent i \<le> page_start abi x ent j" if "i \<le> j" "j < n" for i j
  proof -
    have "entry_func_offset abi (ent i) \<le> entry_func_offset abi (ent j)" using page that unfolding assms(2) by blast
    then show ?thesis by (simp add: page_start_def word_le_nat_alt)
  qed
  have down: "page_start abi x ent i \<le> unat pc" if "i \<le> j" "j < n" "page_start abi x ent j \<le> unat pc" for i j
    using mono [OF that(1,2)] that(3) by linarith
  obtain m where m: "m \<le> n" "\<And>j. j < n \<Longrightarrow> page_start abi x ent j \<le> unat pc \<longleftrightarrow> j < m"
    by (rule prefix_bound [of n "\<lambda>j. page_start abi x ent j \<le> unat pc", OF down]) auto
  note search = page_search [OF assms(1,2) _ m]
  show ?thesis
  proof (intro conjI impI)
    assume k: "k + 1 < n \<and> page_start abi x ent k \<le> unat pc \<and> unat pc < page_start abi x ent (k + 1) \<and> ?b < pc"
    then have mk: "m = k + 1" using m(2) [of k] m(2) [of "k + 1"] by auto
    then have found: "FIRCLSCompactUnwindBinarySearchSecondLevel e abi (FIRCLSCompactUnwindGetTargetAddress x pc) 0 (entryCount h) arr = Some (True, k)"
      using search k by simp
    have start: "of_nat (page_start abi x ent i) = ucast (entry_func_offset abi (ent i)) + ?b" for i
      by (simp add: page_start_def unsigned_ucast_eq add.commute)
    have room: "page_start abi x ent i < 2 ^ 64" for i
    proof -
      have "unat (entry_func_offset abi (ent i)) < 2 ^ 32" by (rule less_le_trans [OF unat_lt_u32]) simp
      then show ?thesis using assms(3) unfolding page_start_def by linarith
    qed
    have stop: "loadAddress x + ucast (entry_func_offset abi (ent (k + 1)) + functionOffset (indexHeader x)) = of_nat (page_start abi x ent (k + 1))"
      using assms(4) k unfolding start FIRCLSCompactUnwindGetIndexFunctionOffset_def by (subst ucast_add32) (simp_all add: add.commute add.left_commute)
    have inside: "\<not> (pc < of_nat (page_start abi x ent k) \<or> of_nat (page_start abi x ent (k + 1)) \<le> pc)"
      using k room [of k] room [of "k + 1"] by (simp add: word_less_nat_alt word_le_nat_alt unat_of_nat_u64)
    show "FIRCLSCompactUnwindLookupSecondLevelCompressed e abi x pc r =
        map_option (\<lambda>enc. (enc \<noteq> 0, \<lparr>encoding = enc, functionStart = of_nat (page_start abi x ent k),
            functionEnd = of_nat (page_start abi x ent (k + 1))\<rparr>)) (entry_encoding e abi x ?p h (ent k))"
      using page found assms(2) k inside stop
      by (cases "entry_encoding e abi x ?p h (ent k)")
        (auto simp: FIRCLSCompactUnwindLookupSecondLevelCompressed_def Let_def zero_result_def start [symmetric])
  next
    assume h: "pc \<le> ?b \<or> 0 < n \<and> page_start abi x ent (n - 1) \<le> unat pc"
    show "FIRCLSCompactUnwindLookupSecondLevelCompressed e abi x pc r = Some (False, zero_result)"
    proof (cases "pc \<le> ?b")
      case True
      then have "FIRCLSCompactUnwindGetTargetAddress x pc = 0" by (simp add: FIRCLSCompactUnwindGetTargetAddress_def)
      then show ?thesis by (intro lookup) (simp add: FIRCLSCompactUnwindBinarySearchSecondLevel_def)
    next
      case False
      then have "n - 1 < m" "0 < n" using h m(2) [of "n - 1"] by auto
      then have "m = n" using m(1) by simp
      then show ?thesis using search False \<open>0 < n\<close> by (intro lookup) simp
    qed
  qed
qed

text \<open>A layout with a 12-byte page header and 24-bit offsets, and a page of three functions.\<close>

definition sample_abi :: compact_abi where
  "sample_abi = \<lparr>header_size = 28, header_of = (\<lambda>_. unwindHeader zero_compact), index_size = 12,
    index_of = (\<lambda>_. indexHeader zero_compact), page_size = 12,
    page_of = (\<lambda>bs. \<lparr>entryPageOffset = of_nat (of_le (take 2 (drop 4 bs))), entryCount = of_nat (of_le (take 2 (drop 6 bs))),
      encodingsPageOffset = of_nat (of_le (take 2 (drop 8 bs)))\<rparr>),
    entry_func_offset = (\<lambda>w. w AND 0x00FFFFFF), entry_encoding_index = drop_bit 24, section_version = 1,
    second_level_regular = 2, second_level_compressed = 3, mode_mask = 0x0F000000, mode_frameless = 0x02000000,
    mode_dwarf = 0x03000000, mode_frame = 0x04000000, dwarf_section_offset = 0x00FFFFFF\<rparr>"

definition page_env :: cls_env where
  "page_env = list_env 4096 [3, 0, 0, 0, 12, 0, 3, 0, 24, 0, 1, 0, 0x10, 0, 0, 0, 0x40, 0, 0, 0, 0x80, 0, 0, 0, 0, 0, 0, 4]"

definition page_context :: compact_context where
  "page_context = zero_compact\<lparr>unwindInfo := 4096, loadAddress := 0x10000,
     indexHeader := \<lparr>functionOffset = 0x1000, secondLevelPagesSectionOffset = 0\<rparr>, firstLevelNextFunctionOffset := 0x2000\<rparr>"

lemma page_words:
  "uint32_at page_env 4108 0 = Some 0x10" "uint32_at page_env 4108 1 = Some 0x40" "uint32_at page_env 4108 2 = Some 0x80"
  "uint32_at page_env 4120 0 = Some 0x04000000"
  by (simp_all add: uint32_at_def element_at_def advance_def deref_def page_env_def list_env_def rd_bytes_def wr_bytes_def upt_rec)

lemma page_compressed:
  "compressed_page page_env sample_abi page_context \<lparr>entryPageOffset = 12, entryCount = 3, encodingsPageOffset = 24\<rparr> 4108
     (\<lambda>i. [0x10, 0x40, 0x80] ! i)"
proof -
  have less: "i < 3 \<longleftrightarrow> i \<in> {0, 1, 2}" for i :: nat by auto
  have le: "(\<forall>i \<le> j. P i) \<longleftrightarrow> P 0 \<and> (1 \<le> j \<longrightarrow> P 1) \<and> (2 \<le> j \<longrightarrow> P 2)" if "j \<in> {0, 1, 2}" for j :: nat and P
    using that by (auto simp: le_Suc_eq numeral_2_eq_2)
  show ?thesis
    using page_words
    by (simp add: compressed_page_def FIRCLSCompactUnwindGetSecondLevelData_def page_context_def zero_compact_def advance_def
        sample_abi_def deref_def page_env_def list_env_def rd_bytes_def wr_bytes_def upt_rec less le)
qed

theorem compact_page_lookup_witness:
  "FIRCLSCompactUnwindLookupSecondLevelCompressed page_env sample_abi page_context 0x11020 zero_result =
     Some (True, \<lparr>encoding = 0x04000000, functionStart = 0x11010, functionEnd = 0x11040\<rparr>) \<and>
   FIRCLSCompactUnwindLookupSecondLevelCompressed page_env sample_abi page_context 0x11090 zero_result = Some (False, zero_result)"
proof -
  have base: "FIRCLSCompactUnwindGetIndexFunctionOffset page_context = 0x11000"
    by (simp add: FIRCLSCompactUnwindGetIndexFunctionOffset_def page_context_def)
  have less: "(\<forall>i < 3. P i) \<longleftrightarrow> P 0 \<and> P 1 \<and> P 2" for P :: "nat \<Rightarrow> bool" by (auto simp: less_Suc_eq numeral_3_eq_3 numeral_2_eq_2)
  have starts: "page_start sample_abi page_context (\<lambda>i. [0x10, 0x40, 0x80] ! i) 0 = 0x11010"
    "page_start sample_abi page_context (\<lambda>i. [0x10, 0x40, 0x80] ! i) 1 = 0x11040"
    "page_start sample_abi page_context (\<lambda>i. [0x10, 0x40, 0x80] ! i) 2 = 0x11080"
    by (simp_all add: page_start_def base sample_abi_def)
  have enc: "entry_encoding page_env sample_abi page_context 4096 \<lparr>entryPageOffset = 12, entryCount = 3, encodingsPageOffset = 24\<rparr> 0x10
      = Some 0x04000000"
    using page_words(4) by (simp add: entry_encoding_def sample_abi_def page_context_def zero_compact_def advance_def)
  have p: "FIRCLSCompactUnwindGetSecondLevelData page_context = 4096"
    by (simp add: FIRCLSCompactUnwindGetSecondLevelData_def page_context_def)
  have off: "\<forall>i < 3. unat (entry_func_offset sample_abi ([0x10, 0x40, 0x80] ! i)) + unat (functionOffset (indexHeader page_context)) < 2 ^ 32"
    unfolding less by (simp add: sample_abi_def page_context_def)
  note found = compact_page_lookup [OF page_compressed _ _ off, of 0 "0x11020" zero_result]
    and missed = compact_page_lookup [OF page_compressed _ _ off, of 0 "0x11090" zero_result]
  show ?thesis using found missed starts enc by (simp add: base p)
qed

section \<open>Walking the frame pointers\<close>









lemma strip_0 [simp]: "CLS_PTRAUTH_STRIP 0 = 0"
  by (simp add: CLS_PTRAUTH_STRIP_def)

lemma invalid_0 [simp]: "\<not> is_valid_pointer 0"
  by (simp add: is_valid_pointer_def)










end

