(* ===== verification/Spec2Isabelle.thy ===== *)
theory Spec2Isabelle
  imports Nanopb_Encode_Props Nanopb_Decode_Props Bssl_Cbb_Steps Bssl_Text_Props Bssl_Set_Of Bssl_Ber
    Bssl_Stack_Props Bssl_Lhash_Props Bssl_Pool_Props Bssl_Base64_Props Cls_Unwind_Props
begin

text \<open>
  A verification library for the C code of the ThorChat application. The application is written in
  Swift; its C code is in the libraries under \<open>src/ThorChat/Pods\<close>, and three bodies of it are
  modelled: nanopb, the protocol buffer codec of the Firebase libraries; the byte strings,
  containers and text formats of BoringSSL, on which its certificate and TLS code stands; and the
  stack unwinder of Crashlytics, which runs in a crashed process on whatever memory it finds.

  \<^bold>\<open>Conventions.\<close> The target is 64-bit iOS: little-endian, 64-bit \<open>size_t\<close> and pointers. \<open>Prelude\<close> has the
  integer types \<open>u8\<close> to \<open>u64\<close>, which wrap, byte-addressed memory with little-endian loads and
  stores and their frame rules, little-endian byte strings, and the lemmas on bits and words that
  all parts share. A definition has the name of the C function it models, and the map of the
  development gives its lines. A function that fails returns a flag or an option as the C code
  does; beside it, an outer None is undefined behaviour, an \<open>abort\<close>, or a fuel that has run out,
  as the theory says. A null argument that no caller passes, logging, and the release of memory
  without a result are left out. What a caller's callback, the C library or the kernel does is a
  parameter: \<open>enc_env\<close> and \<open>dec_env\<close> for nanopb, \<open>heap_env\<close> for \<open>malloc\<close>, which may refuse any request
  and returns arbitrary contents, the comparison and hash functions of the containers, and
  \<open>cls_env\<close> with the mapped addresses and the answers of \<open>vm_read_overwrite\<close>.

  \<^bold>\<open>nanopb\<close> (\<open>Pods/nanopb\<close>).
  \<^item> \<open>Nanopb_Base\<close>: field descriptors, type bytes and the field iterator (\<open>pb.h\<close>, \<open>pb_common.c\<close>).
  \<^item> \<open>Nanopb_Encode\<close>: output streams, all field encoders and \<open>pb_encode\<close> (\<open>pb_encode.c\<close>). A stream of
    the C code that writes to a buffer is the buffer and a cursor; a sizing stream only counts.
    \<open>Nanopb_Encode_Props\<close> describes every encoder by the one byte string it emits, closed under the
    constructs of the encoder (\<open>lawful_intros\<close>), from which the agreement of the sizing pass with
    the writing pass and the absence of overruns follow.
  \<^item> \<open>Nanopb_Istream\<close>: input streams, varints, tags, skipping, substreams, fixed-width values
    (\<open>pb_decode.c\<close>). \<open>Nanopb_Istream_Props\<close> has two interfaces: \<open>stream_codec\<close>, a byte format whose
    reader returns what was written and leaves the rest, and \<open>buffer_reader\<close>, a reader that stays
    inside its buffer on any input; each is interpreted on the primitive decoders.
  \<^item> \<open>Nanopb_Decode\<close>: field decoders, defaults, release, extensions, required fields, \<open>pb_decode\<close> and
    its delimited form. \<open>Nanopb_Decode_Props\<close> shows that a field decoder (\<open>field_decoder\<close>) writes
    only its field, that scalars survive a round trip through memory, and that decoding returns.
  The recursion of a message through its submessages takes a fuel, the depth of the C stack. It is
  enough when it exceeds the nesting of the message types, and \<open>pb_decode_total\<close> shows that then
  the decoder returns on every byte string.

  \<^bold>\<open>BoringSSL\<close> (\<open>Pods/BoringSSL-GRPC/src/crypto\<close>).
  \<^item> \<open>Bssl_Mem\<close>: \<open>mem.c\<close> and byte-order helpers. \<open>cmp_order\<close> is the interface of a comparison function.
  \<^item> \<open>Bssl_Cbs\<close>, \<open>Bssl_Der\<close>: the reader of byte strings (\<open>bytestring/cbs.c\<close>); the ASN.1 reader accepts
    exactly canonical DER, stated with an encoding of X.690 that does not mention the reader.
  \<^item> \<open>Bssl_Cbb\<close>, \<open>Bssl_Cbb_Props\<close>, \<open>Bssl_Cbb_Steps\<close>: the builder (\<open>cbb.c\<close>, \<open>asn1_compat.c\<close>). Its abstract
    state is the bytes written and the nested pending contents; each writer is an instance of
    \<open>cbb_writer\<close>, and \<open>cbb_step\<close> runs any operations in any order on a handle or its descendants.
  \<^item> \<open>Bssl_Integer_Props\<close>, \<open>Bssl_Set_Of\<close>, \<open>Bssl_Text\<close>, \<open>Bssl_Text_Props\<close>, \<open>Bssl_Ber\<close>: INTEGER and other
    values both ways, the sorting of SET OF, object identifiers and Unicode, BER to DER (\<open>ber.c\<close>).
  \<^item> \<open>Bssl_Stack\<close>, \<open>Bssl_Lhash\<close> and their \<open>_Props\<close>: \<open>stack.c\<close> as the list of its elements (\<open>list_store\<close>) with
    the sorted flag as an invariant of \<open>sk_step\<close>; \<open>lhash.c\<close> as a finite map under \<open>hash_contract\<close>.
  \<^item> \<open>Bssl_Pool\<close>, \<open>Bssl_Pool_Props\<close>: \<open>pool.c\<close> and reference counts. The pool is a client of the hash
    table through \<open>hash_contract\<close>; \<open>pool_step\<close> interleaves callers between the locked sections.
  \<^item> \<open>Bssl_Base64\<close>, \<open>Bssl_Base64_Props\<close>: \<open>base64.c\<close>, whole blocks and streams cut anywhere.

  \<^bold>\<open>Crashlytics\<close> (\<open>Pods/FirebaseCrashlytics/Crashlytics/Crashlytics\<close>), each part calling the ones before it.
  \<^item> \<open>Cls_Data\<close>: readers of unwind data (\<open>FIRCLSDataParsing.c\<close>) and the register accessors. A reader
    moves a cursor through mapped memory and never back (\<open>forward\<close>), which is why the loops above
    it end. \<open>Cls_Data_Props\<close> states what a reader returns on the bytes of a value, and that the
    variable-width readers are right only as far as a shift in \<open>int\<close> goes.
  \<^item> \<open>Cls_Expr\<close>: the DWARF expression machine (\<open>FIRCLSDwarfExpressionMachine.c\<close>). \<open>Cls_Expr_Props\<close> gives
    the operations a type, the depth of the stack before and after, and a reference evaluation.
  \<^item> \<open>Cls_Dwarf\<close>: records, call frame instructions and registers (\<open>FIRCLSDwarfUnwind.c\<close>).
    \<open>Cls_Dwarf_Props\<close> states the rows in force at a pc for any form of the advance instruction
    (\<open>cfa_advance\<close>) and the registers the caller gets back.
  \<^item> \<open>Cls_Compact\<close>: Apple's compact unwind information (\<open>FIRCLSCompactUnwind.c\<close>). The layout of that
    section is in a system header and is the parameter \<open>compact_abi\<close>.
  \<^item> \<open>Cls_Unwind\<close>: the walk from frame to frame (\<open>FIRCLSUnwind.c\<close>) and the loop that records a thread
    (\<open>FIRCLSProcess.c\<close>), which ends because a walk has at most 100000 frames. \<open>Cls_Unwind_Props\<close> has
    the lookup of a function by binary search and the recorded stack trace.
  All loops here are total functions without fuel, but the search for an executable address, which
  may run for ever when its bounds wrap around and is a partial function.

  \<^bold>\<open>What the properties show.\<close> Round trips between encoders and decoders; readers that accept exactly
  the canonical encodings; refinement of lists, maps and nested byte strings by the containers and
  the builder under every sequence of operations and every refusal of memory; safety and release
  of shared buffers under interleaving; bounds of every write into a caller's buffer; and the
  places where the code does not do this: the bit position of \<open>pb_decode_varint32\<close> wraps around, a
  flag of the BER scan is lost, a reservation near \<open>2\<^sup>6\<^sup>4\<close> succeeds without room, \<open>sk_set\<close> keeps the
  sorted flag, the packed advance of a DWARF location assigns instead of adding, the last function
  of a page is not found, LEB128 values past 31 bits overflow, and a frame that returns to the
  same address as its caller is refused.

  \<^bold>\<open>Not modelled.\<close> The Swift application and the Objective-C and Swift pods; the C++ libraries
  (gRPC, abseil, LevelDB, the Firestore core, BoringSSL's TLS); BoringSSL's cryptography, X.509 and
  the helpers around them, which are upstream code with generated arithmetic and tables; the
  generated message tables and accessors, of which the models are independent; the x86 unwinder,
  which is built only for the simulator; and the parts of Crashlytics that consist of calls to the
  kernel and output to files. Within the modelled files: the 32-bit configuration of nanopb, the
  \<open>printf\<close> wrappers and \<open>OPENSSL_cleanse\<close> of \<open>mem.c\<close>, and the functions of debug builds that print
  DWARF records. Freed memory is tracked only in the buffer pool, data races only at its locks.
\<close>

end
